(* ===== verification/Prelude.thy ===== *)
theory Prelude
  imports Main
begin

text \<open>
  Shared vocabulary of the development: the results of operations that can fail, the
  limits of the machine integers the server uses, the memory operations of the packed
  containers (bounded reads and writes on a byte array) and the generic lemmas on
  bits, lists and sums that the component theories share.

  A byte is a \<open>nat\<close> below 256 and a C++ string is a \<open>string\<close>; the two are related by
  \<^const>\<open>of_char\<close> and \<^const>\<open>char_of\<close>.  Unsigned values are \<open>nat\<close> and signed
  values are \<open>int\<close>; a truncation the source makes is written out as \<open>mod\<close>.
\<close>

unbundle bit_operations_syntax

named_theorems bits_arith \<open>bitwise operations on bytes and words as arithmetic\<close>
named_theorems res_simps \<open>evaluation of fallible computations\<close>

section \<open>Fallible computations\<close>

text \<open>
  What a C++ operation can do instead of returning: throw one of the standard exceptions
  the sources throw, or access memory it does not own (undefined behaviour in the
  source, a value of the model, so that its absence is a theorem).  \<open>No_return\<close> is a loop that has
  not ended within the iterations the model gives it.
\<close>

datatype fault =
    Out_of_range
  | Length_error
  | Invalid_argument
  | Logic_error
  | Out_of_bounds
  | Null_deref
  | No_return

type_synonym 'a res = "fault + 'a"

definition bindE :: "'e + 'a \<Rightarrow> ('a \<Rightarrow> 'e + 'b) \<Rightarrow> 'e + 'b" where
  "bindE m f = (case m of Inl e \<Rightarrow> Inl e | Inr x \<Rightarrow> f x)"

lemma bindE_Inl [simp, res_simps]: "bindE (Inl e) f = Inl e"
  and bindE_Inr [simp, res_simps]: "bindE (Inr x) f = f x"
  by (simp_all add: bindE_def)

lemma bindE_eq_Inr: "bindE m f = Inr y \<longleftrightarrow> (\<exists>x. m = Inr x \<and> f x = Inr y)"
  by (cases m) auto

lemma bindE_cong [fundef_cong]:
  "m = m' \<Longrightarrow> (\<And>x. m' = Inr x \<Longrightarrow> f x = f' x) \<Longrightarrow> bindE m f = bindE m' f'"
  by (cases m') auto

lemma bindE_assoc: "bindE (bindE m f) g = bindE m (\<lambda>x. bindE (f x) g)"
  by (cases m) auto

section \<open>Machine limits\<close>

abbreviation UINT16_MAX :: nat where "UINT16_MAX \<equiv> 65535"
abbreviation UINT32_MAX :: nat where "UINT32_MAX \<equiv> 4294967295"
abbreviation SIZE_MAX :: nat where "SIZE_MAX \<equiv> 18446744073709551615"
abbreviation INT16_MIN :: int where "INT16_MIN \<equiv> - 32768"
abbreviation INT16_MAX :: int where "INT16_MAX \<equiv> 32767"
abbreviation INT32_MIN :: int where "INT32_MIN \<equiv> - 2147483648"
abbreviation INT32_MAX :: int where "INT32_MAX \<equiv> 2147483647"
abbreviation INT64_MIN :: int where "INT64_MIN \<equiv> - 9223372036854775808"
abbreviation INT64_MAX :: int where "INT64_MAX \<equiv> 9223372036854775807"

definition is_int64 :: "int \<Rightarrow> bool" where
  "is_int64 v \<longleftrightarrow> INT64_MIN \<le> v \<and> v \<le> INT64_MAX"

section \<open>Bitwise operations as arithmetic\<close>

lemma and_low_mask: "(n::nat) AND (2 ^ k - 1) = n mod 2 ^ k"
  by (metis mask_eq_exp_minus_1 take_bit_eq_mask take_bit_eq_mod)

lemma or_add_disjoint:
  fixes a b :: nat
  assumes "b < 2 ^ k" and "2 ^ k dvd a"
  shows "a OR b = a + b"
proof -
  have "a AND b = 0"
  proof (rule bit_eqI)
    fix m
    have "take_bit k a = 0" using assms(2) by (simp add: take_bit_eq_mod)
    moreover have "take_bit k b = b" using assms(1) by (simp add: take_bit_eq_mod)
    ultimately show "bit (a AND b) m = bit 0 m"
      by (metis (no_types) bit_and_iff bit_take_bit_iff bit_0_eq bot_apply bot_bool_def)
  qed
  then show ?thesis by (simp add: disjunctive_add_eq_or)
qed

lemma and_high_mask:
  fixes n :: nat
  assumes "n < 2 ^ (k + j)"
  shows "n AND (2 ^ (k + j) - 2 ^ k) = 2 ^ k * (n div 2 ^ k)"
proof -
  have "n AND (push_bit k (mask j)) = push_bit k (drop_bit k n AND mask j)"
    by (rule bit_eqI) (auto simp: bit_simps)
  also have "drop_bit k n AND mask j = drop_bit k n"
  proof -
    have "drop_bit k n < 2 ^ j" using assms
      by (simp add: drop_bit_eq_div power_add less_mult_imp_div_less mult.commute)
    then show ?thesis by (metis mod_less take_bit_eq_mask take_bit_eq_mod)
  qed
  finally show ?thesis
    by (simp add: push_bit_eq_mult drop_bit_eq_div mask_eq_exp_minus_1 algebra_simps
        power_add diff_mult_distrib2)
qed

lemma byte_masks [bits_arith]:
  fixes n :: nat
  shows "n AND 15 = n mod 16" and "n AND 31 = n mod 32" and "n AND 63 = n mod 64"
    and "n AND 127 = n mod 128" and "n AND 255 = n mod 256"
  using and_low_mask [of n 4] and_low_mask [of n 5] and_low_mask [of n 6]
    and_low_mask [of n 7] and_low_mask [of n 8]
  by simp_all

lemma byte_high_masks [bits_arith]:
  fixes n :: nat
  assumes "n < 256"
  shows "n AND 128 = 128 * (n div 128)" and "n AND 192 = 64 * (n div 64)"
    and "n AND 224 = 32 * (n div 32)" and "n AND 240 = 16 * (n div 16)"
  using assms and_high_mask [of n 7 1] and_high_mask [of n 6 2] and_high_mask [of n 5 3]
    and_high_mask [of n 4 4]
  by simp_all

lemma or_byte_shifts [bits_arith]:
  fixes a b :: nat
  shows "b < 256 \<Longrightarrow> a * 256 OR b = a * 256 + b"
    and "b < 128 \<Longrightarrow> a * 128 OR b = a * 128 + b"
    and "b < 65536 \<Longrightarrow> a * 65536 OR b = a * 65536 + b"
    and "b < 16777216 \<Longrightarrow> a * 16777216 OR b = a * 16777216 + b"
    and "b < 4294967296 \<Longrightarrow> a * 4294967296 OR b = a * 4294967296 + b"
    and "b < 1099511627776 \<Longrightarrow> a * 1099511627776 OR b = a * 1099511627776 + b"
    and "b < 281474976710656 \<Longrightarrow> a * 281474976710656 OR b = a * 281474976710656 + b"
    and "b < 72057594037927936 \<Longrightarrow> a * 72057594037927936 OR b = a * 72057594037927936 + b"
  using or_add_disjoint [of b 8 "a * 256"] or_add_disjoint [of b 7 "a * 128"]
    or_add_disjoint [of b 16 "a * 65536"] or_add_disjoint [of b 24 "a * 16777216"]
    or_add_disjoint [of b 32 "a * 4294967296"] or_add_disjoint [of b 40 "a * 1099511627776"]
    or_add_disjoint [of b 48 "a * 281474976710656"]
    or_add_disjoint [of b 56 "a * 72057594037927936"]
  by simp_all

lemma or_tags [bits_arith]:
  fixes b :: nat
  shows "b < 128 \<Longrightarrow> 128 OR b = 128 + b" and "b < 64 \<Longrightarrow> 192 OR b = 192 + b"
    and "b < 32 \<Longrightarrow> 224 OR b = 224 + b" and "b < 16 \<Longrightarrow> 240 OR b = 240 + b"
    and "b < 128 \<Longrightarrow> b OR 128 = b + 128"
  using or_add_disjoint [of b 7 128] or_add_disjoint [of b 6 192]
    or_add_disjoint [of b 5 224] or_add_disjoint [of b 4 240]
  by (simp_all add: or.commute)


section \<open>Byte arrays\<close>

text \<open>
  Access to an array the object owns.  Reading or writing outside it is the fault
  \<open>Out_of_bounds\<close>; \<open>mem_copy\<close> is \<open>std::memcpy\<close> into the array from bytes that do not
  overlap it, \<open>mem_move\<close> is \<open>std::memmove\<close> inside the array.
\<close>

definition rd :: "'a list \<Rightarrow> nat \<Rightarrow> 'a res" where
  "rd buf i = (if i < length buf then Inr (buf ! i) else Inl Out_of_bounds)"

definition rd_range :: "'a list \<Rightarrow> nat \<Rightarrow> nat \<Rightarrow> 'a list res" where
  "rd_range buf i n = (if i + n \<le> length buf then Inr (take n (drop i buf)) else Inl Out_of_bounds)"

definition mem_copy :: "'a list \<Rightarrow> nat \<Rightarrow> 'a list \<Rightarrow> 'a list res" where
  "mem_copy buf i bs =
     (if i + length bs \<le> length buf then Inr (take i buf @ bs @ drop (i + length bs) buf)
      else Inl Out_of_bounds)"

definition mem_move :: "'a list \<Rightarrow> nat \<Rightarrow> nat \<Rightarrow> nat \<Rightarrow> 'a list res" where
  "mem_move buf dst src n = bindE (rd_range buf src n) (mem_copy buf dst)"

lemma rd_simps [simp, res_simps]:
  "rd (x # xs) 0 = Inr x"
  "rd (x # xs) (Suc k) = rd xs k"
  "rd (x # xs) (numeral m) = rd xs (pred_numeral m)"
  "rd [] k = Inl Out_of_bounds"
  by (auto simp: rd_def numeral_eq_Suc)

lemma rd_append [simp, res_simps]:
  "rd (pre @ xs) (length pre) = rd xs 0"
  "rd (pre @ xs) (length pre + k) = rd xs k"
  "rd (pre @ xs) (Suc (length pre)) = rd xs (Suc 0)"
  by (auto simp: rd_def nth_append)

lemma rd_append_2 [simp, res_simps]: "rd (pre @ xs) (Suc (Suc (length pre))) = rd xs 2"
  using rd_append(2) [of pre xs 2] by simp

lemma rd_append_left: "i < length xs \<Longrightarrow> rd (xs @ ys) i = rd xs i"
  by (simp add: rd_def nth_append)

lemma rd_Inr_less: "rd buf i = Inr x \<Longrightarrow> i < length buf"
  by (simp add: rd_def split: if_splits)

lemma rd_range_append [simp, res_simps]:
  "rd_range (pre @ xs @ ys) (length pre) (length xs) = Inr xs"
  by (simp add: rd_range_def)

lemma mem_copy_length: "mem_copy buf i bs = Inr buf' \<Longrightarrow> length buf' = length buf"
  by (auto simp: mem_copy_def split: if_splits)

lemma mem_move_length: "mem_move buf d s n = Inr buf' \<Longrightarrow> length buf' = length buf"
  by (auto simp: mem_move_def bindE_eq_Inr dest: mem_copy_length)

lemma mem_copy_append [simp, res_simps]:
  assumes "length bs = length ys"
  shows "mem_copy (pre @ ys @ zs) (length pre) bs = Inr (pre @ bs @ zs)"
  using assms by (simp add: mem_copy_def)

text \<open>
  Opening or closing a gap: moving \<open>ys\<close> inside \<open>xs @ ds @ ys @ zs\<close> so that \<open>k\<close> bytes lie
  between \<open>xs\<close> and \<open>ys\<close>.
\<close>

lemma mem_move_gap:
  assumes "k \<le> length ds + length zs"
  obtains g t where
    "mem_move (xs @ ds @ ys @ zs) (length xs + k) (length xs + length ds) (length ys)
       = Inr (xs @ g @ ys @ t)"
    "length g = k" "length t = length ds + length zs - k"
proof
  let ?buf = "xs @ ds @ ys @ zs"
  have "rd_range ?buf (length xs + length ds) (length ys) = Inr ys"
    using rd_range_append [of "xs @ ds" ys zs] by simp
  then show "mem_move ?buf (length xs + k) (length xs + length ds) (length ys)
       = Inr (xs @ take k (ds @ ys @ zs) @ ys @ drop (k + length ys) (ds @ ys @ zs))"
    using assms by (simp add: mem_move_def mem_copy_def add.assoc)
  show "length (take k (ds @ ys @ zs)) = k" using assms by simp
  show "length (drop (k + length ys) (ds @ ys @ zs)) = length ds + length zs - k"
    using assms by simp
qed

section \<open>Bytes of a big-endian number\<close>

lemma tag_mods [bits_arith]:
  fixes x :: nat
  shows "x < 64 \<Longrightarrow> (128 + x) mod 64 = x" and "x < 32 \<Longrightarrow> (192 + x) mod 32 = x"
    and "x < 16 \<Longrightarrow> (224 + x) mod 16 = x"
  using mod_mult_self3 [of 2 64 x] mod_mult_self3 [of 6 32 x] mod_mult_self3 [of 14 16 x]
  by simp_all

lemma and_255: "(u::nat) AND 255 = take_bit 8 u"
  by (simp add: take_bit_eq_mod bits_arith)

lemma be_read_byte: "push_bit k (take_bit 8 (drop_bit k u)) OR take_bit k u = take_bit (k + 8) (u::nat)"
  by (rule bit_eqI) (auto simp: bit_simps)

lemma be_read:
  "push_bit 8 (drop_bit 8 u AND 255) OR (u AND 255) = take_bit 16 (u::nat)"
  "push_bit 16 (drop_bit 16 u AND 255) OR take_bit 16 u = take_bit 24 u"
  "push_bit 24 (drop_bit 24 u AND 255) OR take_bit 24 u = take_bit 32 u"
  "push_bit 32 (drop_bit 32 u AND 255) OR take_bit 32 u = take_bit 40 u"
  "push_bit 40 (drop_bit 40 u AND 255) OR take_bit 40 u = take_bit 48 u"
  "push_bit 48 (drop_bit 48 u AND 255) OR take_bit 48 u = take_bit 56 u"
  "push_bit 56 (drop_bit 56 u AND 255) OR take_bit 56 u = take_bit 64 u"
  unfolding and_255 by (simp_all add: be_read_byte)

end
