(* ===== verification/Num_Utils.thy ===== *)
theory Num_Utils
  imports Prelude
begin

text \<open>
  The decimal conversions of \<open>utils/int_utils.cpp\<close> and \<open>utils/string_utils.cpp\<close>:
  \<open>Digits10\<close>, \<open>ToInt64\<close>, \<open>ToCanonicalInt64\<close>, \<open>Int64ToString\<close> and
  \<open>Uint64ToString\<close>.  The reference printer \<open>dec\<close> (what \<open>std::to_chars\<close> and
  \<open>std::to_string\<close> print) is related to each of them; the packed containers rest on
  the two round trips between a canonical decimal text and the integer it denotes.
\<close>

section \<open>The reference printer\<close>

definition digit_char :: "nat \<Rightarrow> char" where
  "digit_char d = char_of (48 + d)"

fun dec :: "nat \<Rightarrow> string" where
  "dec n = (if n < 10 then [digit_char n] else dec (n div 10) @ [digit_char (n mod 10)])"

declare dec.simps [simp del]

definition dec_int :: "int \<Rightarrow> string" where
  "dec_int v = (if v < 0 then CHR ''-'' # dec (nat (- v)) else dec (nat v))"

section \<open>Definitions of the source\<close>

text \<open>\<open>utils::Digits10\<close>: the number of decimal digits, by comparisons.\<close>

fun Digits10 :: "nat \<Rightarrow> nat" where
  "Digits10 v =
     (if v < 10 then 1
      else if v < 100 then 2
      else if v < 1000 then 3
      else if v < 1000000000000 then
        (if v < 100000000 then
           (if v < 1000000 then
              (if v < 10000 then 4 else 5 + (if v \<ge> 100000 then 1 else 0))
            else 7 + (if v \<ge> 10000000 then 1 else 0))
         else if v < 10000000000 then 9 + (if v \<ge> 1000000000 then 1 else 0)
         else 11 + (if v \<ge> 100000000000 then 1 else 0))
      else 12 + Digits10 (v div 1000000000000))"

declare Digits10.simps [simp del]

text \<open>
  \<open>utils::ToInt64\<close>: the loop reads the characters from position \<open>i\<close> and accumulates
  the magnitude; every early \<open>return false\<close> is \<open>None\<close>.
\<close>

function ToInt64_loop :: "string \<Rightarrow> bool \<Rightarrow> nat \<Rightarrow> nat \<Rightarrow> nat \<Rightarrow> nat option" where
  "ToInt64_loop s has_sign max_magnitude i magnitude =
     (if i < length s then
        (let c = s ! i;
             has_redundant_leading_zero =
               c = CHR ''0'' \<and>
               ((i = 0 \<and> length s > 1) \<or> (i = 1 \<and> has_sign \<and> length s > 2))
         in if has_redundant_leading_zero then None
            else if (of_char c :: nat) < 48 \<or> 57 < (of_char c :: nat) then None
            else let digit = of_char c - 48
                 in if magnitude > (max_magnitude - digit) div 10 then None
                    else ToInt64_loop s has_sign max_magnitude (Suc i) (magnitude * 10 + digit))
      else Some magnitude)"
  by pat_completeness auto
termination
  by (relation "measure (\<lambda>(s, _, _, i, _). length s - i)") auto

declare ToInt64_loop.simps [simp del]

definition ToInt64 :: "string \<Rightarrow> int option" where
  "ToInt64 s =
     (if s = [] \<or> length s > 20 then None
      else
        let has_sign = (s ! 0 = CHR ''+'' \<or> s ! 0 = CHR ''-'')
        in if has_sign \<and> length s = 1 then None
           else
             let negative = (s ! 0 = CHR ''-'');
                 max_magnitude = (if negative then 9223372036854775808 else 9223372036854775807)
             in (case ToInt64_loop s has_sign max_magnitude (if has_sign then 1 else 0) 0 of
                   None \<Rightarrow> None
                 | Some magnitude \<Rightarrow>
                     Some (if negative \<and> magnitude = max_magnitude then INT64_MIN
                           else if negative then - int magnitude else int magnitude)))"

definition ToCanonicalInt64 :: "string \<Rightarrow> int option" where
  "ToCanonicalInt64 s =
     (if s = [] \<or> s ! 0 = CHR ''+'' \<or> s = ''-0'' then None else ToInt64 s)"

text \<open>
  \<open>utils::Uint64ToString\<close> writes into \<open>dst\<close> from the last digit down, two digits at a
  time through the table \<open>kDigits\<close>.  The result is the buffer and the length returned.
\<close>

definition kDigits :: string where
  "kDigits =
     ''0001020304050607080910111213141516171819'' @
     ''2021222324252627282930313233343536373839'' @
     ''4041424344454647484950515253545556575859'' @
     ''6061626364656667686970717273747576777879'' @
     ''8081828384858687888990919293949596979899''"

function Uint64ToString_loop :: "string \<Rightarrow> nat \<Rightarrow> nat \<Rightarrow> string \<times> nat \<times> nat" where
  "Uint64ToString_loop dst nxt v =
     (if v \<ge> 100 then
        let i = (v mod 100) * 2
        in Uint64ToString_loop
             (dst[nxt := kDigits ! (i + 1), nxt - 1 := kDigits ! i]) (nxt - 2) (v div 100)
      else (dst, nxt, v))"
  by pat_completeness auto
termination
  by (relation "measure (\<lambda>(_, _, v). v)") auto

declare Uint64ToString_loop.simps [simp del]

definition Uint64ToString :: "string \<Rightarrow> nat \<Rightarrow> nat \<Rightarrow> string \<times> nat" where
  "Uint64ToString dst dstlen v =
     (let length = Digits10 v
      in if length \<ge> dstlen then (if dstlen > 0 then dst[0 := CHR 0x00] else dst, 0)
         else
           let (dst1, nxt, v1) =
                 Uint64ToString_loop (dst[length := CHR 0x00]) (length - 1) v
           in if v1 < 10 then (dst1[nxt := digit_char v1], length)
              else let i = v1 * 2
                   in (dst1[nxt := kDigits ! (i + 1), nxt - 1 := kDigits ! i], length))"

text \<open>
  \<open>utils::Int64ToString\<close>: the sign is written first and the rest is printed into the
  buffer behind it.
\<close>

definition Int64ToString :: "string \<Rightarrow> nat \<Rightarrow> int \<Rightarrow> string \<times> nat" where
  "Int64ToString dst dstlen svalue =
     (if svalue < 0 then
        let v = (if svalue \<noteq> INT64_MIN then nat (- svalue) else 9223372036854775808)
        in if dstlen < 2 then (if dstlen > 0 then dst[0 := CHR 0x00] else dst, 0)
           else
             let (rest, len) = Uint64ToString (tl dst) (dstlen - 1) v
             in (CHR ''-'' # rest, if len = 0 then 0 else len + 1)
      else
        let (rest, len) = Uint64ToString dst dstlen (nat svalue)
        in (rest, if len = 0 then 0 else len))"


section \<open>Digits\<close>

definition is_digit :: "char \<Rightarrow> bool" where
  "is_digit c \<longleftrightarrow> 48 \<le> (of_char c :: nat) \<and> (of_char c :: nat) \<le> 57"

definition dig :: "nat \<Rightarrow> char \<Rightarrow> nat" where
  "dig m c = m * 10 + (of_char c - 48)"

lemma of_char_digit_char [simp]: "d < 10 \<Longrightarrow> (of_char (digit_char d) :: nat) = 48 + d"
  by (simp add: digit_char_def)

lemma is_digit_digit_char [simp]: "d < 10 \<Longrightarrow> is_digit (digit_char d)"
  by (simp add: is_digit_def)

lemma digit_char_of_char: "is_digit c \<Longrightarrow> digit_char (of_char c - 48) = c"
  by (simp add: is_digit_def digit_char_def)

lemma dig_digit_char [simp]: "d < 10 \<Longrightarrow> dig m (digit_char d) = m * 10 + d"
  by (simp add: dig_def)

lemma zero_digit_char: "digit_char 0 = CHR ''0''"
  by (simp add: digit_char_def char_of_def bit_0)

lemma digit_char_inj: "a < 10 \<Longrightarrow> b < 10 \<Longrightarrow> digit_char a = digit_char b \<longleftrightarrow> a = b"
  by (metis add_left_cancel of_char_digit_char)

lemma digit_char_eq_zero: "d < 10 \<Longrightarrow> digit_char d = CHR ''0'' \<longleftrightarrow> d = 0"
  using digit_char_inj [of d 0] by (simp add: zero_digit_char)

lemma digit_not_sign:
  assumes "is_digit c"
  shows "c \<noteq> CHR ''-''" and "c \<noteq> CHR ''+''"
  using assms by (auto simp: is_digit_def)

lemma dec_digits: "\<forall>c \<in> set (dec n). is_digit c"
proof (induction n rule: dec.induct)
  case (1 n)
  then show ?case by (subst dec.simps) auto
qed

lemma dec_nonempty [simp]: "dec n \<noteq> []"
  by (subst dec.simps) simp

lemma dec_value: "foldl dig 0 (dec n) = n"
proof (induction n rule: dec.induct)
  case (1 n)
  then show ?case by (subst dec.simps) auto
qed

lemma dec_inj: "dec m = dec n \<longleftrightarrow> m = n"
  by (metis dec_value)

lemma dec_hd_zero: "hd (dec n) = CHR ''0'' \<Longrightarrow> n = 0"
proof (induction n rule: dec.induct)
  case (1 n)
  show ?case
  proof (cases "n < 10")
    case True
    with 1 show ?thesis by (subst (asm) dec.simps) (simp add: digit_char_eq_zero)
  next
    case False
    with 1 have "hd (dec (n div 10)) = CHR ''0''" by (subst (asm) (2) dec.simps) simp
    with 1 False have "n div 10 = 0" by simp
    with False show ?thesis by simp
  qed
qed

lemma dec_upper: "n < 10 ^ length (dec n)"
proof (induction n rule: dec.induct)
  case (1 n)
  then show ?case by (subst dec.simps) auto
qed

lemma dec_lower: "0 < n \<Longrightarrow> 10 ^ (length (dec n) - 1) \<le> n"
proof (induction n rule: dec.induct)
  case (1 n)
  show ?case
  proof (cases "n < 10")
    case True
    with 1 show ?thesis by (subst dec.simps) simp
  next
    case False
    with 1 have ih: "10 ^ (length (dec (n div 10)) - 1) \<le> n div 10" by simp
    have "length (dec (n div 10)) > 0" by simp
    then have "(10::nat) ^ length (dec (n div 10)) = 10 * 10 ^ (length (dec (n div 10)) - 1)"
      by (metis Suc_diff_1 power_Suc)
    with ih have "10 ^ length (dec (n div 10)) \<le> n" by simp
    with False show ?thesis by (subst dec.simps) simp
  qed
qed

lemma length_dec_unique:
  assumes "0 < k" "10 ^ (k - 1) \<le> n" "n < 10 ^ k"
  shows "length (dec n) = k"
proof (cases "n = 0")
  case True
  with assms show ?thesis by simp
next
  case False
  have "(10::nat) ^ (k - 1) < 10 ^ length (dec n)" using assms(2) dec_upper [of n] by linarith
  then have "k - 1 < length (dec n)" by simp
  moreover have "(10::nat) ^ (length (dec n) - 1) < 10 ^ k"
    using False assms(3) dec_lower [of n] by linarith
  then have "length (dec n) - 1 < k" by simp
  ultimately show ?thesis using assms(1) by linarith
qed

lemma length_dec_small: "n < 10 \<Longrightarrow> length (dec n) = 1"
  by (simp add: dec.simps)

lemma length_dec_le: "n < 10 ^ k \<Longrightarrow> 0 < k \<Longrightarrow> length (dec n) \<le> k"
proof (cases "n = 0")
  case True then show "0 < k \<Longrightarrow> length (dec n) \<le> k" by (simp add: length_dec_small)
next
  case False
  assume "n < 10 ^ k"
  with False dec_lower [of n] have "(10::nat) ^ (length (dec n) - 1) < 10 ^ k" by linarith
  then have "length (dec n) - 1 < k" by simp
  then show ?thesis by linarith
qed

lemma dec_div: "10 ^ k \<le> n \<Longrightarrow> length (dec n) = k + length (dec (n div 10 ^ k))"
proof (induction k arbitrary: n)
  case 0
  then show ?case by simp
next
  case (Suc k)
  then have "10 \<le> n" and "10 ^ k \<le> n div 10"
    by (auto simp: less_eq_div_iff_mult_less_eq mult.commute
        intro: order_trans [OF _ Suc.prems])
  with Suc.IH [of "n div 10"] have "length (dec (n div 10)) = k + length (dec (n div 10 div 10 ^ k))"
    by simp
  with \<open>10 \<le> n\<close> show ?case by (subst dec.simps) (simp add: div_mult2_eq)
qed

text \<open>The digit count: \<open>Digits10\<close> is the length of the decimal text of every value.\<close>

lemma Digits10_length: "Digits10 v = length (dec v)"
proof (induction v rule: Digits10.induct)
  case (1 v)
  show ?case
  proof (cases "v < 1000000000000")
    case True
    have small: "length (dec v) = k" if "0 < k" "10 ^ (k - 1) \<le> v" "v < 10 ^ k" for k
      using length_dec_unique that by blast
    show ?thesis
      using True length_dec_small [of v] small [of 2] small [of 3] small [of 4] small [of 5]
        small [of 6] small [of 7] small [of 8] small [of 9] small [of 10] small [of 11]
        small [of 12]
      by (subst Digits10.simps) (simp split: if_splits)
  next
    case False
    with 1 have "Digits10 (v div 1000000000000) = length (dec (v div 1000000000000))" by simp
    with False dec_div [of 12 v] show ?thesis by (subst Digits10.simps) simp
  qed
qed

section \<open>Parsing\<close>

lemma foldl_dig_mono: "m \<le> foldl dig m xs"
proof (induction xs arbitrary: m)
  case (Cons x xs)
  have "m \<le> dig m x" by (simp add: dig_def)
  also have "\<dots> \<le> foldl dig (dig m x) xs" by (rule Cons)
  finally show ?case by simp
qed simp

definition no_extra_zero :: "string \<Rightarrow> bool \<Rightarrow> nat \<Rightarrow> bool" where
  "no_extra_zero s has_sign i \<longleftrightarrow>
     \<not> (s ! i = CHR ''0'' \<and>
        ((i = 0 \<and> length s > 1) \<or> (i = 1 \<and> has_sign \<and> length s > 2)))"

lemma ToInt64_loop_eq:
  assumes "9 \<le> mx" "m \<le> mx"
  shows "ToInt64_loop s hs mx i m =
    (if (\<forall>j. i \<le> j \<and> j < length s \<longrightarrow> is_digit (s ! j) \<and> no_extra_zero s hs j)
        \<and> foldl dig m (drop i s) \<le> mx
     then Some (foldl dig m (drop i s)) else None)"
  using assms
proof (induction s hs mx i m rule: ToInt64_loop.induct)
  case (1 s hs mx i m)
  show ?case
  proof (cases "i < length s")
    case False
    with 1 show ?thesis by (subst ToInt64_loop.simps) auto
  next
    case True
    let ?d = "of_char (s ! i) - 48 :: nat"
    let ?all = "\<forall>j. i \<le> j \<and> j < length s \<longrightarrow> is_digit (s ! j) \<and> no_extra_zero s hs j"
    let ?rest = "\<forall>j. Suc i \<le> j \<and> j < length s \<longrightarrow> is_digit (s ! j) \<and> no_extra_zero s hs j"
    have le: "i \<le> j \<longleftrightarrow> j = i \<or> Suc i \<le> j" for j by auto
    have all: "?all \<longleftrightarrow> is_digit (s ! i) \<and> no_extra_zero s hs i \<and> ?rest"
      using True unfolding le by blast
    have fold: "foldl dig m (drop i s) = foldl dig (m * 10 + ?d) (drop (Suc i) s)"
      using True by (simp add: Cons_nth_drop_Suc [symmetric] dig_def)
    show ?thesis
    proof (cases "is_digit (s ! i) \<and> no_extra_zero s hs i")
      case False
      then have "ToInt64_loop s hs mx i m = None" using True
        by (subst ToInt64_loop.simps) (auto simp: is_digit_def no_extra_zero_def Let_def not_le)
      with False show ?thesis by (simp only: all) auto
    next
      case ok: True
      then have d: "?d \<le> 9" by (auto simp: is_digit_def)
      have chk: "m > (mx - ?d) div 10 \<longleftrightarrow> mx < m * 10 + ?d"
        using d "1.prems" by linarith
      have step: "ToInt64_loop s hs mx i m =
          (if mx < m * 10 + ?d then None else ToInt64_loop s hs mx (Suc i) (m * 10 + ?d))"
        using True ok chk
        by (subst ToInt64_loop.simps) (auto simp: is_digit_def no_extra_zero_def Let_def)
      show ?thesis
      proof (cases "mx < m * 10 + ?d")
        case True
        then have "mx < foldl dig m (drop i s)"
          using foldl_dig_mono [of "m * 10 + ?d" "drop (Suc i) s"] fold by linarith
        with True step show ?thesis by simp
      next
        case False
        have "ToInt64_loop s hs mx (Suc i) (m * 10 + ?d) =
          (if ?rest \<and> foldl dig (m * 10 + ?d) (drop (Suc i) s) \<le> mx
           then Some (foldl dig (m * 10 + ?d) (drop (Suc i) s)) else None)"
          using True ok False chk "1.prems"
          by (intro "1.IH") (auto simp: is_digit_def no_extra_zero_def)
        with False step all ok fold show ?thesis by simp
      qed
    qed
  qed
qed

lemma canonical_digits_dec:
  assumes "s \<noteq> []" "\<forall>c \<in> set s. is_digit c" "length s > 1 \<longrightarrow> hd s \<noteq> CHR ''0''"
  shows "dec (foldl dig 0 s) = s"
  using assms
proof (induction s rule: rev_induct)
  case Nil
  then show ?case by simp
next
  case (snoc c xs)
  let ?d = "of_char c - 48 :: nat"
  have c: "is_digit c" "?d < 10" "digit_char ?d = c"
    using snoc.prems(2) by (auto simp: is_digit_def digit_char_of_char)
  show ?case
  proof (cases "xs = []")
    case True
    then show ?thesis using c by (subst dec.simps) (simp add: dig_def)
  next
    case False
    then have hd: "hd xs \<noteq> CHR ''0''" using snoc.prems(3) by (cases xs) auto
    have ih: "dec (foldl dig 0 xs) = xs" using snoc False hd by auto
    have "foldl dig 0 xs \<noteq> 0"
    proof
      assume "foldl dig 0 xs = 0"
      with ih have "xs = dec 0" by simp
      with hd show False by (simp add: dec.simps zero_digit_char)
    qed
    then show ?thesis using c ih by (subst dec.simps) (simp add: dig_def)
  qed
qed

lemma all_nth_suffix:
  "(\<forall>j. i \<le> j \<and> j < length s \<longrightarrow> P (s ! j)) \<longleftrightarrow> (\<forall>c \<in> set (drop i s). P c)"
proof -
  have "(\<forall>c \<in> set (drop i s). P c) \<longleftrightarrow> (\<forall>k < length s - i. P (s ! (i + k)))"
    by (simp add: all_set_conv_all_nth)
  also have "\<dots> \<longleftrightarrow> (\<forall>j. i \<le> j \<and> j < length s \<longrightarrow> P (s ! j))"
    by (metis add_diff_inverse_nat le_add1 less_diff_conv add.commute not_le)
  finally show ?thesis by simp
qed

lemma dec_no_extra_zero:
  assumes "length (dec n) > 1"
  shows "hd (dec n) \<noteq> CHR ''0''"
  using assms dec_hd_zero [of n] by (auto simp: length_dec_small)

lemma ToInt64_dec:
  assumes "int n \<le> INT64_MAX"
  shows "ToInt64 (dec n) = Some (int n)"
proof -
  have n: "n \<le> 9223372036854775807" using assms by simp
  have len: "length (dec n) \<le> 20" using length_dec_le [of n 20] n by simp
  have hd: "dec n ! 0 = hd (dec n)" by (simp add: hd_conv_nth)
  have dig: "is_digit (dec n ! 0)" using dec_digits [of n] by (simp add: hd)
  have z: "no_extra_zero (dec n) False j" for j
    using dec_no_extra_zero [of n] by (auto simp: no_extra_zero_def hd)
  have "ToInt64_loop (dec n) False 9223372036854775807 0 0 = Some n"
    using n dec_digits [of n] z by (subst ToInt64_loop_eq) (auto simp: dec_value)
  then show ?thesis using len digit_not_sign [OF dig]
    by (simp add: ToInt64_def Let_def)
qed

lemma ToInt64_neg_dec:
  assumes "INT64_MIN \<le> - int n" "0 < n"
  shows "ToInt64 (CHR ''-'' # dec n) = Some (- int n)"
proof -
  let ?s = "CHR ''-'' # dec n"
  have n: "n \<le> 9223372036854775808" using assms by simp
  have len: "length (dec n) \<le> 19" using length_dec_le [of n 19] n by simp
  have z: "no_extra_zero ?s True j" if "1 \<le> j" for j
    using dec_hd_zero [of n] assms(2) that
    by (auto simp: no_extra_zero_def hd_conv_nth)
  have "ToInt64_loop ?s True 9223372036854775808 1 0 = Some n"
    using n z all_nth_suffix [of 1 ?s is_digit] dec_digits [of n]
    by (subst ToInt64_loop_eq) (auto simp: dec_value)
  then show ?thesis using len by (simp add: ToInt64_def Let_def)
qed

lemma dec_not_plus: "dec n ! 0 \<noteq> CHR ''+''" "dec n ! 0 \<noteq> CHR ''-''"
  using dec_digits [of n] digit_not_sign [of "dec n ! 0"] by (simp_all add: hd_conv_nth [symmetric])

lemma dec_ne_minus_zero: "dec n \<noteq> ''-0''"
  using dec_not_plus(2) [of n] by auto

lemma ToCanonicalInt64_dec_int:
  assumes "is_int64 v"
  shows "ToCanonicalInt64 (dec_int v) = Some v"
proof (cases "v < 0")
  case True
  have "dec (nat (- v)) \<noteq> ''0''"
    using True dec_hd_zero [of "nat (- v)"] by auto
  then show ?thesis
    using True assms ToInt64_neg_dec [of "nat (- v)"]
    by (simp add: ToCanonicalInt64_def dec_int_def is_int64_def)
next
  case False
  then show ?thesis
    using assms ToInt64_dec [of "nat v"]
    by (simp add: ToCanonicalInt64_def dec_int_def is_int64_def dec_not_plus dec_ne_minus_zero)
qed

lemma ToInt64_Some_int64: "ToInt64 s = Some v \<Longrightarrow> is_int64 v"
  by (auto simp: ToInt64_def Let_def ToInt64_loop_eq is_int64_def
      split: if_splits option.splits)

lemma ToInt64_unsigned_canonical:
  assumes "ToInt64 s = Some v" "s ! 0 \<noteq> CHR ''+''" "s ! 0 \<noteq> CHR ''-''"
  shows "s = dec (nat v) \<and> 0 \<le> v"
proof -
  have s: "s \<noteq> []" and loop: "ToInt64_loop s False 9223372036854775807 0 0 = Some (nat v)"
    and v: "0 \<le> v"
    using assms by (auto simp: ToInt64_def Let_def split: if_splits option.splits)
  from loop have "\<forall>j < length s. is_digit (s ! j) \<and> no_extra_zero s False j"
    and val: "foldl dig 0 s = nat v"
    by (auto simp: ToInt64_loop_eq split: if_splits)
  then have "\<forall>c \<in> set s. is_digit c" "length s > 1 \<longrightarrow> hd s \<noteq> CHR ''0''"
    using s by (auto simp: all_set_conv_all_nth no_extra_zero_def hd_conv_nth)
  from canonical_digits_dec [OF s this] val v show ?thesis by simp
qed

lemma ToInt64_negative_canonical:
  assumes "ToInt64 s = Some v" "s ! 0 = CHR ''-''" "s \<noteq> ''-0''"
  shows "s = CHR ''-'' # dec (nat (- v)) \<and> v < 0"
proof -
  obtain t where s: "s = CHR ''-'' # t" and t: "t \<noteq> []"
    using assms by (cases s) (auto simp: ToInt64_def Let_def split: if_splits)
  from assms s obtain n where loop: "ToInt64_loop s True 9223372036854775808 1 0 = Some n"
    and v: "v = - int n"
    by (auto simp: ToInt64_def Let_def split: if_splits option.splits)
  from loop have all: "\<forall>j. 1 \<le> j \<and> j < length s \<longrightarrow> is_digit (s ! j) \<and> no_extra_zero s True j"
    and val: "foldl dig 0 t = n"
    by (auto simp: ToInt64_loop_eq s split: if_splits)
  have dig: "\<forall>c \<in> set t. is_digit c"
    using all all_nth_suffix [of 1 s is_digit] by (simp add: s)
  have "no_extra_zero s True 1" using all t by (simp add: s)
  then have hd: "length t > 1 \<longrightarrow> hd t \<noteq> CHR ''0''"
    using t by (auto simp: no_extra_zero_def s hd_conv_nth)
  from canonical_digits_dec [OF t dig hd] val have dt: "dec n = t" by simp
  moreover have "n \<noteq> 0"
  proof
    assume "n = 0"
    with dt have "t = ''0''" by (simp add: dec.simps zero_digit_char)
    with assms(3) s show False by simp
  qed
  ultimately show ?thesis using v s by simp
qed

lemma ToCanonicalInt64_Some:
  assumes "ToCanonicalInt64 s = Some v"
  shows "dec_int v = s \<and> is_int64 v"
proof -
  have t: "ToInt64 s = Some v" "s ! 0 \<noteq> CHR ''+''" "s \<noteq> ''-0''"
    using assms by (auto simp: ToCanonicalInt64_def split: if_splits)
  show ?thesis
  proof (cases "s ! 0 = CHR ''-''")
    case True
    with ToInt64_negative_canonical [OF t(1) True t(3)] ToInt64_Some_int64 [OF t(1)]
    show ?thesis by (simp add: dec_int_def)
  next
    case False
    with ToInt64_unsigned_canonical [OF t(1,2) False] ToInt64_Some_int64 [OF t(1)]
    show ?thesis by (simp add: dec_int_def)
  qed
qed

section \<open>Printing\<close>

lemma digit_chars:
  shows "digit_char 0 = CHR ''0''" and "digit_char (Suc 0) = CHR ''1''" and "digit_char (Suc (Suc 0)) = CHR ''2''" and "digit_char 2 = CHR ''2''" and "digit_char 3 = CHR ''3''" and "digit_char 4 = CHR ''4''"
    and "digit_char 5 = CHR ''5''" and "digit_char 6 = CHR ''6''" and "digit_char 7 = CHR ''7''" and "digit_char 8 = CHR ''8''" and "digit_char 9 = CHR ''9''"
  by (simp_all add: digit_char_def char_of_def bit_0 bit_Suc)

lemma kDigits_concat:
  "kDigits = concat (map (\<lambda>j. [digit_char (j div 10), digit_char (j mod 10)]) [0..<100])"
  by (simp add: kDigits_def digit_chars upt_rec)

lemma nth_concat_pairs:
  "j < length xs \<Longrightarrow> concat (map (\<lambda>j. [f j, g j]) xs) ! (j * 2) = f (xs ! j)
    \<and> concat (map (\<lambda>j. [f j, g j]) xs) ! (j * 2 + 1) = g (xs ! j)"
proof (induction xs arbitrary: j)
  case (Cons x xs)
  then show ?case by (cases j) auto
qed simp

lemma nth_concat_pairs_upt:
  "j < n \<Longrightarrow> concat (map (\<lambda>j. [f j, g j]) [0..<n]) ! (j * 2) = f j
    \<and> concat (map (\<lambda>j. [f j, g j]) [0..<n]) ! (j * 2 + 1) = g j"
  using nth_concat_pairs [of j "[0..<n]" f g] by simp

lemma kDigits_nth:
  assumes "j < 100"
  shows "kDigits ! (j * 2) = digit_char (j div 10)"
    and "kDigits ! (j * 2 + 1) = digit_char (j mod 10)"
  unfolding kDigits_concat
  by (rule nth_concat_pairs_upt [OF assms, THEN conjunct1])
     (rule nth_concat_pairs_upt [OF assms, THEN conjunct2])

lemma dec_two_digits:
  assumes "10 \<le> v" "v < 100"
  shows "dec v = [digit_char (v div 10), digit_char (v mod 10)]"
  using assms by (simp add: dec.simps [of v] dec.simps [of "v div 10"])

lemma dec_last_two:
  assumes "100 \<le> v"
  shows "dec v = dec (v div 100) @
    [digit_char ((v mod 100) div 10), digit_char ((v mod 100) mod 10)]"
proof -
  have "v div 10 div 10 = v div 100" using div_mult2_eq [of v 10 10] by simp
  moreover have "v mod 100 = 10 * (v div 10 mod 10) + v mod 10"
    using mod_mult2_eq [of v 10 10] by simp
  then have "v div 10 mod 10 = v mod 100 div 10" "v mod 10 = v mod 100 mod 10" by simp_all
  moreover have "\<not> v div 10 < 10" using assms by linarith
  ultimately show ?thesis using assms
    by (simp add: dec.simps [of v] dec.simps [of "v div 10"])
qed

lemma Uint64ToString_loop_correct:
  assumes "Uint64ToString_loop dst nxt v = (dst', nxt', v')"
    and "Suc nxt = length (dec v)" and "nxt < length dst"
  shows "v' < 100 \<and> Suc nxt' = length (dec v') \<and> nxt' \<le> nxt \<and> length dst' = length dst
    \<and> dec v = dec v' @ drop (Suc nxt') (take (Suc nxt) dst')
    \<and> drop (Suc nxt) dst' = drop (Suc nxt) dst"
  using assms
proof (induction dst nxt v rule: Uint64ToString_loop.induct)
  case (1 dst nxt v)
  show ?case
  proof (cases "100 \<le> v")
    case False
    with "1.prems" show ?thesis by (subst (asm) Uint64ToString_loop.simps) auto
  next
    case True
    let ?i = "(v mod 100) * 2"
    let ?a = "digit_char (v mod 100 div 10)" and ?b = "digit_char (v mod 100 mod 10)"
    let ?dst = "dst[nxt := ?b, nxt - 1 := ?a]"
    have k: "kDigits ! ?i = ?a" "kDigits ! (?i + 1) = ?b"
      using kDigits_nth [of "v mod 100"] by simp_all
    have dv: "dec v = dec (v div 100) @ [?a, ?b]" using True by (rule dec_last_two)
    have nxt: "nxt = Suc (Suc (nxt - 2))" "Suc (nxt - 2) = length (dec (v div 100))"
      using "1.prems"(2) dv length_greater_0_conv [of "dec (v div 100)"]
      by (simp_all del: length_greater_0_conv)
    have rec: "Uint64ToString_loop ?dst (nxt - 2) (v div 100) = (dst', nxt', v')"
      using "1.prems"(1) True k by (subst (asm) Uint64ToString_loop.simps) simp
    have ih: "v' < 100 \<and> Suc nxt' = length (dec v') \<and> nxt' \<le> nxt - 2
      \<and> length dst' = length ?dst
      \<and> dec (v div 100) = dec v' @ drop (Suc nxt') (take (Suc (nxt - 2)) dst')
      \<and> drop (Suc (nxt - 2)) dst' = drop (Suc (nxt - 2)) ?dst"
    proof -
      have "nxt - 2 < length ?dst" using "1.prems"(3) by simp
      with "1.IH" [OF True refl, unfolded k, OF rec nxt(2)] show ?thesis by simp
    qed
    define m where "m = nxt - 2"
    have m2: "nxt - 2 = m" by (simp add: m_def)
    have nm: "nxt = Suc (Suc m)" using nxt m_def by simp
    have tail: "drop (Suc m) dst' = [?a, ?b] @ drop (Suc nxt) dst"
      using ih "1.prems"(3) unfolding m2 by (simp add: nm drop_update_swap Cons_nth_drop_Suc [symmetric])
    have "take (Suc nxt) dst' = take (Suc m) dst' @ [?a, ?b]"
    proof -
      have "take (Suc nxt) dst' = take (Suc m) dst' @ take 2 (drop (Suc m) dst')"
        by (simp add: nm take_add [symmetric])
      with tail show ?thesis by simp
    qed
    moreover have "drop (Suc nxt) dst' = drop 2 (drop (Suc m) dst')" by (simp add: nm)
    moreover have "length (dec v') - min (length dst) (Suc m) = 0"
      using ih "1.prems"(3) unfolding m2 by (simp add: nm)
    ultimately show ?thesis using ih dv tail unfolding m2 by (auto simp: nm)
  qed
qed

lemma take_update_first:
  "0 < n \<Longrightarrow> xs \<noteq> [] \<Longrightarrow> take n (xs[0 := x]) = x # drop 1 (take n xs)"
  by (cases xs; cases n) auto

lemma take_update_first_two:
  assumes "2 \<le> n" "2 \<le> length xs"
  shows "take n (xs[1 := y, 0 := x]) = x # y # drop 2 (take n xs)"
proof -
  obtain k where "n = Suc (Suc k)" using assms(1) by (metis add_2_eq_Suc le_Suc_ex)
  moreover obtain a b zs where "xs = a # b # zs"
    using assms(2) by (cases xs; cases "tl xs") auto
  ultimately show ?thesis by simp
qed

lemma Uint64ToString_dec:
  assumes "Digits10 v < dstlen" "dstlen \<le> length dst"
  shows "snd (Uint64ToString dst dstlen v) = Digits10 v
    \<and> take (Digits10 v) (fst (Uint64ToString dst dstlen v)) = dec v
    \<and> length (fst (Uint64ToString dst dstlen v)) = length dst"
proof -
  let ?n = "Digits10 v"
  obtain dst1 nxt v1 where loop:
    "Uint64ToString_loop (dst[?n := CHR 0x00]) (?n - 1) v = (dst1, nxt, v1)"
    by (cases "Uint64ToString_loop (dst[?n := CHR 0x00]) (?n - 1) v") auto
  have n: "Suc (?n - 1) = length (dec v)" by (simp add: Digits10_length)
  have n1: "Suc (?n - 1) = ?n" by (simp add: Digits10_length)
  have len: "?n - 1 < length (dst[?n := CHR 0x00])" using assms by simp
  have c: "v1 < 100" "Suc nxt = length (dec v1)" "nxt \<le> ?n - 1" "length dst1 = length dst"
    "dec v = dec v1 @ drop (Suc nxt) (take ?n dst1)"
    using Uint64ToString_loop_correct [OF loop n len] unfolding n1 by auto
  show ?thesis
  proof (cases "v1 < 10")
    case True
    then have d: "dec v1 = [digit_char v1]" "nxt = 0" using c(2) by (simp_all add: dec.simps)
    have "take ?n (dst1[0 := digit_char v1]) = digit_char v1 # drop 1 (take ?n dst1)"
      by (rule take_update_first) (use assms c(4) n1 in auto)
    with True d c loop assms show ?thesis by (simp add: Uint64ToString_def)
  next
    case False
    let ?a = "digit_char (v1 div 10)" and ?b = "digit_char (v1 mod 10)"
    have d: "dec v1 = [?a, ?b]" using False c(1) by (simp add: dec_two_digits)
    then have nxt: "nxt = 1" using c(2) by simp
    have k: "kDigits ! (v1 * 2) = ?a" "kDigits ! (v1 * 2 + 1) = ?b"
      using c(1) by (simp_all add: kDigits_nth del: One_nat_def add_Suc_right)
    have "2 \<le> ?n" using n nxt c(3) by linarith
    then have tk: "take ?n (dst1[1 := ?b, 0 := ?a]) = ?a # ?b # drop 2 (take ?n dst1)"
      by (rule take_update_first_two) (use assms c(4) \<open>2 \<le> ?n\<close> in linarith)
    have "Uint64ToString dst dstlen v = (dst1[1 := ?b, 0 := ?a], ?n)"
      using loop False assms nxt k by (simp add: Uint64ToString_def Let_def)
    moreover have "dec v = ?a # ?b # drop 2 (take ?n dst1)"
      using c(5) d nxt by (simp add: numeral_2_eq_2)
    ultimately show ?thesis using tk c(4) by simp
  qed
qed

text \<open>Printing: into the 21-byte buffer every caller uses, \<open>Int64ToString\<close> writes the
  canonical decimal text of any \<open>int64\<close> value, its minimum included, and returns its length.\<close>

lemma Int64ToString_dec_int:
  assumes "is_int64 v" "length dst = 21"
  shows "(case Int64ToString dst 21 v of (out, len) \<Rightarrow> take len out) = dec_int v"
proof (cases "v < 0")
  case True
  let ?u = "nat (- v)"
  have u: "(if v \<noteq> INT64_MIN then ?u else 9223372036854775808) = ?u" by simp
  have "?u \<le> 9223372036854775808" using assms(1) True by (simp add: is_int64_def)
  then have d: "Digits10 ?u < 20" using length_dec_le [of ?u 19] by (simp add: Digits10_length)
  have z: "Digits10 ?u \<noteq> 0" by (simp add: Digits10_length)
  obtain out len where U: "Uint64ToString (tl dst) 20 ?u = (out, len)" by fastforce
  with Uint64ToString_dec [of ?u 20 "tl dst"] d assms(2)
  have len: "len = Digits10 ?u" "take len out = dec ?u" by auto
  have "Int64ToString dst 21 v = (CHR ''-'' # out, len + 1)"
    unfolding Int64ToString_def Let_def u using True U z len by simp
  with True len show ?thesis by (simp add: dec_int_def)
next
  case False
  let ?u = "nat v"
  have "?u \<le> 9223372036854775807" using assms(1) False by (simp add: is_int64_def)
  then have d: "Digits10 ?u < 21" using length_dec_le [of ?u 19] by (simp add: Digits10_length)
  have z: "Digits10 ?u \<noteq> 0" by (simp add: Digits10_length)
  obtain out len where U: "Uint64ToString dst 21 ?u = (out, len)" by fastforce
  with Uint64ToString_dec [of ?u 21 dst] d assms(2)
  have "len = Digits10 ?u" "take len out = dec ?u" by auto
  with False U z show ?thesis by (simp add: Int64ToString_def dec_int_def)
qed

text \<open>
  C7: The canonical integer texts.  \<open>ToCanonicalInt64\<close> accepts exactly the decimal texts
  that printing an \<open>int64\<close> produces and returns the integer printed, so that a container
  that stores the integer in place of the text loses nothing.
\<close>

theorem ToCanonicalInt64_iff: "ToCanonicalInt64 s = Some v \<longleftrightarrow> is_int64 v \<and> s = dec_int v"
  using ToCanonicalInt64_dec_int ToCanonicalInt64_Some by blast

text \<open>
  C2: Print and parse.  The text \<open>C8: Int64ToString\<close> leaves in the 21-byte buffer every caller
  uses is accepted by \<open>ToCanonicalInt64\<close>, which returns the printed value, for every
  \<open>int64\<close> value, its minimum included.
\<close>

theorem Int64ToString_ToCanonicalInt64:
  assumes "is_int64 v" "length dst = 21"
  shows "ToCanonicalInt64 (case Int64ToString dst 21 v of (out, len) \<Rightarrow> take len out) = Some v"
  using assms by (simp add: Int64ToString_dec_int ToCanonicalInt64_dec_int)

theorem Int64ToString_ToCanonicalInt64_witness:
  "ToCanonicalInt64 (case Int64ToString (replicate 21 CHR 0x00) 21 INT64_MIN of
     (out, len) \<Rightarrow> take len out) = Some INT64_MIN"
  using Int64ToString_ToCanonicalInt64 [of INT64_MIN "replicate 21 CHR 0x00"]
  by (simp add: is_int64_def)

end
