(* ===== verification/Listpack_Codec.thy ===== *)
theory Listpack_Codec
  imports Num_Utils
begin

unbundle bit_operations_syntax

text \<open>
  The byte encoding of the entries of a listpack (\<open>src/memory/listpack.cpp\<close>, the
  \<open>Encode*\<close>, \<open>Decode*\<close>, \<open>EncodingAt\<close>, \<open>Backlen\<close>, \<open>StringAt\<close> and \<open>IntegerAt\<close> functions).
  A listpack is the array \<open>lp_\<close>, here a list of bytes (naturals below 256).  Offsets are
  \<open>size_t\<close>; a sum of offsets that leaves the array is the fault \<open>Out_of_bounds\<close>.  The lemmas
  show that decoding at the offset of an encoded entry returns that entry, from both ends.
\<close>

type_synonym bytes = "nat list"

section \<open>Definitions\<close>

datatype EncodingType =
    k7BitUnsignedInteger | k6BitString | k13BitInteger | k12BitString | k32BitString
  | k16BitInteger | k24BitInteger | k32BitInteger | k64BitInteger

definition EncodingAt :: "bytes \<Rightarrow> nat \<Rightarrow> EncodingType res" where
  "EncodingAt lp idx = bindE (rd lp idx) (\<lambda>b. Inr (
     if b AND 128 = 0 then k7BitUnsignedInteger
     else if b AND 192 = 128 then k6BitString
     else if b AND 224 = 192 then k13BitInteger
     else if b AND 240 = 224 then k12BitString
     else if b = 241 then k16BitInteger
     else if b = 242 then k24BitInteger
     else if b = 243 then k32BitInteger
     else if b = 244 then k64BitInteger
     else k32BitString))"

definition IsString :: "EncodingType \<Rightarrow> bool" where
  "IsString t = (t = k6BitString \<or> t = k12BitString \<or> t = k32BitString)"

text \<open>
  In the 32 bit case the four bytes are combined as an \<open>int\<close> and the sign is extended to
  \<open>size_t\<close>.
\<close>

definition DecodeStringLength :: "bytes \<Rightarrow> nat \<Rightarrow> nat res" where
  "DecodeStringLength lp idx = bindE (EncodingAt lp idx) (\<lambda>t.
     case t of
       k6BitString \<Rightarrow> bindE (rd lp idx) (\<lambda>b0. Inr (b0 AND 63))
     | k12BitString \<Rightarrow> bindE (rd lp idx) (\<lambda>b0. bindE (rd lp (idx + 1)) (\<lambda>b1.
         Inr (push_bit 8 (b0 AND 15) OR b1)))
     | _ \<Rightarrow> bindE (rd lp (idx + 1)) (\<lambda>b1. bindE (rd lp (idx + 2)) (\<lambda>b2.
         bindE (rd lp (idx + 3)) (\<lambda>b3. bindE (rd lp (idx + 4)) (\<lambda>b4.
           let v = push_bit 24 b1 OR push_bit 16 b2 OR push_bit 8 b3 OR b4 in
           Inr (if v < 2 ^ 31 then v else v + (2 ^ 64 - 2 ^ 32)))))))"

definition Backlen :: "bytes \<Rightarrow> nat \<Rightarrow> nat res" where
  "Backlen lp idx = bindE (EncodingAt lp idx) (\<lambda>t.
     case t of
       k7BitUnsignedInteger \<Rightarrow> Inr 1
     | k6BitString \<Rightarrow> bindE (DecodeStringLength lp idx) (\<lambda>n. Inr (1 + n))
     | k13BitInteger \<Rightarrow> Inr 2
     | k12BitString \<Rightarrow> bindE (DecodeStringLength lp idx) (\<lambda>n. Inr (2 + n))
     | k16BitInteger \<Rightarrow> Inr 3
     | k24BitInteger \<Rightarrow> Inr 4
     | k32BitInteger \<Rightarrow> Inr 5
     | k32BitString \<Rightarrow> bindE (DecodeStringLength lp idx) (\<lambda>n. Inr (5 + n))
     | k64BitInteger \<Rightarrow> Inr 9)"

definition BacklenBytes :: "nat \<Rightarrow> nat" where
  "BacklenBytes n =
     (if n \<le> 127 then 1 else if n \<le> 16383 then 2 else if n \<le> 2097151 then 3
      else if n \<le> 268435455 then 4 else 5)"

fun EncodeBacklen_loop :: "nat \<Rightarrow> nat \<Rightarrow> nat \<Rightarrow> bytes" where
  "EncodeBacklen_loop i 0 n = []"
| "EncodeBacklen_loop i (Suc k) n =
     (if i > 0 then (n AND 127) OR 128 else n AND 127)
       # EncodeBacklen_loop (Suc i) k (drop_bit 7 n)"

definition EncodeBacklen :: "nat \<Rightarrow> bytes" where
  "EncodeBacklen n = EncodeBacklen_loop 0 (BacklenBytes n) n"

fun DecodeBacklen_loop :: "bytes \<Rightarrow> nat \<Rightarrow> nat \<Rightarrow> nat res" where
  "DecodeBacklen_loop lp idx backlen = bindE (rd lp idx) (\<lambda>b.
     let backlen = push_bit 7 backlen mod 2 ^ 64 OR (b AND 127) in
     if b AND 128 = 0 then Inr backlen
     else case idx of 0 \<Rightarrow> Inl Out_of_bounds | Suc i \<Rightarrow> DecodeBacklen_loop lp i backlen)"

declare DecodeBacklen_loop.simps [simp del]

definition DecodeBacklen :: "bytes \<Rightarrow> nat \<Rightarrow> nat res" where
  "DecodeBacklen lp idx = DecodeBacklen_loop lp idx 0"

text \<open>
  \<open>EncodeString\<close> and \<open>EncodeInteger\<close> return the length of the encoding without its back
  length, and write the encoding followed by the back length; the second component is what
  is written.
\<close>

definition EncodeString :: "string \<Rightarrow> nat \<times> bytes" where
  "EncodeString ele =
     (let s = map of_char ele; len = length ele;
          (backlen, body) =
            (if len \<le> 63 then (1 + len, [128 OR len] @ s)
             else if len \<le> 4095 then (2 + len, [224 OR drop_bit 8 len, len AND 255] @ s)
             else (5 + len, [240, drop_bit 24 len AND 255, drop_bit 16 len AND 255,
                             drop_bit 8 len AND 255, len AND 255] @ s))
      in (backlen, body @ EncodeBacklen backlen))"

definition EncodeInteger :: "int \<Rightarrow> nat \<times> bytes" where
  "EncodeInteger v =
     (let (backlen, body) =
        (if 0 \<le> v \<and> v \<le> 127 then (1, [0 OR nat v])
         else if -4096 \<le> v \<and> v \<le> 4095 then
           (let u = nat (if v < 0 then v + 2 ^ 13 else v) in
            (2, [192 OR drop_bit 8 u, u AND 255]))
         else if INT16_MIN \<le> v \<and> v \<le> INT16_MAX then
           (let u = nat (if v < 0 then v + 2 ^ 16 else v) in
            (3, [241, drop_bit 8 u AND 255, u AND 255]))
         else if -(2 ^ 23) \<le> v \<and> v \<le> 2 ^ 23 - 1 then
           (let u = nat (if v < 0 then v + 2 ^ 24 else v) in
            (4, [242, drop_bit 16 u AND 255, drop_bit 8 u AND 255, u AND 255]))
         else if INT32_MIN \<le> v \<and> v \<le> INT32_MAX then
           (let u = nat (if v < 0 then v + 2 ^ 32 else v) in
            (5, [243, drop_bit 24 u AND 255, drop_bit 16 u AND 255, drop_bit 8 u AND 255,
                 u AND 255]))
         else
           (let u = nat (v mod 2 ^ 64) in
            (9, [244, drop_bit 56 u AND 255, drop_bit 48 u AND 255, drop_bit 40 u AND 255,
                 drop_bit 32 u AND 255, drop_bit 24 u AND 255, drop_bit 16 u AND 255,
                 drop_bit 8 u AND 255, u AND 255])))
      in (backlen, body @ EncodeBacklen backlen))"

definition StringAt :: "bytes \<Rightarrow> nat \<Rightarrow> EncodingType \<Rightarrow> string option res" where
  "StringAt lp idx t = bindE (DecodeStringLength lp idx) (\<lambda>len.
     case t of
       k6BitString \<Rightarrow> bindE (rd_range lp (idx + 1) len) (\<lambda>bs. Inr (Some (map char_of bs)))
     | k12BitString \<Rightarrow> bindE (rd_range lp (idx + 2) len) (\<lambda>bs. Inr (Some (map char_of bs)))
     | k32BitString \<Rightarrow> bindE (rd_range lp (idx + 5) len) (\<lambda>bs. Inr (Some (map char_of bs)))
     | _ \<Rightarrow> Inr None)"

text \<open>The value the private \<open>IntegerAt\<close> decodes; \<open>None\<close> is its \<open>default\<close> branch.\<close>

definition IntegerAt_value :: "bytes \<Rightarrow> nat \<Rightarrow> EncodingType \<Rightarrow> int option res" where
  "IntegerAt_value lp idx t = bindE
     (case t of
        k7BitUnsignedInteger \<Rightarrow> bindE (rd lp idx) (\<lambda>b. Inr (Some (b AND 127, 2 ^ 64 - 1, 0)))
      | k13BitInteger \<Rightarrow> bindE (rd lp idx) (\<lambda>b0. bindE (rd lp (idx + 1)) (\<lambda>b1.
          Inr (Some (push_bit 8 (b0 AND 31) OR (b1 AND 255), 2 ^ 12, drop_bit 3 65535))))
      | k16BitInteger \<Rightarrow> bindE (rd lp (idx + 1)) (\<lambda>b1. bindE (rd lp (idx + 2)) (\<lambda>b2.
          Inr (Some (push_bit 8 b1 OR b2, 2 ^ 15, 65535))))
      | k24BitInteger \<Rightarrow> bindE (rd lp (idx + 1)) (\<lambda>b1. bindE (rd lp (idx + 2)) (\<lambda>b2.
          bindE (rd lp (idx + 3)) (\<lambda>b3.
          Inr (Some (push_bit 16 b1 OR push_bit 8 b2 OR b3, 2 ^ 23, drop_bit 8 (2 ^ 32 - 1))))))
      | k32BitInteger \<Rightarrow> bindE (rd lp (idx + 1)) (\<lambda>b1. bindE (rd lp (idx + 2)) (\<lambda>b2.
          bindE (rd lp (idx + 3)) (\<lambda>b3. bindE (rd lp (idx + 4)) (\<lambda>b4.
          Inr (Some (push_bit 24 b1 OR push_bit 16 b2 OR push_bit 8 b3 OR b4,
                     2 ^ 31, 2 ^ 32 - 1))))))
      | k64BitInteger \<Rightarrow> bindE (rd lp (idx + 1)) (\<lambda>b1. bindE (rd lp (idx + 2)) (\<lambda>b2.
          bindE (rd lp (idx + 3)) (\<lambda>b3. bindE (rd lp (idx + 4)) (\<lambda>b4.
          bindE (rd lp (idx + 5)) (\<lambda>b5. bindE (rd lp (idx + 6)) (\<lambda>b6.
          bindE (rd lp (idx + 7)) (\<lambda>b7. bindE (rd lp (idx + 8)) (\<lambda>b8.
          Inr (Some (push_bit 56 b1 OR push_bit 48 b2 OR push_bit 40 b3 OR push_bit 32 b4 OR
                     push_bit 24 b5 OR push_bit 16 b6 OR push_bit 8 b7 OR b8,
                     2 ^ 63, 2 ^ 64 - 1))))))))))
      | _ \<Rightarrow> Inr None)
     (\<lambda>r. case r of None \<Rightarrow> Inr None
      | Some (uval, negstart, negmax) \<Rightarrow>
          Inr (Some (if (uval::nat) \<ge> negstart then - int (negmax - uval) - 1 else int uval)))"

definition IntegerAt_text :: "bytes \<Rightarrow> nat \<Rightarrow> EncodingType \<Rightarrow> string option res" where
  "IntegerAt_text lp idx t = bindE (IntegerAt_value lp idx t) (\<lambda>r.
     case r of None \<Rightarrow> Inr None
     | Some v \<Rightarrow> Inr (Some (
         case Int64ToString (replicate 21 CHR 0x00) 21 v of (dst, len) \<Rightarrow> take len dst)))"

section \<open>Entries and their encodings\<close>

text \<open>
  What an entry stands for: an integer or a string that is not the canonical text of one.
  \<open>entry_type\<close> is the encoding the encoder chooses for it.
\<close>

datatype lp_entry = LInt int | LStr string

fun encode :: "lp_entry \<Rightarrow> nat \<times> bytes" where
  "encode (LInt v) = EncodeInteger v"
| "encode (LStr s) = EncodeString s"

abbreviation enc :: "lp_entry \<Rightarrow> bytes" where
  "enc e \<equiv> snd (encode e)"

abbreviation enc_len :: "lp_entry \<Rightarrow> nat" where
  "enc_len e \<equiv> fst (encode e)"

fun entry_str :: "lp_entry \<Rightarrow> string" where
  "entry_str (LInt v) = dec_int v"
| "entry_str (LStr s) = s"

fun entry_type :: "lp_entry \<Rightarrow> EncodingType" where
  "entry_type (LInt v) =
     (if 0 \<le> v \<and> v \<le> 127 then k7BitUnsignedInteger
      else if -4096 \<le> v \<and> v \<le> 4095 then k13BitInteger
      else if INT16_MIN \<le> v \<and> v \<le> INT16_MAX then k16BitInteger
      else if -(2 ^ 23) \<le> v \<and> v \<le> 2 ^ 23 - 1 then k24BitInteger
      else if INT32_MIN \<le> v \<and> v \<le> INT32_MAX then k32BitInteger
      else k64BitInteger)"
| "entry_type (LStr s) =
     (if length s \<le> 63 then k6BitString else if length s \<le> 4095 then k12BitString
      else k32BitString)"

fun entry_ok :: "lp_entry \<Rightarrow> bool" where
  "entry_ok (LInt v) = is_int64 v"
| "entry_ok (LStr s) = (length s < 2 ^ 31 \<and> ToCanonicalInt64 s = None)"

lemma length_EncodeBacklen_loop [simp]: "length (EncodeBacklen_loop i k n) = k"
  by (induction i k n rule: EncodeBacklen_loop.induct) auto

lemma length_EncodeBacklen [simp]: "length (EncodeBacklen n) = BacklenBytes n"
  by (simp add: EncodeBacklen_def)


fun int_width :: "EncodingType \<Rightarrow> nat" where
  "int_width k7BitUnsignedInteger = 7"
| "int_width k13BitInteger = 13"
| "int_width k16BitInteger = 16"
| "int_width k24BitInteger = 24"
| "int_width k32BitInteger = 32"
| "int_width _ = 64"

fun int_body :: "EncodingType \<Rightarrow> nat \<Rightarrow> bytes" where
  "int_body k7BitUnsignedInteger u = [u]"
| "int_body k13BitInteger u = [192 OR drop_bit 8 u, u AND 255]"
| "int_body k16BitInteger u = [241, drop_bit 8 u AND 255, u AND 255]"
| "int_body k24BitInteger u = [242, drop_bit 16 u AND 255, drop_bit 8 u AND 255, u AND 255]"
| "int_body k32BitInteger u = [243, drop_bit 24 u AND 255, drop_bit 16 u AND 255,
     drop_bit 8 u AND 255, u AND 255]"
| "int_body _ u = [244, drop_bit 56 u AND 255, drop_bit 48 u AND 255, drop_bit 40 u AND 255,
     drop_bit 32 u AND 255, drop_bit 24 u AND 255, drop_bit 16 u AND 255,
     drop_bit 8 u AND 255, u AND 255]"

fun int_len :: "EncodingType \<Rightarrow> nat" where
  "int_len k7BitUnsignedInteger = 1"
| "int_len k13BitInteger = 2"
| "int_len k16BitInteger = 3"
| "int_len k24BitInteger = 4"
| "int_len k32BitInteger = 5"
| "int_len _ = 9"

lemma length_int_body [simp]: "length (int_body t u) = int_len t"
  by (cases t) simp_all

abbreviation unsigned_of :: "int \<Rightarrow> nat" where
  "unsigned_of v \<equiv> nat (v mod 2 ^ int_width (entry_type (LInt v)))"

lemma wrap_negative:
  "- (2 ^ k) \<le> v \<Longrightarrow> v < 2 ^ k \<Longrightarrow> (if v < 0 then v + 2 ^ k else v) = v mod 2 ^ k" for v :: int
proof (cases "v < 0")
  case True
  assume "- (2 ^ k) \<le> v"
  with True have "(v + 2 ^ k) mod 2 ^ k = v + 2 ^ k" by (intro mod_pos_pos_trivial) auto
  with True show ?thesis by simp
qed (simp add: mod_pos_pos_trivial)

lemma encode_LInt:
  "encode (LInt v) = (int_len (entry_type (LInt v)),
     int_body (entry_type (LInt v)) (unsigned_of v) @ EncodeBacklen (int_len (entry_type (LInt v))))"
proof -
  have w: "\<And>k. - (2 ^ k) \<le> v \<Longrightarrow> v < 2 ^ k \<Longrightarrow> (if v < 0 then v + 2 ^ k else v) = v mod 2 ^ k"
    by (rule wrap_negative)
  consider "0 \<le> v \<and> v \<le> 127" | "\<not> (0 \<le> v \<and> v \<le> 127)" "-4096 \<le> v \<and> v \<le> 4095"
    | "\<not> (0 \<le> v \<and> v \<le> 127)" "\<not> (-4096 \<le> v \<and> v \<le> 4095)" "INT16_MIN \<le> v \<and> v \<le> INT16_MAX"
    | "\<not> (0 \<le> v \<and> v \<le> 127)" "\<not> (-4096 \<le> v \<and> v \<le> 4095)" "\<not> (INT16_MIN \<le> v \<and> v \<le> INT16_MAX)"
      "-(2 ^ 23) \<le> v \<and> v \<le> 2 ^ 23 - 1"
    | "\<not> (0 \<le> v \<and> v \<le> 127)" "\<not> (-4096 \<le> v \<and> v \<le> 4095)" "\<not> (INT16_MIN \<le> v \<and> v \<le> INT16_MAX)"
      "\<not> (-(2 ^ 23) \<le> v \<and> v \<le> 2 ^ 23 - 1)" "INT32_MIN \<le> v \<and> v \<le> INT32_MAX"
    | "\<not> (0 \<le> v \<and> v \<le> 127)" "\<not> (-4096 \<le> v \<and> v \<le> 4095)" "\<not> (INT16_MIN \<le> v \<and> v \<le> INT16_MAX)"
      "\<not> (-(2 ^ 23) \<le> v \<and> v \<le> 2 ^ 23 - 1)" "\<not> (INT32_MIN \<le> v \<and> v \<le> INT32_MAX)"
    by blast
  then show ?thesis
  proof cases
    case 1
    then have t: "entry_type (LInt v) = k7BitUnsignedInteger" by simp
    from 1 have "v mod 128 = v" by simp
    with 1 t show ?thesis by (simp add: EncodeInteger_def Let_def)
  next
    case 2
    then have t: "entry_type (LInt v) = k13BitInteger" by simp
    show ?thesis unfolding t using 2 w [of 13]
      by (simp only: encode.simps EncodeInteger_def if_False if_True Let_def) simp
  next
    case 3
    then have t: "entry_type (LInt v) = k16BitInteger" by simp
    show ?thesis unfolding t using 3 w [of 16]
      by (simp only: encode.simps EncodeInteger_def if_False if_True Let_def) simp
  next
    case 4
    then have t: "entry_type (LInt v) = k24BitInteger" by simp
    show ?thesis unfolding t using 4 w [of 24]
      by (simp only: encode.simps EncodeInteger_def if_False if_True Let_def) simp
  next
    case 5
    then have t: "entry_type (LInt v) = k32BitInteger" by simp
    show ?thesis unfolding t using 5 w [of 32]
      by (simp only: encode.simps EncodeInteger_def if_False if_True Let_def) simp
  next
    case 6
    then have t: "entry_type (LInt v) = k64BitInteger" by simp
    show ?thesis unfolding t using 6
      by (simp only: encode.simps EncodeInteger_def if_False if_True Let_def) simp
  qed
qed


lemma signed_recover:
  assumes "- (2 ^ k) \<le> v" "v < 2 ^ k"
  shows "(2 ^ k \<le> nat (v mod 2 ^ Suc k) \<longrightarrow> - int (2 ^ Suc k - 1 - nat (v mod 2 ^ Suc k)) - 1 = v)
    \<and> (\<not> 2 ^ k \<le> nat (v mod 2 ^ Suc k) \<longrightarrow> int (nat (v mod 2 ^ Suc k)) = v)"
proof (cases "v < 0")
  case True
  let ?p = "2 ^ k :: int"
  have p: "?p > 0" by simp
  have "v mod 2 ^ Suc k = v + 2 * ?p"
    using wrap_negative [of "Suc k" v] True assms by simp
  moreover have "int (2 ^ Suc k - 1 - nat (v + 2 * ?p)) = - v - 1"
  proof -
    have "nat (v + 2 * ?p) \<le> 2 ^ Suc k - 1"
      using True p by (simp add: nat_le_iff of_nat_diff)
    then show ?thesis using assms p by (simp add: of_nat_diff)
  qed
  moreover have "2 ^ k \<le> nat (v + 2 * ?p)"
    using assms by (simp add: le_nat_iff)
  ultimately show ?thesis by simp
next
  case False
  have "v mod 2 ^ Suc k = v" using False assms by (intro mod_pos_pos_trivial) auto
  with False assms show ?thesis by (simp add: nat_le_iff le_nat_iff)
qed

lemma entry_type_range:
  assumes "is_int64 v"
  shows "entry_type (LInt v) = k7BitUnsignedInteger \<Longrightarrow> 0 \<le> v \<and> v < 128"
    and "entry_type (LInt v) = k13BitInteger \<Longrightarrow> - (2 ^ 12) \<le> v \<and> v < 2 ^ 12"
    and "entry_type (LInt v) = k16BitInteger \<Longrightarrow> - (2 ^ 15) \<le> v \<and> v < 2 ^ 15"
    and "entry_type (LInt v) = k24BitInteger \<Longrightarrow> - (2 ^ 23) \<le> v \<and> v < 2 ^ 23"
    and "entry_type (LInt v) = k32BitInteger \<Longrightarrow> - (2 ^ 31) \<le> v \<and> v < 2 ^ 31"
    and "entry_type (LInt v) = k64BitInteger \<Longrightarrow> - (2 ^ 63) \<le> v \<and> v < 2 ^ 63"
  using assms by (auto simp: is_int64_def split: if_splits)

lemma entry_type_LInt:
  "entry_type (LInt v) \<in> {k7BitUnsignedInteger, k13BitInteger, k16BitInteger, k24BitInteger,
     k32BitInteger, k64BitInteger}"
  by auto

lemma unsigned_less: "nat (v mod 2 ^ k) < 2 ^ k" for v :: int
  by (simp add: nat_less_iff)

lemma EncodingAt_int_body:
  assumes "u < 2 ^ int_width t" "\<not> IsString t"
  shows "EncodingAt (pre @ int_body t u @ post) (length pre) = Inr t"
proof (cases t)
  case k13BitInteger
  with assms have "u div 256 < 32" by simp
  then show ?thesis using k13BitInteger
    by (auto simp: EncodingAt_def bits_arith drop_bit_eq_div)
qed (use assms in \<open>auto simp: EncodingAt_def bits_arith drop_bit_eq_div IsString_def\<close>)

lemma IntegerAt_value_int_body:
  assumes "u < 2 ^ int_width t" "\<not> IsString t"
  shows "IntegerAt_value (pre @ int_body t u @ post) (length pre) t =
    Inr (Some (if t \<noteq> k7BitUnsignedInteger \<and> 2 ^ (int_width t - 1) \<le> u
      then - int (2 ^ int_width t - 1 - u) - 1 else int u))"
proof (cases t)
  case k7BitUnsignedInteger
  then show ?thesis using assms by (simp add: IntegerAt_value_def bits_arith)
next
  case k13BitInteger
  with assms have "u div 256 < 32" by simp
  then have "192 OR drop_bit 8 u = 192 + u div 256" "(192 + u div 256) mod 32 = u div 256"
    by (simp_all add: drop_bit_eq_div bits_arith)
  then have "IntegerAt_value (pre @ int_body t u @ post) (length pre) t =
      Inr (Some (if 4096 \<le> u then - int (8191 - u) - 1 else int u))"
    using k13BitInteger
    by (simp add: IntegerAt_value_def bits_arith push_bit_eq_mult drop_bit_eq_div)
  with k13BitInteger show ?thesis by simp
next
  case k16BitInteger
  with assms have "take_bit 16 u = u" by (simp add: take_bit_eq_mod)
  with k16BitInteger show ?thesis
    by (simp add: IntegerAt_value_def be_read del: push_bit_and push_bit_or)
next
  case k24BitInteger
  with assms have "take_bit 24 u = u" by (simp add: take_bit_eq_mod)
  with k24BitInteger show ?thesis
    by (simp add: IntegerAt_value_def be_read del: push_bit_and push_bit_or)
next
  case k32BitInteger
  with assms have "take_bit 32 u = u" by (simp add: take_bit_eq_mod)
  with k32BitInteger show ?thesis
    by (simp add: IntegerAt_value_def be_read del: push_bit_and push_bit_or)
next
  case k64BitInteger
  with assms have "take_bit 64 u = u" by (simp add: take_bit_eq_mod)
  with k64BitInteger show ?thesis
    by (simp add: IntegerAt_value_def be_read del: push_bit_and push_bit_or)
qed (use assms in \<open>auto simp: IsString_def\<close>)


fun str_head :: "EncodingType \<Rightarrow> nat \<Rightarrow> bytes" where
  "str_head k6BitString n = [128 OR n]"
| "str_head k12BitString n = [224 OR drop_bit 8 n, n AND 255]"
| "str_head _ n = [240, drop_bit 24 n AND 255, drop_bit 16 n AND 255, drop_bit 8 n AND 255,
     n AND 255]"

fun str_max :: "EncodingType \<Rightarrow> nat" where
  "str_max k6BitString = 64"
| "str_max k12BitString = 4096"
| "str_max _ = 2 ^ 31"

fun str_head_len :: "EncodingType \<Rightarrow> nat" where
  "str_head_len k6BitString = 1"
| "str_head_len k12BitString = 2"
| "str_head_len _ = 5"

lemma length_str_head [simp]: "length (str_head t n) = str_head_len t"
  by (cases t) simp_all

lemma encode_LStr:
  fixes s defines "t \<equiv> entry_type (LStr s)"
  shows "encode (LStr s) = (str_head_len t + length s,
    str_head t (length s) @ map of_char s @ EncodeBacklen (str_head_len t + length s))"
  by (simp add: EncodeString_def Let_def t_def)

lemma EncodingAt_str_head:
  assumes "n < str_max t" "IsString t"
  shows "EncodingAt (pre @ str_head t n @ post) (length pre) = Inr t"
proof (cases t)
  case k12BitString
  with assms have "n div 256 < 16" by simp
  then show ?thesis using k12BitString
    by (auto simp: EncodingAt_def bits_arith drop_bit_eq_div)
qed (use assms in \<open>auto simp: EncodingAt_def bits_arith IsString_def\<close>)

lemma DecodeStringLength_str_head:
  assumes "n < str_max t" "IsString t"
  shows "DecodeStringLength (pre @ str_head t n @ post) (length pre) = Inr n"
proof (cases t)
  case k6BitString
  with assms EncodingAt_str_head [OF assms, of pre post] show ?thesis
    by (simp add: DecodeStringLength_def bits_arith)
next
  case k12BitString
  with assms have "n div 256 < 16" by simp
  then have "224 OR drop_bit 8 n = 224 + n div 256" "(224 + n div 256) mod 16 = n div 256"
    by (simp_all add: drop_bit_eq_div bits_arith)
  with k12BitString EncodingAt_str_head [OF assms, of pre post] show ?thesis
    by (simp add: DecodeStringLength_def bits_arith push_bit_eq_mult)
next
  case k32BitString
  with assms have "take_bit 32 n = n" by (simp add: take_bit_eq_mod)
  with assms k32BitString EncodingAt_str_head [OF assms, of pre post] show ?thesis
    by (simp add: DecodeStringLength_def be_read del: push_bit_and push_bit_or)
qed (use assms in \<open>auto simp: IsString_def\<close>)

lemma DecodeBacklen_loop_encoded:
  assumes "0 < k" "n < 128 ^ k" "a * 128 ^ k + n < 2 ^ 64"
  shows "DecodeBacklen_loop (pre @ EncodeBacklen_loop i k n @ post) (length pre + k - 1) a =
    (if i = 0 then Inr (a * 128 ^ k + n)
     else if pre = [] then Inl Out_of_bounds
     else DecodeBacklen_loop (pre @ EncodeBacklen_loop i k n @ post) (length pre - 1)
            (a * 128 ^ k + n))"
  using assms
proof (induction k arbitrary: i n pre a)
  case (Suc k)
  let ?b = "if i > 0 then (n AND 127) OR 128 else n AND 127"
  let ?lp = "pre @ EncodeBacklen_loop i (Suc k) n @ post"
  define a' where "a' = (if k = 0 then a else a * 128 ^ k + n div 128)"
  have up: "DecodeBacklen_loop ?lp (length pre + k) a = DecodeBacklen_loop ?lp (length pre) a'"
  proof (cases "k = 0")
    case False
    have "n div 128 < 128 ^ k" using Suc.prems(2) by (simp add: less_mult_imp_div_less)
    moreover have "a * 128 ^ k + n div 128 < 2 ^ 64"
    proof -
      have "a * 128 ^ k + n div 128 \<le> a * 128 ^ Suc k + n"
        by (intro add_mono) auto
      then show ?thesis using Suc.prems(3) by linarith
    qed
    ultimately show ?thesis
      using Suc.IH [of "n div 128" a "pre @ [?b]" "Suc i"] False
      by (simp add: a'_def drop_bit_eq_div)
  qed (simp add: a'_def)
  have "a' * 128 + n mod 128 = a * 128 ^ Suc k + n"
    using Suc.prems(2) by (auto simp: a'_def algebra_simps)
  moreover from this have "a' * 128 < 2 ^ 64" using Suc.prems(3) by linarith
  moreover have "(n mod 128 + 128) mod 128 = n mod 128" by simp
  moreover have "(n mod 128 + 128) div 128 = 1" by simp
  ultimately show ?case
    unfolding add_Suc_right diff_Suc_1 up
    by (subst DecodeBacklen_loop.simps)
      (auto simp: bits_arith push_bit_eq_mult Let_def simp del: DecodeBacklen_loop.simps
        split: nat.split)
qed simp


lemma BacklenBytes_pos [simp]: "0 < BacklenBytes n"
  by (simp add: BacklenBytes_def)

lemma BacklenBytes_fits: "n < 2 ^ 35 \<Longrightarrow> n < 128 ^ BacklenBytes n"
  by (simp add: BacklenBytes_def)

lemma DecodeBacklen_encoded:
  assumes "n < 2 ^ 35"
  shows "DecodeBacklen (pre @ EncodeBacklen n @ post) (length pre + BacklenBytes n - 1) = Inr n"
  using assms DecodeBacklen_loop_encoded [of "BacklenBytes n" n 0 pre 0 post]
  by (simp add: DecodeBacklen_def EncodeBacklen_def BacklenBytes_fits)

lemma length_enc: "length (enc e) = enc_len e + BacklenBytes (enc_len e)"
  by (cases e) (simp_all add: encode_LInt encode_LStr del: encode.simps)

lemma entry_type_LStr: "length s < 2 ^ 31 \<Longrightarrow> length s < str_max (entry_type (LStr s))"
  by simp

lemma entry_type_LStr_cases: "entry_type (LStr s) \<in> {k6BitString, k12BitString, k32BitString}"
  by simp

lemma IsString_entry_type [simp]: "IsString (entry_type e) \<longleftrightarrow> (\<exists>s. e = LStr s)"
  by (cases e) (auto simp: IsString_def)

declare encode.simps [simp del] entry_type.simps [simp del]

lemma EncodingAt_enc:
  assumes "entry_ok e"
  shows "EncodingAt (pre @ enc e @ post) (length pre) = Inr (entry_type e)"
proof (cases e)
  case (LInt v)
  then show ?thesis
    using EncodingAt_int_body [OF unsigned_less, of "entry_type e" pre v]
    by (simp add: encode_LInt)
next
  case (LStr s)
  then show ?thesis
    using assms EncodingAt_str_head [OF entry_type_LStr [of s], of pre]
    by (simp add: encode_LStr)
qed

lemma IntegerAt_value_enc:
  assumes "is_int64 v"
  shows "IntegerAt_value (pre @ enc (LInt v) @ post) (length pre) (entry_type (LInt v)) = Inr (Some v)"
proof -
  let ?t = "entry_type (LInt v)"
  have "(if ?t \<noteq> k7BitUnsignedInteger \<and> 2 ^ (int_width ?t - 1) \<le> unsigned_of v
      then - int (2 ^ int_width ?t - 1 - unsigned_of v) - 1 else int (unsigned_of v)) = v"
  proof (cases ?t)
    case k7BitUnsignedInteger
    with entry_type_range(1) [OF assms] show ?thesis by simp
  next
    case k13BitInteger
    with entry_type_range(2) [OF assms] signed_recover [of 12 v] show ?thesis by simp
  next
    case k16BitInteger
    with entry_type_range(3) [OF assms] signed_recover [of 15 v] show ?thesis by simp
  next
    case k24BitInteger
    with entry_type_range(4) [OF assms] signed_recover [of 23 v] show ?thesis by simp
  next
    case k32BitInteger
    with entry_type_range(5) [OF assms] signed_recover [of 31 v] show ?thesis by simp
  next
    case k64BitInteger
    with entry_type_range(6) [OF assms] signed_recover [of 63 v] show ?thesis by simp
  qed (use entry_type_LInt [of v] in auto)
  then show ?thesis
    using IntegerAt_value_int_body [OF unsigned_less, of ?t pre v]
    by (simp add: encode_LInt)
qed

lemma IntegerAt_text_enc:
  assumes "is_int64 v"
  shows "IntegerAt_text (pre @ enc (LInt v) @ post) (length pre) (entry_type (LInt v))
    = Inr (Some (dec_int v))"
  using assms
  by (simp add: IntegerAt_text_def IntegerAt_value_enc Int64ToString_dec_int)

lemma DecodeStringLength_enc:
  assumes "length s < 2 ^ 31"
  shows "DecodeStringLength (pre @ enc (LStr s) @ post) (length pre) = Inr (length s)"
  using DecodeStringLength_str_head [OF entry_type_LStr [OF assms], of pre]
  by (simp add: encode_LStr)

lemma StringAt_enc:
  assumes "length s < 2 ^ 31"
  shows "StringAt (pre @ enc (LStr s) @ post) (length pre) (entry_type (LStr s)) = Inr (Some s)"
proof -
  let ?t = "entry_type (LStr s)"
  have r: "rd_range (pre @ enc (LStr s) @ post) (length pre + str_head_len ?t) (length s)
      = Inr (map of_char s)"
    using rd_range_append [of "pre @ str_head ?t (length s)" "map of_char s"]
    by (simp add: encode_LStr)
  have "map char_of (map (of_char :: char \<Rightarrow> nat) s) = s"
    by (simp add: map_idI)
  with r DecodeStringLength_enc [OF assms, of pre post] show ?thesis
    using entry_type_LStr_cases [of s] by (elim insertE) (simp_all add: StringAt_def)
qed

lemma Backlen_enc:
  assumes "entry_ok e"
  shows "Backlen (pre @ enc e @ post) (length pre) = Inr (enc_len e)"
proof (cases e)
  case (LInt v)
  then show ?thesis using EncodingAt_enc [OF assms, of pre post] entry_type_LInt [of v]
    by (elim insertE)
      (simp_all add: Backlen_def encode_LInt)
next
  case (LStr s)
  then show ?thesis
    using EncodingAt_enc [OF assms, of pre post] DecodeStringLength_enc [of s pre post] assms
      entry_type_LStr_cases [of s]
    by (elim insertE) (simp_all add: Backlen_def encode_LStr)
qed

lemma int_len_le: "int_len t \<le> 9"
  by (cases t) simp_all

lemma str_head_len_le: "str_head_len t \<le> 5"
  by (cases t) simp_all

lemma enc_len_less: "entry_ok e \<Longrightarrow> enc_len e < 2 ^ 35"
  using int_len_le [of "entry_type e"] str_head_len_le [of "entry_type e"]
  by (cases e) (auto simp: encode_LInt encode_LStr)

lemma DecodeBacklen_enc:
  assumes "entry_ok e"
  shows "DecodeBacklen (pre @ enc e @ post) (length pre + length (enc e) - 1) = Inr (enc_len e)"
proof -
  obtain body where "enc e = body @ EncodeBacklen (enc_len e)" "length body = enc_len e"
    by (cases e) (auto simp: encode_LInt encode_LStr)
  then show ?thesis
    using DecodeBacklen_encoded [OF enc_len_less [OF assms], of "pre @ body" post]
    by (simp add: length_enc add.assoc)
qed

lemma enc_first_byte:
  assumes "entry_ok e"
  obtains b where "rd (pre @ enc e @ post) (length pre) = Inr b" "b \<noteq> 255"
proof -
  let ?lp = "pre @ enc e @ post"
  obtain b where b: "rd ?lp (length pre) = Inr b"
    using EncodingAt_enc [OF assms, of pre post] by (auto simp: EncodingAt_def bindE_eq_Inr)
  have "b \<noteq> 255"
  proof
    assume "b = 255"
    with b EncodingAt_enc [OF assms, of pre post] have t: "entry_type e = k32BitString"
      by (simp add: EncodingAt_def bits_arith)
    then obtain s where "e = LStr s" using IsString_entry_type [of e] by (auto simp: IsString_def)
    with t b \<open>b = 255\<close> show False by (simp add: encode_LStr)
  qed
  with b show ?thesis using that by blast
qed

end
