(* ===== verification/ListPack.thy ===== *)
theory ListPack
  imports Listpack_Codec
begin

unbundle bit_operations_syntax

text \<open>
  The class \<open>ListPack\<close> (\<open>src/memory/listpack.cpp\<close>, \<open>src/memory/listpack.h\<close>) on its byte array.
  Every public operation is a function on the bytes; \<open>std::out_of_range\<close> and
  \<open>std::length_error\<close> are faults, as is any access outside the array.
\<close>

section \<open>Definitions\<close>

subsection \<open>Header\<close>

definition ListPack_TotalBytes :: "bytes \<Rightarrow> nat res" where
  "ListPack_TotalBytes lp = bindE (rd lp 0) (\<lambda>b0. bindE (rd lp 1) (\<lambda>b1. bindE (rd lp 2) (\<lambda>b2.
     bindE (rd lp 3) (\<lambda>b3.
     Inr (push_bit 24 b0 OR push_bit 16 b1 OR push_bit 8 b2 OR b3)))))"

definition SetTotalBytes :: "bytes \<Rightarrow> nat \<Rightarrow> bytes res" where
  "SetTotalBytes lp n = mem_copy lp 0
     [drop_bit 24 n AND 255, drop_bit 16 n AND 255, drop_bit 8 n AND 255, n AND 255]"

definition ElementCount :: "bytes \<Rightarrow> nat res" where
  "ElementCount lp = bindE (rd lp 4) (\<lambda>b4. bindE (rd lp 5) (\<lambda>b5. Inr (push_bit 8 b4 OR b5)))"

definition SetNumOfElements :: "bytes \<Rightarrow> nat \<Rightarrow> bytes res" where
  "SetNumOfElements lp n = mem_copy lp 4 [drop_bit 8 n AND 255, n AND 255]"

definition ListPack_new :: "bytes res" where
  "ListPack_new = bindE (SetTotalBytes (replicate 7 0) 7) (\<lambda>lp.
     bindE (SetNumOfElements lp 0) (\<lambda>lp. mem_copy lp 6 [255]))"

definition Realloc :: "bytes \<Rightarrow> nat \<Rightarrow> bytes res" where
  "Realloc lp n =
     (if n < 7 then Inl Length_error
      else bindE (ListPack_TotalBytes lp) (\<lambda>total.
        bindE (rd_range lp 0 (min total n)) (mem_copy (replicate n 0) 0)))"

subsection \<open>Navigation\<close>

definition Skip :: "bytes \<Rightarrow> nat \<Rightarrow> nat res" where
  "Skip lp idx = bindE (rd lp idx) (\<lambda>b.
     if b = 255 then Inr idx
     else bindE (Backlen lp idx) (\<lambda>n. Inr (idx + n + BacklenBytes n)))"

definition ListPack_First :: "bytes \<Rightarrow> nat option res" where
  "ListPack_First lp = bindE (ListPack_TotalBytes lp) (\<lambda>total.
     Inr (if total \<le> 7 then None else Some 6))"

definition ListPack_Next :: "bytes \<Rightarrow> nat \<Rightarrow> nat option res" where
  "ListPack_Next lp idx = bindE (ListPack_TotalBytes lp) (\<lambda>total.
     if idx < 6 \<or> idx \<ge> total then Inl Out_of_range
     else bindE (rd lp idx) (\<lambda>b.
       if b = 255 then Inr None
       else bindE (Skip lp idx) (\<lambda>next_idx. bindE (rd lp next_idx) (\<lambda>b'.
         Inr (if b' \<noteq> 255 then Some next_idx else None)))))"

definition ListPack_Prev :: "bytes \<Rightarrow> nat \<Rightarrow> nat option res" where
  "ListPack_Prev lp idx = bindE (ListPack_TotalBytes lp) (\<lambda>total.
     if idx < 6 \<or> idx \<ge> total then Inl Out_of_range
     else if total \<le> 7 \<or> idx = 6 then Inr None
     else bindE (DecodeBacklen lp (idx - 1)) (\<lambda>n.
       if idx < n + BacklenBytes n then Inl Out_of_bounds
       else Inr (Some (idx - n - BacklenBytes n))))"

definition ListPack_Last :: "bytes \<Rightarrow> nat option res" where
  "ListPack_Last lp = bindE (ListPack_TotalBytes lp) (\<lambda>total.
     if total \<le> 7 then Inr None else ListPack_Prev lp (total - 1))"

lemma Skip_mono: "Skip lp idx = Inr j \<Longrightarrow> idx \<le> j"
  by (auto simp: Skip_def bindE_eq_Inr split: if_splits)

lemma ListPack_Next_mono: "ListPack_Next lp idx = Inr (Some j) \<Longrightarrow> idx < j \<and> j < length lp"
  by (auto simp: ListPack_Next_def Skip_def bindE_eq_Inr dest: rd_Inr_less split: if_splits)

lemma ListPack_Prev_mono: "ListPack_Prev lp idx = Inr (Some j) \<Longrightarrow> j < idx"
proof -
  have "idx - n - BacklenBytes n < idx" if "6 \<le> idx" for n
    using that by (simp add: BacklenBytes_def)
  then show "ListPack_Prev lp idx = Inr (Some j) \<Longrightarrow> j < idx"
    by (auto simp: ListPack_Prev_def bindE_eq_Inr split: if_splits)
qed

text \<open>\<open>Size\<close> writes the recomputed count back into the header when it fits.\<close>

function Size_loop :: "bytes \<Rightarrow> nat option \<Rightarrow> nat \<Rightarrow> nat res" where
  "Size_loop lp idx count = (case idx of None \<Rightarrow> Inr count
     | Some i \<Rightarrow> bindE (ListPack_Next lp i) (\<lambda>j. Size_loop lp j (count + 1)))"
  by auto
termination
  by (relation "measure (\<lambda>(lp, idx, c). case idx of None \<Rightarrow> 0 | Some i \<Rightarrow> Suc (length lp - i))")
    (auto dest!: ListPack_Next_mono split: option.split)

declare Size_loop.simps [simp del]

definition ListPack_Size :: "bytes \<Rightarrow> (nat \<times> bytes) res" where
  "ListPack_Size lp = bindE (ElementCount lp) (\<lambda>n.
     if n \<noteq> 65535 then Inr (n, lp)
     else bindE (ListPack_First lp) (\<lambda>idx. bindE (Size_loop lp idx 0) (\<lambda>count.
       if count < 65535 then bindE (SetNumOfElements lp count) (\<lambda>lp. Inr (count, lp))
       else Inr (count, lp))))"

text \<open>The value alone, for the callers that are \<open>const\<close>.\<close>

definition ListPack_size_of :: "bytes \<Rightarrow> nat res" where
  "ListPack_size_of lp = bindE (ListPack_Size lp) (\<lambda>(n, _). Inr n)"

subsection \<open>Reading entries\<close>

definition ListPack_Get :: "bytes \<Rightarrow> nat \<Rightarrow> string option res" where
  "ListPack_Get lp idx = bindE (ListPack_TotalBytes lp) (\<lambda>total.
     if idx < 6 \<or> idx \<ge> total then Inl Out_of_range
     else if idx = total - 1 then Inr None
     else bindE (EncodingAt lp idx) (\<lambda>t.
       if IsString t then StringAt lp idx t else IntegerAt_text lp idx t))"

definition ListPack_IntegerAt :: "bytes \<Rightarrow> nat \<Rightarrow> int option res" where
  "ListPack_IntegerAt lp idx = bindE (ListPack_TotalBytes lp) (\<lambda>total.
     if idx < 6 \<or> idx \<ge> total then Inl Out_of_range
     else if idx = total - 1 then Inr None
     else bindE (EncodingAt lp idx) (\<lambda>t.
       if IsString t then Inr None else IntegerAt_value lp idx t))"

function FindAndSkip_loop :: "bytes \<Rightarrow> string \<Rightarrow> nat \<Rightarrow> nat option \<Rightarrow> nat \<Rightarrow> nat option res" where
  "FindAndSkip_loop lp val skip idx skip_count = (case idx of None \<Rightarrow> Inr None
     | Some i \<Rightarrow> bindE
         (if skip_count = 0 then bindE (ListPack_Get lp i) (\<lambda>d. Inr (d = Some val))
          else Inr False) (\<lambda>found.
         if found then Inr (Some i)
         else bindE (ListPack_Next lp i) (\<lambda>j. FindAndSkip_loop lp val skip j
           (if skip_count = 0 then skip else skip_count - 1))))"
  by auto
termination
  by (relation "measure (\<lambda>(lp, v, s, idx, c). case idx of None \<Rightarrow> 0 | Some i \<Rightarrow> Suc (length lp - i))")
    (auto dest!: ListPack_Next_mono split: option.split)

declare FindAndSkip_loop.simps [simp del]

definition ListPack_FindAndSkip :: "bytes \<Rightarrow> string \<Rightarrow> nat \<Rightarrow> nat option res" where
  "ListPack_FindAndSkip lp val skip =
     bindE (ListPack_First lp) (\<lambda>idx. FindAndSkip_loop lp val skip idx 0)"

definition ListPack_Find :: "bytes \<Rightarrow> string \<Rightarrow> nat option res" where
  "ListPack_Find lp val = ListPack_FindAndSkip lp val 0"

fun IndexAt_loop :: "bytes \<Rightarrow> nat option \<Rightarrow> nat \<Rightarrow> nat option res" where
  "IndexAt_loop lp (Some i) (Suc n) = bindE (ListPack_Next lp i) (\<lambda>j. IndexAt_loop lp j n)"
| "IndexAt_loop lp idx n = Inr idx"

definition ListPack_IndexAt :: "bytes \<Rightarrow> nat \<Rightarrow> nat option res" where
  "ListPack_IndexAt lp index = bindE (ListPack_First lp) (\<lambda>idx. IndexAt_loop lp idx index)"

subsection \<open>Traversal\<close>

text \<open>
  A visitor is a function of the value it is given and of the state it captures; it returns
  whether the traversal goes on.  The traversals return what the source returns, and the
  state the visitor leaves.
\<close>

type_synonym 's visitor = "string \<Rightarrow> 's \<Rightarrow> bool \<times> 's"

definition visit_at :: "bytes \<Rightarrow> nat \<Rightarrow> 's visitor \<Rightarrow> 's \<Rightarrow> (bool \<times> 's) res" where
  "visit_at lp i visitor s = bindE (ListPack_Get lp i) (\<lambda>d.
     Inr (case d of None \<Rightarrow> (True, s) | Some value \<Rightarrow> visitor value s))"

function ForEach_loop ::
  "bytes \<Rightarrow> nat \<Rightarrow> nat \<Rightarrow> 's visitor \<Rightarrow> nat option \<Rightarrow> nat \<Rightarrow> 's \<Rightarrow> (bool \<times> 's) res" where
  "ForEach_loop lp start stop visitor idx index s = (case idx of None \<Rightarrow> Inr (True, s)
     | Some i \<Rightarrow>
         if index > stop then Inr (True, s)
         else bindE (if index \<ge> start then visit_at lp i visitor s else Inr (True, s)) (\<lambda>(go, s).
           if \<not> go then Inr (False, s)
           else bindE (ListPack_Next lp i) (\<lambda>j.
             ForEach_loop lp start stop visitor j (index + 1) s)))"
  by auto
termination
  by (relation "measure (\<lambda>(lp, a, b, v, idx, x, s). case idx of None \<Rightarrow> 0
                  | Some i \<Rightarrow> Suc (length lp - i))")
    (auto dest!: ListPack_Next_mono split: option.split)

declare ForEach_loop.simps [simp del]

definition ListPack_ForEach ::
  "bytes \<Rightarrow> nat \<Rightarrow> nat \<Rightarrow> 's visitor \<Rightarrow> 's \<Rightarrow> (bool \<times> 's) res" where
  "ListPack_ForEach lp start stop visitor s = bindE (ListPack_Size lp) (\<lambda>(size, lp).
     if start > stop \<or> start \<ge> size then Inr (True, s)
     else bindE (ListPack_First lp) (\<lambda>idx.
       ForEach_loop lp start (min stop (size - 1)) visitor idx 0 s))"

fun ForEachReverse_loop ::
  "bytes \<Rightarrow> nat \<Rightarrow> 's visitor \<Rightarrow> nat option \<Rightarrow> nat \<Rightarrow> 's \<Rightarrow> (bool \<times> 's) res" where
  "ForEachReverse_loop lp start visitor None index s = Inr (True, s)"
| "ForEachReverse_loop lp start visitor (Some i) index s =
     (if index < start then Inr (True, s)
      else bindE (visit_at lp i visitor s) (\<lambda>(go, s).
        if \<not> go then Inr (False, s)
        else case index of 0 \<Rightarrow> Inr (True, s)
          | Suc k \<Rightarrow> bindE (ListPack_Prev lp i) (\<lambda>j. ForEachReverse_loop lp start visitor j k s)))"

text \<open>The first loop advances to \<open>stop\<close> and stops early, with its index, at the end.\<close>

fun ForEachReverse_advance :: "bytes \<Rightarrow> nat option \<Rightarrow> nat \<Rightarrow> nat \<Rightarrow> (nat option \<times> nat) res" where
  "ForEachReverse_advance lp (Some i) index (Suc n) =
     bindE (ListPack_Next lp i) (\<lambda>j. ForEachReverse_advance lp j (index + 1) n)"
| "ForEachReverse_advance lp idx index n = Inr (idx, index)"

definition ListPack_ForEachReverse ::
  "bytes \<Rightarrow> nat \<Rightarrow> nat \<Rightarrow> 's visitor \<Rightarrow> 's \<Rightarrow> (bool \<times> 's) res" where
  "ListPack_ForEachReverse lp start stop visitor s = bindE (ListPack_Size lp) (\<lambda>(size, lp).
     if start > stop \<or> start \<ge> size then Inr (True, s)
     else bindE (ListPack_First lp) (\<lambda>idx.
       bindE (ForEachReverse_advance lp idx 0 (min stop (size - 1))) (\<lambda>(idx, index).
         ForEachReverse_loop lp start visitor idx index s)))"

definition value_at :: "bytes \<Rightarrow> nat \<Rightarrow> string option res" where
  "value_at lp i = bindE (EncodingAt lp i) (\<lambda>t.
     if IsString t then StringAt lp i t else IntegerAt_text lp i t)"

function ForEachPair_loop ::
  "bytes \<Rightarrow> (string \<Rightarrow> string \<Rightarrow> 's \<Rightarrow> bool \<times> 's) \<Rightarrow> nat option \<Rightarrow> 's \<Rightarrow> (bool \<times> 's) res" where
  "ForEachPair_loop lp visitor first_idx s = (case first_idx of None \<Rightarrow> Inr (True, s)
     | Some i \<Rightarrow> bindE (ListPack_Next lp i) (\<lambda>second_idx.
         case second_idx of None \<Rightarrow> Inr (True, s)
         | Some j \<Rightarrow> bindE (value_at lp i) (\<lambda>first. bindE (value_at lp j) (\<lambda>second.
             case (case (first, second) of (Some a, Some b) \<Rightarrow> visitor a b s | _ \<Rightarrow> (True, s)) of
               (go, s) \<Rightarrow>
                 if \<not> go then Inr (False, s)
                 else bindE (ListPack_Next lp j) (\<lambda>k. ForEachPair_loop lp visitor k s)))))"
  by auto
termination
  by (relation "measure (\<lambda>(lp, v, idx, s). case idx of None \<Rightarrow> 0 | Some i \<Rightarrow> Suc (length lp - i))")
    (auto dest!: ListPack_Next_mono split: option.split)

declare ForEachPair_loop.simps [simp del]

definition ListPack_ForEachPair ::
  "bytes \<Rightarrow> (string \<Rightarrow> string \<Rightarrow> 's \<Rightarrow> bool \<times> 's) \<Rightarrow> 's \<Rightarrow> (bool \<times> 's) res" where
  "ListPack_ForEachPair lp visitor s =
     bindE (ListPack_First lp) (\<lambda>idx. ForEachPair_loop lp visitor idx s)"

subsection \<open>Insertion and replacement\<close>

datatype Position = kInsertAfter | kInsertBefore | kReplace

text \<open>The private \<open>Insert\<close>; the two pointers are options.\<close>

definition Insert_at ::
  "bytes \<Rightarrow> nat \<Rightarrow> Position \<Rightarrow> string option \<Rightarrow> int option \<Rightarrow> (bool \<times> bytes) res" where
  "Insert_at lp idx position element_string element_integer =
     (if element_string = None \<and> element_integer = None then Inr (False, lp)
      else bindE (ListPack_TotalBytes lp) (\<lambda>listpack_bytes.
        if idx < 6 \<or> idx \<ge> listpack_bytes then Inl Out_of_range
        else bindE (if position = kInsertAfter then Skip lp idx else Inr idx) (\<lambda>idx.
          if element_string \<noteq> None \<and> length (the element_string) > UINT32_MAX - 10
          then Inr (False, lp)
          else
            let (backlen, encoded) =
                  (case element_integer of Some v \<Rightarrow> EncodeInteger v
                   | None \<Rightarrow> (case ToCanonicalInt64 (the element_string) of
                       Some v \<Rightarrow> EncodeInteger v
                     | None \<Rightarrow> EncodeString (the element_string)));
                backlen_bytes = BacklenBytes backlen
            in bindE (if position = kReplace
                      then bindE (Backlen lp idx) (\<lambda>n. Inr (n + BacklenBytes n))
                      else Inr 0) (\<lambda>replaced_bytes.
            let retained_bytes = listpack_bytes - replaced_bytes;
                encoded_bytes = backlen + backlen_bytes
            in if encoded_bytes > UINT32_MAX - retained_bytes then Inr (False, lp)
            else
              let new_listpack_bytes = retained_bytes + encoded_bytes
              in bindE (if new_listpack_bytes > listpack_bytes then Realloc lp new_listpack_bytes
                        else Inr lp) (\<lambda>lp.
                 bindE (mem_move lp (idx + backlen + backlen_bytes) (idx + replaced_bytes)
                          (listpack_bytes - idx - replaced_bytes)) (\<lambda>lp.
                 bindE (if position = kInsertBefore
                        then bindE (ElementCount lp) (\<lambda>n.
                          if n \<noteq> 65535 then SetNumOfElements lp (n + 1) else Inr lp)
                        else Inr lp) (\<lambda>lp.
                 bindE (if new_listpack_bytes < listpack_bytes then Realloc lp new_listpack_bytes
                        else Inr lp) (\<lambda>lp.
                 bindE (SetTotalBytes lp new_listpack_bytes) (\<lambda>lp.
                 bindE (mem_copy lp idx encoded) (\<lambda>lp. Inr (True, lp)))))))))))"

definition ListPack_Insert :: "bytes \<Rightarrow> nat \<Rightarrow> string \<Rightarrow> (bool \<times> bytes) res" where
  "ListPack_Insert lp idx s = Insert_at lp idx kInsertBefore (Some s) None"

definition ListPack_Insert_int :: "bytes \<Rightarrow> nat \<Rightarrow> int \<Rightarrow> (bool \<times> bytes) res" where
  "ListPack_Insert_int lp idx v = Insert_at lp idx kInsertBefore None (Some v)"

definition ListPack_Append :: "bytes \<Rightarrow> string \<Rightarrow> (bool \<times> bytes) res" where
  "ListPack_Append lp s = bindE (ListPack_TotalBytes lp) (\<lambda>total.
     Insert_at lp (total - 1) kInsertBefore (Some s) None)"

definition ListPack_Append_int :: "bytes \<Rightarrow> int \<Rightarrow> (bool \<times> bytes) res" where
  "ListPack_Append_int lp v = bindE (ListPack_TotalBytes lp) (\<lambda>total.
     Insert_at lp (total - 1) kInsertBefore None (Some v))"

definition ListPack_Prepend :: "bytes \<Rightarrow> string \<Rightarrow> (bool \<times> bytes) res" where
  "ListPack_Prepend lp s = Insert_at lp 6 kInsertBefore (Some s) None"

definition ListPack_Prepend_int :: "bytes \<Rightarrow> int \<Rightarrow> (bool \<times> bytes) res" where
  "ListPack_Prepend_int lp v = Insert_at lp 6 kInsertBefore None (Some v)"

definition ListPack_Replace :: "bytes \<Rightarrow> nat \<Rightarrow> string \<Rightarrow> (bool \<times> bytes) res" where
  "ListPack_Replace lp idx s = Insert_at lp idx kReplace (Some s) None"

definition ListPack_Replace_int :: "bytes \<Rightarrow> nat \<Rightarrow> int \<Rightarrow> (bool \<times> bytes) res" where
  "ListPack_Replace_int lp idx v = Insert_at lp idx kReplace None (Some v)"

record ListPackEntry =
  le_str :: string
  le_sval :: int
  le_is_integer :: bool

text \<open>
  The first loop of \<open>BatchInsert\<close>: the encodings of the entries (what is written, with the
  bytes of its back length) and the bytes they need; \<open>None\<close> is an early \<open>return false\<close>.
\<close>

fun BatchInsert_encodings ::
  "ListPackEntry list \<Rightarrow> nat \<Rightarrow> ((nat \<times> bytes \<times> nat) list \<times> nat) option" where
  "BatchInsert_encodings [] inserted_bytes = Some ([], inserted_bytes)"
| "BatchInsert_encodings (entry # entries) inserted_bytes =
     (if \<not> le_is_integer entry \<and> length (le_str entry) > UINT32_MAX - 10 then None
      else
        let (backlen, encoded) =
              (if le_is_integer entry then EncodeInteger (le_sval entry)
               else case ToCanonicalInt64 (le_str entry) of
                   Some v \<Rightarrow> EncodeInteger v
                 | None \<Rightarrow> EncodeString (le_str entry));
            entry_bytes = backlen + BacklenBytes backlen
        in if entry_bytes > SIZE_MAX - inserted_bytes then None
        else case BatchInsert_encodings entries (inserted_bytes + entry_bytes) of
            None \<Rightarrow> None
          | Some (encs, n) \<Rightarrow> Some ((backlen, encoded, BacklenBytes backlen) # encs, n))"

fun BatchInsert_write :: "bytes \<Rightarrow> nat \<Rightarrow> (nat \<times> bytes \<times> nat) list \<Rightarrow> bytes res" where
  "BatchInsert_write lp idx [] = Inr lp"
| "BatchInsert_write lp idx ((backlen, encoded, backlen_bytes) # encs) =
     bindE (mem_copy lp idx encoded) (\<lambda>lp.
       BatchInsert_write lp (idx + backlen + backlen_bytes) encs)"

definition BatchInsert_at ::
  "bytes \<Rightarrow> nat \<Rightarrow> Position \<Rightarrow> ListPackEntry list \<Rightarrow> (bool \<times> bytes) res" where
  "BatchInsert_at lp idx position entries =
     (if entries = [] then Inr (False, lp)
      else bindE (ListPack_TotalBytes lp) (\<lambda>listpack_bytes.
        if idx < 6 \<or> idx \<ge> listpack_bytes then Inl Out_of_range
        else bindE (if position = kInsertAfter then Skip lp idx else Inr idx) (\<lambda>idx.
          case BatchInsert_encodings entries 0 of None \<Rightarrow> Inr (False, lp)
          | Some (encodings, inserted_bytes) \<Rightarrow>
            if inserted_bytes > UINT32_MAX - listpack_bytes then Inr (False, lp)
            else
              let new_listpack_bytes = listpack_bytes + inserted_bytes
              in if new_listpack_bytes > UINT32_MAX \<or> new_listpack_bytes < 7 then Inr (False, lp)
              else bindE (ElementCount lp) (\<lambda>n.
                bindE (Realloc lp new_listpack_bytes) (\<lambda>lp.
                bindE (mem_move lp (idx + inserted_bytes) idx (listpack_bytes - idx)) (\<lambda>lp.
                bindE (if n \<noteq> 65535
                       then (if length encodings > 65535 - n then SetNumOfElements lp 65535
                             else SetNumOfElements lp (n + length entries))
                       else Inr lp) (\<lambda>lp.
                bindE (SetTotalBytes lp new_listpack_bytes) (\<lambda>lp.
                bindE (BatchInsert_write lp idx encodings) (\<lambda>lp. Inr (True, lp)))))))))) "

definition ListPack_BatchAppend :: "bytes \<Rightarrow> ListPackEntry list \<Rightarrow> (bool \<times> bytes) res" where
  "ListPack_BatchAppend lp entries = bindE (ListPack_TotalBytes lp) (\<lambda>total.
     BatchInsert_at lp (total - 1) kInsertBefore entries)"

definition ListPack_BatchPrepend :: "bytes \<Rightarrow> ListPackEntry list \<Rightarrow> (bool \<times> bytes) res" where
  "ListPack_BatchPrepend lp entries = BatchInsert_at lp 6 kInsertBefore entries"

definition ListPack_BatchInsert :: "bytes \<Rightarrow> nat \<Rightarrow> ListPackEntry list \<Rightarrow> (bool \<times> bytes) res" where
  "ListPack_BatchInsert lp idx entries = BatchInsert_at lp idx kInsertBefore entries"

subsection \<open>Deletion\<close>

text \<open>The loop of \<open>DeleteRange\<close>; its third argument is \<open>count - deleted\<close>.\<close>

fun DeleteRange_loop :: "bytes \<Rightarrow> nat \<Rightarrow> nat \<Rightarrow> nat \<Rightarrow> nat \<Rightarrow> (nat \<times> nat) res" where
  "DeleteRange_loop lp eof 0 end deleted = Inr (end, deleted)"
| "DeleteRange_loop lp eof (Suc n) end deleted =
     (if end < eof then bindE (Skip lp end) (\<lambda>e. DeleteRange_loop lp eof n e (deleted + 1))
      else Inr (end, deleted))"

definition ListPack_DeleteRange :: "bytes \<Rightarrow> nat \<Rightarrow> nat \<Rightarrow> (nat \<times> bytes) res" where
  "ListPack_DeleteRange lp idx count = bindE (ListPack_TotalBytes lp) (\<lambda>listpack_bytes.
     if idx < 6 \<or> idx \<ge> listpack_bytes then Inl Out_of_range
     else if idx = listpack_bytes - 1 \<or> count = 0 then Inr (0, lp)
     else bindE (DeleteRange_loop lp (listpack_bytes - 1) count idx 0) (\<lambda>(end, deleted).
       let new_listpack_bytes = listpack_bytes - (end - idx)
       in bindE (ElementCount lp) (\<lambda>n.
          bindE (mem_move lp idx end (listpack_bytes - end)) (\<lambda>lp.
          bindE (Realloc lp new_listpack_bytes) (\<lambda>lp.
          bindE (SetTotalBytes lp new_listpack_bytes) (\<lambda>lp.
          bindE (if n \<noteq> 65535
                 then SetNumOfElements lp (nat ((int n - int deleted) mod 2 ^ 16))
                 else Inr lp) (\<lambda>lp. Inr (deleted, lp))))))))"

definition ListPack_Delete :: "bytes \<Rightarrow> nat \<Rightarrow> bytes res" where
  "ListPack_Delete lp idx = bindE (ListPack_DeleteRange lp idx 1) (\<lambda>(_, lp). Inr lp)"

function DeleteMatching_backward ::
  "bytes \<Rightarrow> string \<Rightarrow> nat \<Rightarrow> nat option \<Rightarrow> nat list \<Rightarrow> nat list res" where
  "DeleteMatching_backward lp val limit index matches = (case index of None \<Rightarrow> Inr matches
     | Some i \<Rightarrow>
         if length matches \<ge> limit then Inr matches
         else bindE (ListPack_Get lp i) (\<lambda>d. bindE (ListPack_Prev lp i) (\<lambda>j.
           DeleteMatching_backward lp val limit j
             (if d = Some val then matches @ [i] else matches))))"
  by auto
termination
  by (relation "measure (\<lambda>(lp, v, l, index, m). case index of None \<Rightarrow> 0 | Some i \<Rightarrow> Suc i)")
    (auto dest!: ListPack_Prev_mono split: option.split)

declare DeleteMatching_backward.simps [simp del]

text \<open>
  The forward scan; \<open>ranges\<close> is the vector of the source, last element first, and the result
  is \<open>ranges\<close> with \<open>match_count\<close>.
\<close>

function DeleteMatching_forward ::
  "bytes \<Rightarrow> string \<Rightarrow> nat \<Rightarrow> nat option \<Rightarrow> (nat \<times> nat) list \<Rightarrow> nat \<Rightarrow> nat option
    \<Rightarrow> ((nat \<times> nat) list \<times> nat) res" where
  "DeleteMatching_forward lp val limit index ranges match_count previous_match =
     (case index of None \<Rightarrow> Inr (ranges, match_count)
      | Some i \<Rightarrow> bindE (ListPack_Get lp i) (\<lambda>d.
          if d \<noteq> Some val
          then bindE (ListPack_Next lp i) (\<lambda>j.
            DeleteMatching_forward lp val limit j ranges match_count previous_match)
          else bindE (case previous_match of None \<Rightarrow> Inr None
                      | Some p \<Rightarrow> ListPack_Next lp p) (\<lambda>after_previous.
            let ranges = (case ranges of
                    (start, count) # rs \<Rightarrow>
                      if previous_match \<noteq> None \<and> after_previous = Some i
                      then (start, count + 1) # rs else (i, 1) # ranges
                  | [] \<Rightarrow> [(i, 1)])
            in if limit \<noteq> 0 \<and> match_count + 1 = limit then Inr (ranges, match_count + 1)
            else bindE (ListPack_Next lp i) (\<lambda>j.
              DeleteMatching_forward lp val limit j ranges (match_count + 1) (Some i)))))"
  by auto
termination
  by (relation "measure (\<lambda>(lp, v, l, index, r, m, p). case index of None \<Rightarrow> 0
                  | Some i \<Rightarrow> Suc (length lp - i))")
    (auto dest!: ListPack_Next_mono split: option.split)

declare DeleteMatching_forward.simps [simp del]

fun DeleteRanges :: "bytes \<Rightarrow> (nat \<times> nat) list \<Rightarrow> bytes res" where
  "DeleteRanges lp [] = Inr lp"
| "DeleteRanges lp ((idx, count) # rs) =
     bindE (ListPack_DeleteRange lp idx count) (\<lambda>(_, lp). DeleteRanges lp rs)"

definition ListPack_DeleteMatching :: "bytes \<Rightarrow> string \<Rightarrow> nat \<Rightarrow> bool \<Rightarrow> (nat \<times> bytes) res" where
  "ListPack_DeleteMatching lp val limit from_tail =
     (if from_tail \<and> limit \<noteq> 0
      then bindE (ListPack_Last lp) (\<lambda>index.
        bindE (DeleteMatching_backward lp val limit index []) (\<lambda>matches.
        bindE (DeleteRanges lp (map (\<lambda>m. (m, 1)) (rev (rev matches)))) (\<lambda>lp.
          Inr (length matches, lp))))
      else bindE (ListPack_First lp) (\<lambda>index.
        bindE (DeleteMatching_forward lp val limit index [] 0 None) (\<lambda>(ranges, match_count).
        bindE (DeleteRanges lp ranges) (\<lambda>lp. Inr (match_count, lp)))))"

subsection \<open>Size estimates\<close>

definition ListPack_EstimateBytes :: "int \<Rightarrow> nat \<Rightarrow> nat" where
  "ListPack_EstimateBytes lval repeat =
     (let encoded = fst (EncodeInteger lval); entry_bytes = encoded + BacklenBytes encoded in
      if repeat > (SIZE_MAX - 6 - 1) div entry_bytes then SIZE_MAX
      else 6 + entry_bytes * repeat + 1)"

definition ListPack_EstimateEntryBytes :: "string \<Rightarrow> nat" where
  "ListPack_EstimateEntryBytes val =
     (case ToCanonicalInt64 val of
        None \<Rightarrow>
          if length val > UINT32_MAX - 10 then SIZE_MAX
          else let encoded = fst (EncodeString val) in
            if encoded > SIZE_MAX - BacklenBytes encoded then SIZE_MAX
            else encoded + BacklenBytes encoded
      | Some integer \<Rightarrow>
          let encoded = fst (EncodeInteger integer) in
            if encoded > SIZE_MAX - BacklenBytes encoded then SIZE_MAX
            else encoded + BacklenBytes encoded)"

definition ListPack_SafeToAdd :: "bytes option \<Rightarrow> nat \<Rightarrow> bool res" where
  "ListPack_SafeToAdd lp n = bindE
     (case lp of None \<Rightarrow> Inr 0 | Some lp \<Rightarrow> ListPack_TotalBytes lp) (\<lambda>len.
        Inr (len \<le> 2 ^ 30 \<and> n \<le> 2 ^ 30 - len))"

end
