(* ===== verification/Listpack_Refinement.thy ===== *)
theory Listpack_Refinement
  imports ListPack
begin

unbundle bit_operations_syntax

text \<open>
  What the bytes of a listpack stand for: a sequence of entries.  \<open>ListPack_repr\<close> is the type
  invariant of the class with its abstraction, \<open>lp_off\<close> the offset of the \<open>i\<close>-th entry.  The
  lemmas show that every operation of \<open>ListPack\<close> is safe on a well-formed listpack, keeps it
  well-formed and has the effect of the list operation it stands for.
\<close>

section \<open>The entries of a listpack\<close>

definition lp_header :: "nat \<Rightarrow> nat \<Rightarrow> bytes" where
  "lp_header t n = [drop_bit 24 t AND 255, drop_bit 16 t AND 255, drop_bit 8 t AND 255, t AND 255,
     drop_bit 8 n AND 255, n AND 255]"

definition lp_body :: "lp_entry list \<Rightarrow> bytes" where
  "lp_body es = concat (map enc es)"

definition lp_bytes :: "nat \<Rightarrow> lp_entry list \<Rightarrow> bytes" where
  "lp_bytes n es = lp_header (7 + length (lp_body es)) n @ lp_body es @ [255]"

definition count_ok :: "nat \<Rightarrow> lp_entry list \<Rightarrow> bool" where
  "count_ok n es \<longleftrightarrow> n \<le> 65535 \<and> (n \<noteq> 65535 \<longrightarrow> n = length es)"

definition ListPack_repr :: "bytes \<Rightarrow> lp_entry list \<Rightarrow> bool" where
  "ListPack_repr lp es \<longleftrightarrow> (\<exists>n. lp = lp_bytes n es \<and> count_ok n es)
     \<and> length lp \<le> UINT32_MAX \<and> list_all entry_ok es"

definition lp_off :: "lp_entry list \<Rightarrow> nat \<Rightarrow> nat" where
  "lp_off es i = 6 + length (lp_body (take i es))"

lemma lp_body_simps [simp]:
  "lp_body [] = []" "lp_body (e # es) = enc e @ lp_body es"
  "lp_body (es @ fs) = lp_body es @ lp_body fs"
  by (simp_all add: lp_body_def)

lemma length_lp_header [simp]: "length (lp_header t n) = 6"
  by (simp add: lp_header_def)

lemma length_lp_bytes [simp]: "length (lp_bytes n es) = 7 + length (lp_body es)"
  by (simp add: lp_bytes_def)

lemma TotalBytes_header: "t < 2 ^ 32 \<Longrightarrow> ListPack_TotalBytes (lp_header t n @ rest) = Inr t"
proof -
  assume "t < 2 ^ 32"
  then have "take_bit 32 t = t" by (simp add: take_bit_eq_mod)
  then show ?thesis
    by (simp add: ListPack_TotalBytes_def lp_header_def be_read del: push_bit_and push_bit_or)
qed

lemma ElementCount_header: "n \<le> 65535 \<Longrightarrow> ElementCount (lp_header t n @ rest) = Inr n"
proof -
  assume "n \<le> 65535"
  then have "take_bit 16 n = n" by (simp add: take_bit_eq_mod)
  then show ?thesis
    by (simp add: ElementCount_def lp_header_def be_read del: push_bit_and push_bit_or)
qed

lemma SetTotalBytes_header: "SetTotalBytes (lp_header t n @ rest) t' = Inr (lp_header t' n @ rest)"
  by (simp add: SetTotalBytes_def lp_header_def mem_copy_def)

lemma SetNumOfElements_header:
  "SetNumOfElements (lp_header t n @ rest) n' = Inr (lp_header t n' @ rest)"
  by (simp add: SetNumOfElements_def lp_header_def mem_copy_def)

lemmas lp_header_ops = TotalBytes_header ElementCount_header SetTotalBytes_header
  SetNumOfElements_header

lemma Realloc_grow:
  assumes "ListPack_TotalBytes lp = Inr (length lp)" "7 \<le> length lp"
  shows "Realloc lp (length lp + k) = Inr (lp @ replicate k 0)"
  using assms by (simp add: Realloc_def rd_range_def mem_copy_def replicate_add)

lemma Realloc_shrink:
  assumes "ListPack_TotalBytes (lp @ rest) = Inr n" "length lp \<le> n" "7 \<le> length lp"
  shows "Realloc (lp @ rest) (length lp) = Inr lp"
  using assms by (simp add: Realloc_def rd_range_def mem_copy_def min_def)

lemma repr_TotalBytes:
  assumes "ListPack_repr lp es" shows "ListPack_TotalBytes lp = Inr (length lp)"
  using assms by (auto simp: ListPack_repr_def lp_bytes_def TotalBytes_header)

lemma repr_length: "ListPack_repr lp es \<Longrightarrow> length lp = 7 + length (lp_body es)"
  by (auto simp: ListPack_repr_def)

lemma lp_off_0 [simp]: "lp_off es 0 = 6"
  by (simp add: lp_off_def)

lemma lp_off_Suc: "i < length es \<Longrightarrow> lp_off es (Suc i) = lp_off es i + length (enc (es ! i))"
  by (simp add: lp_off_def take_Suc_conv_app_nth)

lemma enc_nonempty: "0 < length (enc e)"
  by (simp add: length_enc)

lemma repr_off_end: "ListPack_repr lp es \<Longrightarrow> lp_off es (length es) = length lp - 1"
  by (simp add: repr_length lp_off_def)

lemma lp_off_mono_less: "i < j \<Longrightarrow> j \<le> length es \<Longrightarrow> lp_off es i < lp_off es j"
proof (induction j)
  case (Suc j)
  then show ?case using enc_nonempty [of "es ! j"] by (auto simp: lp_off_Suc less_Suc_eq)
qed simp

lemma lp_off_inject [simp]:
  "i \<le> length es \<Longrightarrow> j \<le> length es \<Longrightarrow> lp_off es i = lp_off es j \<longleftrightarrow> i = j"
  by (metis lp_off_mono_less nat_neq_iff)

lemma lp_off_ge [simp]: "6 \<le> lp_off es i"
  by (simp add: lp_off_def)

lemma repr_split:
  assumes "ListPack_repr lp es" "i < length es"
  obtains pre post where "lp = pre @ enc (es ! i) @ post" "length pre = lp_off es i"
    "entry_ok (es ! i)" "post \<noteq> []"
proof -
  from assms obtain n where n: "lp = lp_bytes n es" by (auto simp: ListPack_repr_def)
  let ?pre = "lp_header (7 + length (lp_body es)) n @ lp_body (take i es)"
  have "lp_body es = lp_body (take i es) @ enc (es ! i) @ lp_body (drop (Suc i) es)"
    using assms(2) by (metis id_take_nth_drop lp_body_simps(2,3))
  then have "lp = ?pre @ enc (es ! i) @ lp_body (drop (Suc i) es) @ [255]"
    using n by (simp add: lp_bytes_def)
  moreover have "length ?pre = lp_off es i" by (simp add: lp_off_def)
  moreover have "entry_ok (es ! i)" using assms by (simp add: ListPack_repr_def list_all_length)
  ultimately show ?thesis by (rule that) simp
qed

lemma repr_off_less:
  assumes "ListPack_repr lp es" "i \<le> length es" shows "lp_off es i < length lp"
proof -
  have "lp_off es i \<le> lp_off es (length es)"
    using assms lp_off_mono_less [of i "length es" es] by (cases "i = length es") auto
  then show ?thesis using assms by (simp add: repr_off_end repr_length)
qed

lemma repr_EOF:
  assumes "ListPack_repr lp es" shows "rd lp (lp_off es (length es)) = Inr 255"
proof -
  from assms obtain n where "lp = (lp_header (7 + length (lp_body es)) n @ lp_body es) @ [255]"
    by (auto simp: ListPack_repr_def lp_bytes_def)
  then show ?thesis by (metis append_Nil2 length_append length_lp_header lp_off_def
        rd_append(1) rd_simps(1) take_all order_refl)
qed

lemma repr_rd:
  assumes "ListPack_repr lp es" "i < length es"
  obtains b where "rd lp (lp_off es i) = Inr b" "b \<noteq> 255"
  using repr_split [OF assms] enc_first_byte by metis

lemma repr_Skip:
  assumes "ListPack_repr lp es" "i < length es"
  shows "Skip lp (lp_off es i) = Inr (lp_off es (Suc i))"
proof -
  obtain b where b: "rd lp (lp_off es i) = Inr b" "b \<noteq> 255" using repr_rd [OF assms] .
  obtain pre post where "lp = pre @ enc (es ! i) @ post" "length pre = lp_off es i" "entry_ok (es ! i)"
    using repr_split [OF assms] by metis
  with Backlen_enc have "Backlen lp (lp_off es i) = Inr (enc_len (es ! i))" by metis
  with b assms(2) show ?thesis by (simp add: Skip_def lp_off_Suc length_enc)
qed

lemma repr_First:
  assumes "ListPack_repr lp es"
  shows "ListPack_First lp = Inr (if es = [] then None else Some (lp_off es 0))"
proof (cases es)
  case (Cons e es')
  then show ?thesis using assms enc_nonempty [of e]
    by (simp add: ListPack_First_def repr_TotalBytes repr_length)
qed (use assms in \<open>simp add: ListPack_First_def repr_TotalBytes repr_length\<close>)

lemma repr_Next:
  assumes "ListPack_repr lp es" "i < length es"
  shows "ListPack_Next lp (lp_off es i) =
    Inr (if Suc i < length es then Some (lp_off es (Suc i)) else None)"
proof -
  obtain b where b: "rd lp (lp_off es i) = Inr b" "b \<noteq> 255" using repr_rd [OF assms] .
  have l: "lp_off es i < length lp" using repr_off_less assms by simp
  show ?thesis
  proof (cases "Suc i < length es")
    case True
    then obtain c where "rd lp (lp_off es (Suc i)) = Inr c" "c \<noteq> 255" using repr_rd assms(1) by blast
    with True b l assms show ?thesis
      by (simp add: ListPack_Next_def repr_TotalBytes repr_Skip not_le not_less)
  next
    case False
    with assms(2) have "Suc i = length es" by simp
    with b l assms repr_EOF [OF assms(1)] show ?thesis
      by (simp add: ListPack_Next_def repr_TotalBytes repr_Skip not_le not_less)
  qed
qed

lemma repr_Prev:
  assumes "ListPack_repr lp es" "i \<le> length es"
  shows "ListPack_Prev lp (lp_off es i) = Inr (if i = 0 then None else Some (lp_off es (i - 1)))"
proof (cases i)
  case 0
  with assms repr_off_less [of lp es 0] show ?thesis
    by (simp add: ListPack_Prev_def repr_TotalBytes)
next
  case (Suc k)
  with assms(2) have k: "k < length es" by simp
  obtain pre post where s: "lp = pre @ enc (es ! k) @ post" "length pre = lp_off es k" "entry_ok (es ! k)"
    using repr_split [OF assms(1) k] by metis
  then have "DecodeBacklen lp (lp_off es (Suc k) - 1) = Inr (enc_len (es ! k))"
    using DecodeBacklen_enc [of "es ! k" pre post] k by (simp add: lp_off_Suc)
  moreover have "lp_off es (Suc k) < length lp" using Suc assms repr_off_less by simp
  moreover have "6 < lp_off es (Suc k)" using lp_off_mono_less [of 0 "Suc k" es] k by simp
  ultimately show ?thesis using Suc k assms
    by (simp add: ListPack_Prev_def repr_TotalBytes lp_off_Suc length_enc not_less)
qed

lemma repr_Last:
  assumes "ListPack_repr lp es"
  shows "ListPack_Last lp = Inr (if es = [] then None else Some (lp_off es (length es - 1)))"
proof -
  have "ListPack_Prev lp (length lp - 1) = Inr (if es = [] then None else Some (lp_off es (length es - 1)))"
    using repr_Prev [OF assms order_refl] by (simp add: repr_off_end [OF assms])
  moreover have "es = []" if "length lp \<le> 7"
    using that assms enc_nonempty by (cases es) (auto simp: repr_length)
  ultimately show ?thesis using assms
    by (auto simp: ListPack_Last_def repr_TotalBytes)
qed

lemma repr_value:
  assumes "ListPack_repr lp es" "i < length es"
  shows "value_at lp (lp_off es i) = Inr (Some (entry_str (es ! i)))"
    and "EncodingAt lp (lp_off es i) = Inr (entry_type (es ! i))"
proof -
  obtain pre post where s: "lp = pre @ enc (es ! i) @ post" "length pre = lp_off es i" "entry_ok (es ! i)"
    using repr_split [OF assms] by metis
  show e: "EncodingAt lp (lp_off es i) = Inr (entry_type (es ! i))"
    using EncodingAt_enc [OF s(3), of pre post] s by simp
  show "value_at lp (lp_off es i) = Inr (Some (entry_str (es ! i)))"
    using e s IntegerAt_text_enc [of _ pre post] StringAt_enc [of _ pre post]
    by (cases "es ! i") (auto simp: value_at_def)
qed

lemma repr_Get:
  assumes "ListPack_repr lp es" "i \<le> length es"
  shows "ListPack_Get lp (lp_off es i) =
    Inr (if i < length es then Some (entry_str (es ! i)) else None)"
proof (cases "i < length es")
  case True
  with lp_off_mono_less [of i "length es" es] have "lp_off es i < length lp - 1"
    by (simp add: repr_off_end [OF assms(1)])
  with repr_value [OF assms(1) True] True show ?thesis
    using assms by (simp add: ListPack_Get_def value_at_def repr_TotalBytes not_less not_le)
next
  case False
  with assms have "i = length es" by simp
  with assms show ?thesis using repr_length [OF assms(1)]
    by (simp add: ListPack_Get_def repr_TotalBytes repr_off_end)
qed


lemma repr_IntegerAt:
  assumes "ListPack_repr lp es" "i < length es"
  shows "ListPack_IntegerAt lp (lp_off es i) =
    Inr (case es ! i of LInt v \<Rightarrow> Some v | LStr s \<Rightarrow> None)"
proof -
  obtain pre post where s: "lp = pre @ enc (es ! i) @ post" "length pre = lp_off es i" "entry_ok (es ! i)"
    using repr_split [OF assms] by metis
  have "lp_off es i < length lp - 1"
    using lp_off_mono_less [of i "length es" es] assms by (simp add: repr_off_end [OF assms(1)])
  then show ?thesis
    using s repr_value(2) [OF assms] IntegerAt_value_enc [of _ pre post] assms
    by (cases "es ! i") (auto simp: ListPack_IntegerAt_def repr_TotalBytes not_less not_le)
qed

lemma Size_loop_repr:
  assumes "ListPack_repr lp es" "i \<le> length es"
  shows "Size_loop lp (if i < length es then Some (lp_off es i) else None) c
    = Inr (c + (length es - i))"
  using assms(2)
proof (induction "length es - i" arbitrary: i c)
  case 0
  then show ?case by (simp add: Size_loop.simps)
next
  case (Suc n)
  then have i: "i < length es" "n = length es - Suc i" by simp_all
  show ?case using Suc(1) [OF i(2), of "c + 1"] i(1) repr_Next [OF assms(1) i(1)]
    by (subst Size_loop.simps) simp
qed

lemma repr_intro_header:
  assumes "count_ok n es" "length (lp_body es) + 7 \<le> UINT32_MAX" "list_all entry_ok es"
    "t = 7 + length (lp_body es)"
  shows "ListPack_repr (lp_header t n @ lp_body es @ [255]) es"
  using assms unfolding ListPack_repr_def lp_bytes_def by auto

lemma repr_ElementCount:
  assumes "ListPack_repr lp es"
  obtains n where "ElementCount lp = Inr n" "count_ok n es" "lp = lp_bytes n es"
  using assms that by (auto simp: ListPack_repr_def lp_bytes_def ElementCount_header count_ok_def)

lemma repr_Size:
  assumes "ListPack_repr lp es"
  obtains lp' where "ListPack_Size lp = Inr (length es, lp')" "ListPack_repr lp' es"
proof -
  obtain n where n: "ElementCount lp = Inr n" "count_ok n es" "lp = lp_bytes n es"
    using repr_ElementCount [OF assms] .
  show ?thesis
  proof (cases "n = 65535")
    case False
    with n assms show ?thesis by (intro that [of lp]) (simp_all add: ListPack_Size_def count_ok_def)
  next
    case True
    have l: "bindE (ListPack_First lp) (\<lambda>idx. Size_loop lp idx 0) = Inr (length es)"
      using Size_loop_repr [OF assms, of 0 0] repr_First [OF assms] by auto
    let ?lp = "lp_header (7 + length (lp_body es)) (length es) @ lp_body es @ [255]"
    show ?thesis
    proof (cases "length es < 65535")
      case True
      have "ListPack_repr ?lp es"
        using assms True repr_length [OF assms]
        by (intro repr_intro_header) (simp_all add: count_ok_def ListPack_repr_def)
      then show ?thesis using \<open>n = 65535\<close> True n l
        by (intro that [of ?lp])
          (auto simp: ListPack_Size_def bindE_eq_Inr lp_bytes_def SetNumOfElements_header)
    next
      case False
      with n l \<open>n = 65535\<close> assms show ?thesis
        by (intro that [of lp]) (auto simp: ListPack_Size_def bindE_eq_Inr)
    qed
  qed
qed

lemma repr_size_of: "ListPack_repr lp es \<Longrightarrow> ListPack_size_of lp = Inr (length es)"
  by (erule repr_Size) (simp add: ListPack_size_of_def)

text \<open>The specification of the search: every \<open>skip + 1\<close>-th entry is compared.\<close>

fun find_skip :: "string \<Rightarrow> nat \<Rightarrow> nat \<Rightarrow> lp_entry list \<Rightarrow> nat option" where
  "find_skip val skip c [] = None"
| "find_skip val skip c (e # es) =
     (if c = 0 then if entry_str e = val then Some 0 else map_option Suc (find_skip val skip skip es)
      else map_option Suc (find_skip val skip (c - 1) es))"

lemma FindAndSkip_loop_repr:
  assumes "ListPack_repr lp es" "i \<le> length es"
  shows "FindAndSkip_loop lp val skip (if i < length es then Some (lp_off es i) else None) c
    = Inr (map_option (\<lambda>k. lp_off es (i + k)) (find_skip val skip c (drop i es)))"
  using assms(2)
proof (induction "length es - i" arbitrary: i c)
  case 0
  then show ?case by (simp add: FindAndSkip_loop.simps)
next
  case (Suc n)
  then have i: "i < length es" "n = length es - Suc i" by simp_all
  have d: "drop i es = es ! i # drop (Suc i) es" using i by (simp add: Cons_nth_drop_Suc)
  show ?case
    using Suc(1) [OF i(2)] i(1) repr_Next [OF assms(1) i(1)] repr_Get [OF assms(1), of i]
    by (subst FindAndSkip_loop.simps) (simp add: d option.map_comp comp_def)
qed

lemma repr_FindAndSkip:
  assumes "ListPack_repr lp es"
  shows "ListPack_FindAndSkip lp val skip = Inr (map_option (lp_off es) (find_skip val skip 0 es))"
  using FindAndSkip_loop_repr [OF assms, of 0 val skip 0] repr_First [OF assms]
  by (auto simp: ListPack_FindAndSkip_def)

lemma IndexAt_loop_repr:
  assumes "ListPack_repr lp es" "i \<le> length es"
  shows "IndexAt_loop lp (if i < length es then Some (lp_off es i) else None) n
    = Inr (if i + n < length es then Some (lp_off es (i + n)) else None)"
  using assms(2)
proof (induction n arbitrary: i)
  case (Suc n)
  show ?case
  proof (cases "i < length es")
    case True
    with Suc.IH [of "Suc i"] repr_Next [OF assms(1) True] show ?thesis by simp
  qed simp
qed simp

lemma repr_IndexAt:
  assumes "ListPack_repr lp es"
  shows "ListPack_IndexAt lp n = Inr (if n < length es then Some (lp_off es n) else None)"
  using IndexAt_loop_repr [OF assms, of 0 n] repr_First [OF assms]
  by (cases "es = []") (auto simp: ListPack_IndexAt_def)


text \<open>What a traversal does to a list of values.\<close>

fun visit :: "'s visitor \<Rightarrow> string list \<Rightarrow> 's \<Rightarrow> bool \<times> 's" where
  "visit f [] s = (True, s)"
| "visit f (x # xs) s = (case f x s of (go, s) \<Rightarrow> if go then visit f xs s else (False, s))"

fun visit_pairs :: "(string \<Rightarrow> string \<Rightarrow> 's \<Rightarrow> bool \<times> 's) \<Rightarrow> string list \<Rightarrow> 's \<Rightarrow> bool \<times> 's" where
  "visit_pairs f (x # y # xs) s =
     (case f x y s of (go, s) \<Rightarrow> if go then visit_pairs f xs s else (False, s))"
| "visit_pairs f _ s = (True, s)"

definition entry_range :: "lp_entry list \<Rightarrow> nat \<Rightarrow> nat \<Rightarrow> string list" where
  "entry_range es start stop = map entry_str (drop start (take (Suc stop) es))"

lemma visit_at_repr:
  "ListPack_repr lp es \<Longrightarrow> i < length es \<Longrightarrow>
    visit_at lp (lp_off es i) f s = Inr (f (entry_str (es ! i)) s)"
  by (simp add: visit_at_def repr_Get)

lemma ForEach_loop_repr:
  assumes "ListPack_repr lp es" "i \<le> length es"
  shows "ForEach_loop lp start stop f (if i < length es then Some (lp_off es i) else None) i s
    = Inr (visit f (map entry_str (drop (max start i) (take (Suc stop) es))) s)"
  using assms(2)
proof (induction "length es - i" arbitrary: i s)
  case 0
  then show ?case by (simp add: ForEach_loop.simps)
next
  case (Suc n)
  then have i: "i < length es" "n = length es - Suc i" by simp_all
  note IH = Suc(1) [OF i(2)] and N = repr_Next [OF assms(1) i(1)] and V = visit_at_repr [OF assms(1) i(1), of f]
  show ?case
  proof (cases "i \<le> stop")
    case True
    then have "drop i (take (Suc stop) es) = es ! i # drop (Suc i) (take (Suc stop) es)"
      using i(1) by (subst Cons_nth_drop_Suc [symmetric]) simp_all
    moreover have "max start (Suc i) = max start i" if "\<not> start \<le> i" using that by simp
    ultimately show ?thesis using IH N V True i(1)
      by (subst ForEach_loop.simps) (auto split: prod.splits simp: max_def)
  next
    case False
    then show ?thesis using i(1) by (subst ForEach_loop.simps) simp
  qed
qed

lemma repr_ForEach:
  assumes "ListPack_repr lp es"
  shows "ListPack_ForEach lp start stop f s = Inr (visit f (entry_range es start stop) s)"
proof -
  obtain lp' where lp': "ListPack_Size lp = Inr (length es, lp')" "ListPack_repr lp' es"
    using repr_Size [OF assms] .
  show ?thesis
  proof (cases "start > stop \<or> start \<ge> length es")
    case True
    then show ?thesis using lp' by (auto simp: ListPack_ForEach_def entry_range_def)
  next
    case False
    then have "take (Suc (min stop (length es - 1))) es = take (Suc stop) es" by (simp add: min_def)
    then show ?thesis
      using False lp' ForEach_loop_repr [OF lp'(2), of 0 start "min stop (length es - 1)" f s]
        repr_First [OF lp'(2)]
      by (auto simp: ListPack_ForEach_def entry_range_def)
  qed
qed

lemma ForEachReverse_advance_repr:
  assumes "ListPack_repr lp es" "i + n < length es"
  shows "ForEachReverse_advance lp (Some (lp_off es i)) i n = Inr (Some (lp_off es (i + n)), i + n)"
  using assms(2)
proof (induction n arbitrary: i)
  case (Suc n)
  with Suc.IH [of "Suc i"] repr_Next [OF assms(1), of i] show ?case by simp
qed simp

lemma ForEachReverse_loop_repr:
  assumes "ListPack_repr lp es" "i < length es"
  shows "ForEachReverse_loop lp start f (Some (lp_off es i)) i s
    = Inr (visit f (map entry_str (rev (drop start (take (Suc i) es)))) s)"
  using assms(2)
proof (induction i arbitrary: s)
  case 0
  then show ?case using visit_at_repr [OF assms(1), of 0 f s]
    by (cases es) (auto split: prod.splits)
next
  case (Suc i)
  have "drop start (take (Suc (Suc i)) es) =
      (if Suc i < start then [] else drop start (take (Suc i) es) @ [es ! Suc i])"
    using Suc.prems by (simp add: take_Suc_conv_app_nth [of "Suc i"])
  then show ?case
    using Suc visit_at_repr [OF assms(1) Suc.prems, of f] repr_Prev [OF assms(1), of "Suc i"]
    by (auto split: prod.splits)
qed

lemma repr_ForEachReverse:
  assumes "ListPack_repr lp es"
  shows "ListPack_ForEachReverse lp start stop f s
    = Inr (visit f (rev (entry_range es start stop)) s)"
proof -
  obtain lp' where lp': "ListPack_Size lp = Inr (length es, lp')" "ListPack_repr lp' es"
    using repr_Size [OF assms] .
  show ?thesis
  proof (cases "start > stop \<or> start \<ge> length es")
    case True
    then show ?thesis using lp' by (auto simp: ListPack_ForEachReverse_def entry_range_def)
  next
    case False
    then have "take (Suc (min stop (length es - 1))) es = take (Suc stop) es" by (simp add: min_def)
    moreover have "min stop (length es - 1) < length es" "es \<noteq> []" using False by auto
    ultimately show ?thesis
      using False lp' ForEachReverse_advance_repr [OF lp'(2), of 0 "min stop (length es - 1)"]
        ForEachReverse_loop_repr [OF lp'(2), of "min stop (length es - 1)" start f s]
        repr_First [OF lp'(2)]
      by (simp add: ListPack_ForEachReverse_def entry_range_def rev_map)
  qed
qed

lemma ForEachPair_loop_repr:
  assumes "ListPack_repr lp es" "i \<le> length es"
  shows "ForEachPair_loop lp f (if i < length es then Some (lp_off es i) else None) s
    = Inr (visit_pairs f (map entry_str (drop i es)) s)"
  using assms(2)
proof (induction "length es - i" arbitrary: i s rule: less_induct)
  case less
  consider "i = length es" | "Suc i = length es" | "Suc i < length es" using less(2) by linarith
  then show ?case
  proof cases
    case 1
    then show ?thesis by (simp add: ForEachPair_loop.simps)
  next
    case 2
    then have "drop i es = [es ! i]" by (metis Cons_nth_drop_Suc drop_all lessI order_refl)
    with 2 repr_Next [OF assms(1), of i] show ?thesis by (subst ForEachPair_loop.simps) simp
  next
    case 3
    then have "drop i es = es ! i # es ! Suc i # drop (Suc (Suc i)) es"
      by (simp add: Cons_nth_drop_Suc)
    with 3 less(1) [of "Suc (Suc i)"] repr_Next [OF assms(1), of i] repr_Next [OF assms(1), of "Suc i"]
      repr_value(1) [OF assms(1), of i] repr_value(1) [OF assms(1), of "Suc i"]
    show ?thesis by (subst ForEachPair_loop.simps) (auto split: prod.splits)
  qed
qed

lemma repr_ForEachPair:
  assumes "ListPack_repr lp es"
  shows "ListPack_ForEachPair lp f s = Inr (visit_pairs f (map entry_str es) s)"
  using ForEachPair_loop_repr [OF assms, of 0 f s] repr_First [OF assms]
  by (auto simp: ListPack_ForEachPair_def)


section \<open>Insertion, replacement and deletion\<close>

definition entry_of :: "string \<Rightarrow> lp_entry" where
  "entry_of s = (case ToCanonicalInt64 s of Some v \<Rightarrow> LInt v | None \<Rightarrow> LStr s)"

lemma entry_str_entry_of [simp]: "entry_str (entry_of s) = s"
  by (auto simp: entry_of_def dest: ToCanonicalInt64_Some split: option.split)

lemma length_enc_entry_of: "length (enc (entry_of s)) \<le> length s + 10"
proof (cases "ToCanonicalInt64 s")
  case None
  then have "enc_len (entry_of s) \<le> length s + 5"
    using str_head_len_le [of "entry_type (LStr s)"] by (simp add: entry_of_def encode_LStr)
  then show ?thesis by (simp add: length_enc BacklenBytes_def)
next
  case (Some v)
  then have "enc_len (entry_of s) \<le> 9"
    using int_len_le [of "entry_type (LInt v)"] by (simp add: entry_of_def encode_LInt)
  then show ?thesis by (simp add: length_enc BacklenBytes_def)
qed

lemma entry_ok_entry_of: "length s < 2 ^ 31 \<Longrightarrow> entry_ok (entry_of s)"
  by (auto simp: entry_of_def dest: ToCanonicalInt64_Some split: option.split)

text \<open>The element an insertion is given, as the entry it stores.\<close>

inductive element :: "string option \<Rightarrow> int option \<Rightarrow> lp_entry \<Rightarrow> bool" where
  element_str: "length s < 2 ^ 31 \<Longrightarrow> element (Some s) None (entry_of s)"
| element_int: "is_int64 v \<Longrightarrow> element None (Some v) (LInt v)"

lemma element_ok: "element es ei e \<Longrightarrow> entry_ok e"
  by (auto elim!: element.cases simp: entry_ok_entry_of)

lemma element_encode:
  assumes "element es ei e"
  shows "(case ei of Some v \<Rightarrow> EncodeInteger v
     | None \<Rightarrow> (case ToCanonicalInt64 (the es) of Some v \<Rightarrow> EncodeInteger v
         | None \<Rightarrow> EncodeString (the es))) = encode e"
    and "\<not> (es = None \<and> ei = None)" and "\<not> (es \<noteq> None \<and> length (the es) > UINT32_MAX - 10)"
  using assms by (auto elim!: element.cases simp: entry_of_def encode.simps split: option.split)

lemma Insert_move:
  assumes lp: "lp = lp_header old n @ A @ D @ B" "old = length lp" "old \<le> UINT32_MAX" "B \<noteq> []"
    and new_def: "new = old - length D + k"
  obtains g t where
    "bindE (if new > old then Realloc lp new else Inr lp) (\<lambda>lp.
       mem_move lp (6 + length A + k) (6 + length A + length D) (old - (6 + length A) - length D))
     = Inr (lp_header old n @ A @ g @ B @ t)"
    "length g = k" "length t = old - new"
proof -
  let ?xs = "lp_header old n @ A"
  have len: "old = 6 + length A + length D + length B"
    using arg_cong [OF lp(1), of length] lp(2) by simp
  define Z where "Z = replicate (new - old) (0::nat)"
  have total: "ListPack_TotalBytes lp = Inr (length lp)"
    using lp TotalBytes_header [of old n "A @ D @ B"] by simp
  have "(if new > old then Realloc lp new else Inr lp) = Inr (lp @ Z)"
  proof (cases "new > old")
    case True
    moreover have "7 \<le> length lp" using len lp(2,4) by (cases B) simp_all
    ultimately show ?thesis using Realloc_grow [OF total, of "new - old"] lp(2) by (simp add: Z_def)
  qed (simp add: Z_def)
  moreover have k: "k \<le> length D + length Z"
    using len by (simp add: Z_def new_def)
  then obtain g t where "mem_move (?xs @ D @ B @ Z) (length ?xs + k) (length ?xs + length D) (length B)
      = Inr (?xs @ g @ B @ t)" "length g = k" "length t = length D + length Z - k"
    by (rule mem_move_gap)
  moreover have "old - (6 + length A) - length D = length B" using len by simp
  moreover have "length D + length Z - k = old - new"
    using len by (simp add: Z_def new_def)
  ultimately show ?thesis
    using lp(1) that [of g t] by simp
qed

lemma Insert_at_core:
  assumes lp: "lp = lp_header old n @ A @ D @ B" "old = length lp" "old \<le> UINT32_MAX" "B \<noteq> []"
    and n: "n \<le> 65535"
    and pos: "position = kInsertBefore \<and> D = [] \<or> position = kReplace
      \<and> (\<exists>m. Backlen lp (6 + length A) = Inr m \<and> m + BacklenBytes m = length D)"
    and el: "element es ei e"
    and new_def: "new = old - length D + length (enc e)"
    and n'_def: "n' = (if position = kInsertBefore \<and> n \<noteq> 65535 then n + 1 else n)"
  shows "Insert_at lp (6 + length A) position es ei =
    (if new > UINT32_MAX then Inr (False, lp)
     else Inr (True, lp_header new n' @ A @ enc e @ B))"
proof -
  note enc = element_encode [OF el]
  have len: "old = 6 + length A + length D + length B"
    using arg_cong [OF lp(1), of length] lp(2) by simp
  have total: "ListPack_TotalBytes lp = Inr old"
    using lp TotalBytes_header [of old n "A @ D @ B"] by simp
  have idx: "\<not> (6 + length A < 6 \<or> 6 + length A \<ge> old)"
    using len lp(4) by (cases B) auto
  have repl: "(if position = kReplace then bindE (Backlen lp (6 + length A)) (\<lambda>n. Inr (n + BacklenBytes n))
      else Inr 0) = Inr (length D)" and after: "position \<noteq> kInsertAfter"
    using pos by auto
  have big: "enc_len e + BacklenBytes (enc_len e) > UINT32_MAX - (old - length D) \<longleftrightarrow> new > UINT32_MAX"
    using lp(3) by (auto simp: new_def length_enc)
  show ?thesis
  proof (cases "new > UINT32_MAX")
    case True
    then show ?thesis
      using enc idx total repl after big
      by (simp add: Insert_at_def Let_def case_prod_beta)
  next
    case False
    obtain g t where mv:
      "bindE (if new > old then Realloc lp new else Inr lp) (\<lambda>lp.
         mem_move lp (6 + length A + length (enc e)) (6 + length A + length D)
           (old - (6 + length A) - length D)) = Inr (lp_header old n @ A @ g @ B @ t)"
      "length g = length (enc e)" "length t = old - new"
      using Insert_move [OF lp new_def] by metis
    have cnt: "(if position = kInsertBefore
        then bindE (ElementCount (lp_header old n @ A @ g @ B @ t)) (\<lambda>c.
           if c \<noteq> 65535 then SetNumOfElements (lp_header old n @ A @ g @ B @ t) (c + 1)
           else Inr (lp_header old n @ A @ g @ B @ t))
        else Inr (lp_header old n @ A @ g @ B @ t)) = Inr (lp_header old n' @ A @ g @ B @ t)"
      using n by (simp add: n'_def lp_header_ops)
    have "new = length (lp_header old n' @ A @ g @ B)" using len mv(2) by (simp add: new_def)
    moreover have "7 \<le> new" using calculation lp(4) by (cases B) auto
    ultimately have shrink: "(if new < old then Realloc (lp_header old n' @ A @ g @ B @ t) new
        else Inr (lp_header old n' @ A @ g @ B @ t)) = Inr (lp_header old n' @ A @ g @ B)"
      using Realloc_shrink [of "lp_header old n' @ A @ g @ B" t old] mv(3) lp(3)
      by (auto simp: TotalBytes_header)
    have "mem_copy (lp_header new n' @ A @ g @ B) (6 + length A) (enc e)
        = Inr (lp_header new n' @ A @ enc e @ B)"
      using mem_copy_append [of "enc e" g "lp_header new n' @ A" B] mv(2) by simp
    note copy = this
    obtain lp1 where mv1: "(if new > old then Realloc lp new else Inr lp) = Inr lp1"
      "mem_move lp1 (6 + length A + enc_len e + BacklenBytes (enc_len e)) (6 + length A + length D)
         (old - (6 + length A) - length D) = Inr (lp_header old n @ A @ g @ B @ t)"
      using mv(1) by (auto simp: bindE_eq_Inr length_enc add.assoc)
    have nw: "old - length D + (enc_len e + BacklenBytes (enc_len e)) = new"
      by (simp add: new_def length_enc)
    show ?thesis
      using False unfolding Insert_at_def
      by (simp only: Let_def case_prod_beta nw idx total repl enc after big mv1 cnt shrink
          SetTotalBytes_header copy bindE_Inr if_False)
  qed
qed


definition lp_fits :: "lp_entry list \<Rightarrow> bool" where
  "lp_fits es \<longleftrightarrow> 7 + length (lp_body es) \<le> UINT32_MAX"

lemma repr_parts:
  assumes "ListPack_repr lp es" "i \<le> j" "j \<le> length es"
  obtains n where "lp = lp_header (length lp) n @ lp_body (take i es) @ lp_body (take (j - i) (drop i es))
      @ lp_body (drop j es) @ [255]" "count_ok n es"
proof -
  from assms obtain n where n: "lp = lp_bytes n es" "count_ok n es" by (auto simp: ListPack_repr_def)
  have "es = take i es @ take (j - i) (drop i es) @ drop j es"
    using assms(2) by (metis append_assoc append_take_drop_id le_add_diff_inverse take_add)
  then have "lp_body es = lp_body (take i es) @ lp_body (take (j - i) (drop i es)) @ lp_body (drop j es)"
    by (metis lp_body_simps(3))
  with n show ?thesis by (intro that [of n]) (simp_all add: lp_bytes_def)
qed

lemma repr_fits: "ListPack_repr lp es \<Longrightarrow> lp_fits es"
  using repr_length by (auto simp: ListPack_repr_def lp_fits_def)

lemma repr_Insert_before:
  assumes r: "ListPack_repr lp es" and i: "i \<le> length es" and el: "element ss ii e"
  defines "es' \<equiv> take i es @ e # drop i es"
  shows "if lp_fits es'
    then \<exists>lp'. Insert_at lp (lp_off es i) kInsertBefore ss ii = Inr (True, lp') \<and> ListPack_repr lp' es'
    else Insert_at lp (lp_off es i) kInsertBefore ss ii = Inr (False, lp)"
proof -
  obtain n where n: "lp = lp_header (length lp) n @ lp_body (take i es) @ [] @ lp_body (drop i es) @ [255]"
    "count_ok n es" using repr_parts [OF r order_refl i] by auto
  let ?n = "if n \<noteq> 65535 then n + 1 else n"
  have len: "length lp + length (enc e) = 7 + length (lp_body es')"
    by (subst n(1)) (simp add: es'_def)
  have ok: "list_all entry_ok es'"
    using r element_ok [OF el] unfolding ListPack_repr_def es'_def
    by (auto simp: list_all_iff dest: in_set_takeD in_set_dropD)
  have off: "lp_off es i = 6 + length (lp_body (take i es))" by (simp add: lp_off_def)
  have n': "count_ok ?n es'" using n(2) i by (auto simp: count_ok_def es'_def)
  have "Insert_at lp (lp_off es i) kInsertBefore ss ii = (if 7 + length (lp_body es') > UINT32_MAX
      then Inr (False, lp) else Inr (True, lp_header (7 + length (lp_body es')) ?n @ lp_body (take i es)
        @ enc e @ lp_body (drop i es) @ [255]))"
    unfolding off
    by (rule Insert_at_core [OF n(1) refl _ _ _ _ el])
      (use r n(2) len in \<open>simp_all add: ListPack_repr_def count_ok_def\<close>)
  moreover have "ListPack_repr (lp_header (7 + length (lp_body es')) ?n @ lp_body es' @ [255]) es'"
    if "lp_fits es'"
    using that ok n' by (intro repr_intro_header) (auto simp: lp_fits_def)
  ultimately show ?thesis by (auto simp: lp_fits_def es'_def)
qed

lemma repr_Insert_replace:
  assumes r: "ListPack_repr lp es" and i: "i < length es" and el: "element ss ii e"
  defines "es' \<equiv> es[i := e]"
  shows "if lp_fits es'
    then \<exists>lp'. Insert_at lp (lp_off es i) kReplace ss ii = Inr (True, lp') \<and> ListPack_repr lp' es'
    else Insert_at lp (lp_off es i) kReplace ss ii = Inr (False, lp)"
proof -
  have tk: "take (Suc i - i) (drop i es) = [es ! i]" using i by (simp add: take_Suc_conv_app_nth)
  obtain n where n: "lp = lp_header (length lp) n @ lp_body (take i es) @ enc (es ! i)
      @ lp_body (drop (Suc i) es) @ [255]" "count_ok n es"
    using repr_parts [OF r, of i "Suc i"] i tk by auto
  have es': "es' = take i es @ e # drop (Suc i) es" using i by (simp add: es'_def upd_conv_take_nth_drop)
  have len: "length lp - length (enc (es ! i)) + length (enc e) = 7 + length (lp_body es')"
    by (subst n(1)) (simp add: es')
  have ok: "list_all entry_ok es'"
    using r element_ok [OF el] unfolding ListPack_repr_def es'_def
    by (auto simp: list_all_iff dest!: set_update_subset_insert [THEN subsetD])
  obtain pre post where s: "lp = pre @ enc (es ! i) @ post" "length pre = lp_off es i" "entry_ok (es ! i)"
    using repr_split [OF r i] by metis
  have bl: "Backlen lp (6 + length (lp_body (take i es))) = Inr (enc_len (es ! i))"
    using Backlen_enc [OF s(3), of pre post] s by (simp add: lp_off_def)
  have off: "lp_off es i = 6 + length (lp_body (take i es))" by (simp add: lp_off_def)
  have n': "count_ok n es'" using n(2) by (auto simp: count_ok_def es'_def)
  have "Insert_at lp (lp_off es i) kReplace ss ii = (if 7 + length (lp_body es') > UINT32_MAX
      then Inr (False, lp) else Inr (True, lp_header (7 + length (lp_body es')) n @ lp_body (take i es)
        @ enc e @ lp_body (drop (Suc i) es) @ [255]))"
    unfolding off
    by (rule Insert_at_core [OF n(1) refl _ _ _ _ el])
      (use r n(2) bl len in \<open>simp_all add: ListPack_repr_def count_ok_def length_enc\<close>)
  moreover have "ListPack_repr (lp_header (7 + length (lp_body es')) n @ lp_body es' @ [255]) es'"
    if "lp_fits es'"
    using that ok n' by (intro repr_intro_header) (auto simp: lp_fits_def)
  ultimately show ?thesis by (auto simp: lp_fits_def es')
qed

lemma DeleteRange_loop_repr:
  assumes "ListPack_repr lp es" "i \<le> length es"
  shows "DeleteRange_loop lp (length lp - 1) c (lp_off es i) d
    = Inr (lp_off es (min (i + c) (length es)), d + min c (length es - i))"
  using assms(2)
proof (induction c arbitrary: i d)
  case (Suc c)
  show ?case
  proof (cases "i < length es")
    case True
    then have "lp_off es i < length lp - 1"
      using lp_off_mono_less [of i "length es" es] by (simp add: repr_off_end [OF assms(1)])
    with Suc.IH [of "Suc i" "d + 1"] True repr_Skip [OF assms(1) True] show ?thesis by simp
  next
    case False
    with Suc.prems have "i = length es" by simp
    then show ?thesis using repr_off_end [OF assms(1)] by simp
  qed
qed simp

lemma repr_DeleteRange:
  assumes r: "ListPack_repr lp es" and i: "i < length es"
  shows "\<exists>lp'. ListPack_DeleteRange lp (lp_off es i) c = Inr (min c (length es - i), lp')
    \<and> ListPack_repr lp' (take i es @ drop (i + c) es)"
proof (cases "c = 0")
  case True
  then show ?thesis using r i repr_off_less [OF r, of i]
    by (auto simp: ListPack_DeleteRange_def repr_TotalBytes not_less not_le)
next
  case False
  define j where "j = min (i + c) (length es)"
  have j: "i \<le> j" "j \<le> length es" "drop (i + c) es = drop j es" using i by (auto simp: j_def min_def)
  define es' where "es' = take i es @ drop j es"
  obtain n where n: "lp = lp_header (length lp) n @ lp_body (take i es) @ lp_body (take (j - i) (drop i es))
      @ lp_body (drop j es) @ [255]" "count_ok n es" using repr_parts [OF r j(1,2)] by metis
  let ?A = "lp_body (take i es)" and ?D = "lp_body (take (j - i) (drop i es))"
    and ?B = "lp_body (drop j es) @ [255]"
  have len: "length lp = 6 + length ?A + length ?D + length ?B"
    using arg_cong [OF n(1), of length] by simp
  have total: "ListPack_TotalBytes lp = Inr (length lp)" using r by (rule repr_TotalBytes)
  have off: "lp_off es i = 6 + length ?A" by (simp add: lp_off_def)
  have "take j es = take i es @ take (j - i) (drop i es)"
    using j(1) by (metis le_add_diff_inverse take_add)
  then have offj: "lp_off es j = 6 + length ?A + length ?D"
    by (simp add: lp_off_def)
  obtain g t where mv: "mem_move lp (lp_off es i) (lp_off es j) (length lp - lp_off es j)
      = Inr (lp_header (length lp) n @ ?A @ ?B @ t)" "length t = length ?D"
  proof -
    obtain g t where "mem_move ((lp_header (length lp) n @ ?A) @ ?D @ ?B @ [])
        (length (lp_header (length lp) n @ ?A) + 0) (length (lp_header (length lp) n @ ?A) + length ?D)
        (length ?B) = Inr ((lp_header (length lp) n @ ?A) @ g @ ?B @ t)" "length g = 0" "length t = length ?D"
      using mem_move_gap [of 0 ?D "[]" "lp_header (length lp) n @ ?A" ?B] by auto
    then show ?thesis using n(1) len off offj by (intro that [of t]) auto
  qed
  let ?new = "length lp - length ?D"
  have new: "?new = length (lp_header (length lp) n @ ?A @ ?B)" using len by simp
  have re: "Realloc (lp_header (length lp) n @ ?A @ ?B @ t) ?new = Inr (lp_header (length lp) n @ ?A @ ?B)"
    using Realloc_shrink [of "lp_header (length lp) n @ ?A @ ?B" t "length lp"] new r
    by (simp add: TotalBytes_header ListPack_repr_def)
  define n1 where "n1 = (if n \<noteq> 65535 then nat ((int n - int (j - i)) mod 2 ^ 16) else n)"
  have n': "count_ok n1 es'"
  proof (cases "n = 65535")
    case False
    with n(2) have "n = length es" "n < 65535" by (auto simp: count_ok_def)
    then have "int n - int (j - i) = int (length es')" "length es' < 65535"
      using j i by (auto simp: es'_def)
    then show ?thesis using False by (simp add: count_ok_def n1_def)
  qed (simp add: count_ok_def n1_def)
  have "list_all entry_ok es'"
    using r unfolding ListPack_repr_def es'_def by (metis append_take_drop_id list_all_append)
  moreover have "?new = 7 + length (lp_body es')" using new by (simp add: es'_def)
  ultimately have "ListPack_repr (lp_header ?new n1 @ lp_body es' @ [255]) es'"
    using n' r len by (intro repr_intro_header) (auto simp: ListPack_repr_def)
  moreover have "ListPack_DeleteRange lp (lp_off es i) c
      = Inr (min c (length es - i), lp_header ?new n1 @ lp_body es' @ [255])"
  proof -
    have "lp_off es i < length lp - 1" "lp_off es i < length lp"
      using lp_off_mono_less [of i "length es" es] i by (simp_all add: repr_off_end [OF r])
    moreover have "length lp - (lp_off es j - lp_off es i) = ?new" using off offj by simp
    moreover have "min c (length es - i) = j - i" using i by (auto simp: j_def)
    moreover have "ElementCount lp = Inr n"
      using n by (metis ElementCount_header count_ok_def)
    moreover have "DeleteRange_loop lp (length lp - 1) c (lp_off es i) 0 = Inr (lp_off es j, j - i)"
      using DeleteRange_loop_repr [OF r, of i c 0] i calculation(4) by (simp add: j_def)
    moreover have "(if n \<noteq> 65535
        then SetNumOfElements (lp_header ?new n @ ?A @ ?B) (nat ((int n - int (j - i)) mod 2 ^ 16))
        else Inr (lp_header ?new n @ ?A @ ?B)) = Inr (lp_header ?new n1 @ ?A @ ?B)"
      by (simp add: n1_def SetNumOfElements_header)
    moreover have "\<not> (lp_off es i < 6 \<or> lp_off es i \<ge> length lp)"
      "\<not> (lp_off es i = length lp - 1 \<or> c = 0)"
      using calculation(1,2) False lp_off_ge [of es i] by linarith+
    moreover have "lp_header ?new n1 @ lp_body es' @ [255] = lp_header ?new n1 @ ?A @ ?B"
      by (simp add: es'_def)
    ultimately show ?thesis
      unfolding ListPack_DeleteRange_def
      by (simp only: total mv(1) re Let_def bindE_Inr if_False SetTotalBytes_header prod.case)
  qed
  ultimately show ?thesis using j(3) by (auto simp: es'_def)
qed

subsection \<open>Batches\<close>

definition batch_entry :: "ListPackEntry \<Rightarrow> lp_entry" where
  "batch_entry x = (if le_is_integer x then LInt (le_sval x) else entry_of (le_str x))"

definition batch_ok :: "ListPackEntry \<Rightarrow> bool" where
  "batch_ok x \<longleftrightarrow> (if le_is_integer x then is_int64 (le_sval x) else length (le_str x) < 2 ^ 31)"

lemma batch_entry_ok: "batch_ok x \<Longrightarrow> entry_ok (batch_entry x)"
  by (auto simp: batch_ok_def batch_entry_def entry_ok_entry_of split: if_splits)

lemma batch_encode:
  "(if le_is_integer x then EncodeInteger (le_sval x)
    else case ToCanonicalInt64 (le_str x) of Some v \<Rightarrow> EncodeInteger v | None \<Rightarrow> EncodeString (le_str x))
   = encode (batch_entry x)"
  by (simp add: batch_entry_def entry_of_def encode.simps split: option.split)

lemma BatchInsert_encodings_eq:
  assumes "list_all batch_ok xs" "acc \<le> SIZE_MAX"
  shows "BatchInsert_encodings xs acc =
    (if acc + length (lp_body (map batch_entry xs)) \<le> SIZE_MAX
     then Some (map (\<lambda>x. (enc_len (batch_entry x), enc (batch_entry x),
       BacklenBytes (enc_len (batch_entry x)))) xs, acc + length (lp_body (map batch_entry xs)))
     else None)"
  using assms
proof (induction xs arbitrary: acc)
  case (Cons x xs)
  have "\<not> (\<not> le_is_integer x \<and> length (le_str x) > UINT32_MAX - 10)"
    using Cons.prems by (auto simp: batch_ok_def)
  moreover have "enc_len (batch_entry x) + BacklenBytes (enc_len (batch_entry x)) > SIZE_MAX - acc
      \<longleftrightarrow> acc + length (enc (batch_entry x)) > SIZE_MAX"
    using Cons.prems(2) by (auto simp: length_enc)
  ultimately show ?case
    using Cons.IH [of "acc + length (enc (batch_entry x))"] Cons.prems
    unfolding BatchInsert_encodings.simps batch_encode Let_def case_prod_beta
    by (auto simp: length_enc add.assoc split: option.split)
qed simp

lemma BatchInsert_write_eq:
  assumes "length g = length (lp_body es)"
  shows "BatchInsert_write (pre @ g @ post) (length pre)
    (map (\<lambda>e. (enc_len e, enc e, BacklenBytes (enc_len e))) es) = Inr (pre @ lp_body es @ post)"
  using assms
proof (induction es arbitrary: g pre)
  case (Cons e es)
  let ?h = "take (length (enc e)) g" and ?t = "drop (length (enc e)) g"
  have g: "g = ?h @ ?t" by simp
  have "length ?h = length (enc e)" "length ?t = length (lp_body es)" using Cons.prems by auto
  then have "mem_copy (pre @ g @ post) (length pre) (enc e) = Inr ((pre @ enc e) @ ?t @ post)"
    by (subst g, subst append_assoc, subst mem_copy_append) auto
  with Cons.IH [of ?t "pre @ enc e"] \<open>length ?t = _\<close> show ?case
    by (simp add: length_enc add.assoc)
qed simp

lemma repr_BatchInsert:
  assumes r: "ListPack_repr lp es" and i: "i \<le> length es" and xs: "xs \<noteq> []" "list_all batch_ok xs"
  defines "es' \<equiv> take i es @ map batch_entry xs @ drop i es"
  shows "if lp_fits es'
    then \<exists>lp'. BatchInsert_at lp (lp_off es i) kInsertBefore xs = Inr (True, lp') \<and> ListPack_repr lp' es'
    else BatchInsert_at lp (lp_off es i) kInsertBefore xs = Inr (False, lp)"
proof -
  obtain n where n: "lp = lp_header (length lp) n @ lp_body (take i es) @ [] @ lp_body (drop i es) @ [255]"
    "count_ok n es" using repr_parts [OF r order_refl i] by auto
  let ?fs = "map batch_entry xs" and ?A = "lp_body (take i es)" and ?B = "lp_body (drop i es) @ [255]"
  let ?k = "length (lp_body ?fs)" and ?new = "7 + length (lp_body es')"
  let ?n = "if n \<noteq> 65535 then if length xs > 65535 - n then 65535 else n + length xs else n"
  have len: "length lp + ?k = ?new" "length lp = 6 + length ?A + length ?B"
    using arg_cong [OF n(1), of length] by (simp_all add: es'_def)
  have total: "ListPack_TotalBytes lp = Inr (length lp)" using r by (rule repr_TotalBytes)
  have lp: "length lp \<le> UINT32_MAX" using r by (simp add: ListPack_repr_def)
  have off: "lp_off es i = 6 + length ?A" by (simp add: lp_off_def)
  have idx: "\<not> (lp_off es i < 6 \<or> lp_off es i \<ge> length lp)" using repr_off_less [OF r i] lp_off_ge [of es i] by linarith
  have encs: "BatchInsert_encodings xs 0 = (if ?k \<le> SIZE_MAX
      then Some (map (\<lambda>e. (enc_len e, enc e, BacklenBytes (enc_len e))) ?fs, ?k) else None)"
    using BatchInsert_encodings_eq [OF xs(2), of 0] by (simp add: comp_def)
  show ?thesis
  proof (cases "lp_fits es'")
    case False
    then show ?thesis using encs idx total len lp xs(1)
      by (auto simp: BatchInsert_at_def lp_fits_def)
  next
    case True
    then have new: "?new \<le> UINT32_MAX" "?k \<le> SIZE_MAX" "\<not> ?k > UINT32_MAX - length lp"
      using len lp by (auto simp: lp_fits_def)
    obtain g t where "bindE (if ?new > length lp then Realloc lp ?new else Inr lp) (\<lambda>lp'.
        mem_move lp' (6 + length ?A + ?k) (6 + length ?A + length []) (length lp - (6 + length ?A) - length []))
        = Inr (lp_header (length lp) n @ ?A @ g @ ?B @ t)" "length g = ?k" "length t = length lp - ?new"
      using Insert_move [OF n(1) refl lp, of ?new ?k] len by (metis append_is_Nil_conv diff_zero
          list.distinct(1) list.size(3))
    moreover have "0 < ?k" using xs(1) by (cases xs) (auto simp: length_enc)
    then have "?new > length lp" using len(1) by linarith
    ultimately obtain lp1 where mv: "Realloc lp ?new = Inr lp1"
      "mem_move lp1 (lp_off es i + ?k) (lp_off es i) (length lp - lp_off es i)
        = Inr (lp_header (length lp) n @ ?A @ g @ ?B)" and g: "length g = ?k"
      by (auto simp: bindE_eq_Inr off)
    have cnt: "(if n \<noteq> 65535 then if length ?fs > 65535 - n
          then SetNumOfElements (lp_header (length lp) n @ ?A @ g @ ?B) 65535
          else SetNumOfElements (lp_header (length lp) n @ ?A @ g @ ?B) (n + length xs)
        else Inr (lp_header (length lp) n @ ?A @ g @ ?B)) = Inr (lp_header (length lp) ?n @ ?A @ g @ ?B)"
      by (simp add: SetNumOfElements_header)
    have wr: "BatchInsert_write (lp_header ?new ?n @ ?A @ g @ ?B) (lp_off es i)
        (map (\<lambda>e. (enc_len e, enc e, BacklenBytes (enc_len e))) ?fs)
        = Inr (lp_header ?new ?n @ ?A @ lp_body ?fs @ ?B)"
      using BatchInsert_write_eq [OF g, of "lp_header ?new ?n @ ?A" ?B] by (simp add: off)
    have "BatchInsert_at lp (lp_off es i) kInsertBefore xs
        = Inr (True, lp_header ?new ?n @ ?A @ lp_body ?fs @ ?B)"
    proof -
      have "ElementCount lp = Inr n" using n by (metis ElementCount_header count_ok_def)
      moreover have "length lp + ?k = ?new" by (rule len(1))
      moreover have "\<not> (?new > UINT32_MAX \<or> ?new < 7)" using new by simp
      moreover have "length (map (\<lambda>e. (enc_len e, enc e, BacklenBytes (enc_len e))) ?fs) = length ?fs" by simp
      moreover have "kInsertBefore \<noteq> kInsertAfter" by simp
      ultimately show ?thesis
        unfolding BatchInsert_at_def total bindE_Inr
        using xs(1) encs idx new(2,3) mv cnt wr
        by (simp only: Let_def option.case prod.case if_True if_False bindE_Inr SetTotalBytes_header)
    qed
    moreover have "ListPack_repr (lp_header ?new ?n @ lp_body es' @ [255]) es'"
    proof (rule repr_intro_header)
      show "count_ok ?n es'" using n(2) i by (auto simp: count_ok_def es'_def)
      show "list_all entry_ok es'"
        using r xs(2) batch_entry_ok unfolding ListPack_repr_def es'_def
        by (auto simp: list_all_iff dest: in_set_takeD in_set_dropD)
    qed (use new in auto)
    ultimately show ?thesis using True by (auto simp: es'_def)
  qed
qed


subsection \<open>Deleting the matches of a value\<close>

fun remove_first :: "('a \<Rightarrow> bool) \<Rightarrow> nat \<Rightarrow> 'a list \<Rightarrow> 'a list" where
  "remove_first P 0 xs = xs"
| "remove_first P n [] = []"
| "remove_first P (Suc n) (x # xs) =
     (if P x then remove_first P n xs else x # remove_first P (Suc n) xs)"

definition remove_last :: "('a \<Rightarrow> bool) \<Rightarrow> nat \<Rightarrow> 'a list \<Rightarrow> 'a list" where
  "remove_last P n xs = rev (remove_first P n (rev xs))"

lemma remove_first_Nil [simp]: "remove_first P n [] = []"
  by (cases n) simp_all

lemma remove_first_all: "length xs \<le> n \<Longrightarrow> remove_first P n xs = filter (\<lambda>x. \<not> P x) xs"
  by (induction P n xs rule: remove_first.induct) auto

fun remove_ranges :: "'a list \<Rightarrow> (nat \<times> nat) list \<Rightarrow> 'a list" where
  "remove_ranges xs [] = xs"
| "remove_ranges xs ((i, c) # rs) = remove_ranges (take i xs @ drop (i + c) xs) rs"

fun ranges_ok :: "nat \<Rightarrow> (nat \<times> nat) list \<Rightarrow> bool" where
  "ranges_ok b [] = True"
| "ranges_ok b ((i, c) # rs) = (0 < c \<and> i + c \<le> b \<and> ranges_ok i rs)"

lemma lp_off_cong: "take i es = take i fs \<Longrightarrow> lp_off es i = lp_off fs i"
  by (simp add: lp_off_def)

lemma DeleteRanges_repr:
  assumes "ListPack_repr lp fs" "ranges_ok b rs" "b \<le> length fs" "take b fs = take b es"
  shows "\<exists>lp'. DeleteRanges lp (map (\<lambda>(i, c). (lp_off es i, c)) rs) = Inr lp'
    \<and> ListPack_repr lp' (remove_ranges fs rs)"
  using assms
proof (induction rs arbitrary: lp fs b)
  case (Cons ic rs)
  obtain i c where ic: "ic = (i, c)" by fastforce
  with Cons.prems have c: "0 < c" "i + c \<le> b" "ranges_ok i rs" by auto
  have ti: "take i fs = take i es"
    using Cons.prems(4) c by (metis add_leE min.absorb1 take_take)
  have i: "i < length fs" using c Cons.prems(3) by simp
  obtain lp1 where lp1: "ListPack_DeleteRange lp (lp_off fs i) c = Inr (min c (length fs - i), lp1)"
    "ListPack_repr lp1 (take i fs @ drop (i + c) fs)" using repr_DeleteRange [OF Cons.prems(1) i] by blast
  have "take i (take i fs @ drop (i + c) fs) = take i fs" using i by simp
  then have "take i (take i fs @ drop (i + c) fs) = take i es" using ti by simp
  with Cons.IH [OF lp1(2) c(3)] i lp1(1) lp_off_cong [OF ti] show ?case by (simp add: ic)
qed simp

lemma length_remove_first: "length (remove_first P n xs) \<le> length xs"
  by (induction P n xs rule: remove_first.induct) auto

lemma ranges_ok_mono: "ranges_ok b rs \<Longrightarrow> b \<le> b' \<Longrightarrow> ranges_ok b' rs"
  by (cases rs) auto

lemma DeleteMatching_forward_repr:
  assumes r: "ListPack_repr lp es"
  shows "i \<le> length es \<Longrightarrow>
    N = (if limit = 0 then length es else limit) \<Longrightarrow> m < N \<or> i = length es \<Longrightarrow> (limit = 0 \<Longrightarrow> m \<le> i) \<Longrightarrow>
    ranges_ok i rs \<Longrightarrow> (\<And>ys. remove_ranges (take i es @ ys) rs = P @ ys) \<Longrightarrow>
    prev = (case rs of [] \<Rightarrow> None | (s, c) # _ \<Rightarrow> Some (lp_off es (s + c - 1))) \<Longrightarrow>
    \<exists>rs' m'. DeleteMatching_forward lp val limit (if i < length es then Some (lp_off es i) else None)
        (map (\<lambda>(i, c). (lp_off es i, c)) rs) m prev
      = Inr (map (\<lambda>(i, c). (lp_off es i, c)) rs', m')
    \<and> ranges_ok (length es) rs'
    \<and> remove_ranges es rs' = P @ remove_first (\<lambda>e. entry_str e = val) (N - m) (drop i es)
    \<and> m' = m + (length (drop i es)
         - length (remove_first (\<lambda>e. entry_str e = val) (N - m) (drop i es)))"
proof (induction "length es - i" arbitrary: i m rs P prev)
  case 0
  then have i: "i = length es" by simp
  then show ?case using 0(7)[of "[]"] 0 by (subst DeleteMatching_forward.simps) (auto intro!: exI[of _ rs])
next
  case (Suc n)
  then have i: "i < length es" "n = length es - Suc i" "Suc i \<le> length es" by simp_all
  then have m: "m < N" using Suc(5) by simp
  let ?off = "map (\<lambda>(i, c). (lp_off es i, c))"
  have d: "drop i es = es ! i # drop (Suc i) es" and N: "N - m = Suc (N - Suc m)"
    using i m by (simp_all add: Cons_nth_drop_Suc)
  have tk: "take (Suc i) es @ ys = take i es @ es ! i # ys" for ys
    using i(1) by (simp add: take_Suc_conv_app_nth)
  note G = repr_Get [OF r, of i] and NX = repr_Next [OF r i(1)]
  note len = length_remove_first [of "\<lambda>e. entry_str e = val" "N - Suc m" "drop (Suc i) es"]
  show ?case
  proof (cases "entry_str (es ! i) = val")
    case False
    have IH: "\<exists>rs' m'. DeleteMatching_forward lp val limit
        (if Suc i < length es then Some (lp_off es (Suc i)) else None) (?off rs) m prev
        = Inr (?off rs', m') \<and> ranges_ok (length es) rs'
      \<and> remove_ranges es rs' = (P @ [es ! i]) @ remove_first (\<lambda>e. entry_str e = val) (N - m) (drop (Suc i) es)
      \<and> m' = m + (length (drop (Suc i) es)
          - length (remove_first (\<lambda>e. entry_str e = val) (N - m) (drop (Suc i) es)))"
      by (rule Suc(1) [OF i(2,3) Suc(4)])
        (use m Suc(6-9) in \<open>auto simp: tk intro: ranges_ok_mono\<close>)
    with False i(1) G NX N show ?thesis
      by (subst DeleteMatching_forward.simps) (simp add: d)
  next
    case True
    define rs1 where "rs1 = (case rs of (s, c) # rs0 \<Rightarrow> if s + c = i then (s, c + 1) # rs0 else (i, 1) # rs
      | [] \<Rightarrow> [(i, 1)])"
    have rs1: "(case ?off rs of (start, count) # ro \<Rightarrow>
          if prev \<noteq> None \<and> nx = Some (lp_off es i) then (start, count + 1) # ro
          else (lp_off es i, 1) # ?off rs | [] \<Rightarrow> [(lp_off es i, 1)]) = ?off rs1"
      if "case prev of None \<Rightarrow> nx = None | Some p \<Rightarrow> ListPack_Next lp p = Inr nx" for nx
    proof (cases rs)
      case (Cons sc rs0)
      obtain s c where sc: "sc = (s, c)" by fastforce
      with Cons Suc(7) have "0 < c" "s + c \<le> i" by auto
      then have "ListPack_Next lp (lp_off es (s + c - 1)) = Inr (Some (lp_off es (s + c)))"
        using repr_Next [OF r, of "s + c - 1"] i(1) by simp
      then show ?thesis using that Cons sc Suc(9) \<open>s + c \<le> i\<close> i(1) by (auto simp: rs1_def)
    qed (simp add: rs1_def)
    have ok1: "ranges_ok (Suc i) rs1"
      using Suc(7) by (auto simp: rs1_def split: list.splits intro: ranges_ok_mono)
    have rem1: "remove_ranges (take (Suc i) es @ ys) rs1 = P @ ys" for ys
      using Suc(7) Suc(8) [of ys] i(1)
      by (auto simp: rs1_def take_Suc_conv_app_nth min_def split: list.splits)
    have prev1: "Some (lp_off es i) = (case rs1 of [] \<Rightarrow> None | (s, c) # _ \<Rightarrow> Some (lp_off es (s + c - 1)))"
      by (auto simp: rs1_def split: list.split)
    have "\<exists>nx. (case prev of None \<Rightarrow> Inr None | Some p \<Rightarrow> ListPack_Next lp p) = Inr nx
        \<and> (case prev of None \<Rightarrow> nx = None | Some p \<Rightarrow> ListPack_Next lp p = Inr nx)"
    proof (cases rs)
      case (Cons sc rs0)
      with Suc(7,9) show ?thesis
        using repr_Next [OF r, of "fst sc + snd sc - 1"] i(1) by (cases sc) auto
    qed (use Suc(9) in simp)
    then obtain nx where nx: "(case prev of None \<Rightarrow> Inr None | Some p \<Rightarrow> ListPack_Next lp p) = Inr nx"
      "case prev of None \<Rightarrow> nx = None | Some p \<Rightarrow> ListPack_Next lp p = Inr nx" by blast
    have step: "DeleteMatching_forward lp val limit (if i < length es then Some (lp_off es i) else None)
        (?off rs) m prev = (if limit \<noteq> 0 \<and> m + 1 = limit then Inr (?off rs1, m + 1)
          else DeleteMatching_forward lp val limit
            (if Suc i < length es then Some (lp_off es (Suc i)) else None) (?off rs1) (m + 1) (Some (lp_off es i)))"
      using True i(1) G NX nx(1) rs1 [OF nx(2)]
      by (subst DeleteMatching_forward.simps) (simp add: Let_def)
    show ?thesis
    proof (cases "limit \<noteq> 0 \<and> m + 1 = limit")
      case lim: True
      then show ?thesis
        using step ok1 rem1 [of "drop (Suc i) es"] Suc(4) True i(3)
        by (intro exI [of _ rs1] exI [of _ "m + 1"]) (auto simp: d intro: ranges_ok_mono)
    next
      case lim: False
      have "\<exists>rs' m'. DeleteMatching_forward lp val limit
          (if Suc i < length es then Some (lp_off es (Suc i)) else None) (?off rs1) (Suc m) (Some (lp_off es i))
          = Inr (?off rs', m') \<and> ranges_ok (length es) rs'
        \<and> remove_ranges es rs' = P @ remove_first (\<lambda>e. entry_str e = val) (N - Suc m) (drop (Suc i) es)
        \<and> m' = Suc m + (length (drop (Suc i) es)
            - length (remove_first (\<lambda>e. entry_str e = val) (N - Suc m) (drop (Suc i) es)))"
      proof (rule Suc(1) [OF i(2,3) Suc(4)])
        show "Suc m < N \<or> Suc i = length es"
          using lim m Suc(4,6) i(3) by (cases "limit = 0") auto
        show "Suc m \<le> Suc i" if "limit = 0" using Suc(6) that by simp
      qed (fact ok1 rem1 prev1)+
      then obtain rs' m' where o: "DeleteMatching_forward lp val limit
          (if Suc i < length es then Some (lp_off es (Suc i)) else None) (?off rs1) (Suc m) (Some (lp_off es i))
          = Inr (?off rs', m')" "ranges_ok (length es) rs'"
        "remove_ranges es rs' = P @ remove_first (\<lambda>e. entry_str e = val) (N - Suc m) (drop (Suc i) es)"
        "m' = Suc m + (length (drop (Suc i) es)
            - length (remove_first (\<lambda>e. entry_str e = val) (N - Suc m) (drop (Suc i) es)))"
        by blast
      have rf: "remove_first (\<lambda>e. entry_str e = val) (N - m) (drop i es)
          = remove_first (\<lambda>e. entry_str e = val) (N - Suc m) (drop (Suc i) es)"
        using True by (simp add: d N)
      show ?thesis
        unfolding rf step using o lim len i(1)
        by (intro exI [of _ rs'] exI [of _ m']) auto
    qed
  qed
qed


lemma remove_ranges_append: "remove_ranges xs (rs @ rs') = remove_ranges (remove_ranges xs rs) rs'"
  by (induction xs rs rule: remove_ranges.induct) auto

lemma ranges_ok_singles:
  "ranges_ok b (map (\<lambda>j. (j, 1)) js) \<longleftrightarrow> sorted_wrt (>) js \<and> (\<forall>j\<in>set js. j < b)"
  by (induction js arbitrary: b) fastforce+

lemma DeleteMatching_backward_repr:
  assumes r: "ListPack_repr lp es"
  shows "k \<le> length es \<Longrightarrow> length js \<le> limit \<Longrightarrow> sorted_wrt (>) js \<Longrightarrow> \<forall>j\<in>set js. k \<le> j \<and> j < length es \<Longrightarrow>
    remove_ranges es (map (\<lambda>j. (j, 1)) js) = take k es @ S \<Longrightarrow>
    \<exists>js'. DeleteMatching_backward lp val limit (if k = 0 then None else Some (lp_off es (k - 1)))
        (map (lp_off es) js) = Inr (map (lp_off es) js')
      \<and> sorted_wrt (>) js' \<and> (\<forall>j\<in>set js'. j < length es)
      \<and> remove_ranges es (map (\<lambda>j. (j, 1)) js')
          = remove_last (\<lambda>e. entry_str e = val) (limit - length js) (take k es) @ S
      \<and> length js' = length js + (k
          - length (remove_last (\<lambda>e. entry_str e = val) (limit - length js) (take k es)))"
proof (induction k arbitrary: js S)
  case 0
  then show ?case
    by (subst DeleteMatching_backward.simps) (auto simp: remove_last_def intro!: exI [of _ js])
next
  case (Suc k)
  then have k: "k < length es" by simp
  have tk: "take (Suc k) es = take k es @ [es ! k]" using k by (rule take_Suc_conv_app_nth)
  have rl: "remove_last P (Suc n) (take (Suc k) es) = (if P (es ! k) then remove_last P n (take k es)
      else remove_last P (Suc n) (take k es) @ [es ! k])" for P n
    by (simp add: tk remove_last_def)
  have G: "ListPack_Get lp (lp_off es k) = Inr (Some (entry_str (es ! k)))" using repr_Get [OF r] k by simp
  have PV: "ListPack_Prev lp (lp_off es k) = Inr (if k = 0 then None else Some (lp_off es (k - 1)))"
    using repr_Prev [OF r] k by simp
  show ?case
  proof (cases "length js \<ge> limit")
    case True
    then show ?thesis using Suc.prems
      by (subst DeleteMatching_backward.simps) (auto simp: remove_last_def intro!: exI [of _ js])
  next
    case False
    define js1 where "js1 = (if entry_str (es ! k) = val then js @ [k] else js)"
    define S1 where "S1 = (if entry_str (es ! k) = val then S else es ! k # S)"
    have step: "DeleteMatching_backward lp val limit (if Suc k = 0 then None else Some (lp_off es (Suc k - 1)))
        (map (lp_off es) js) = DeleteMatching_backward lp val limit
        (if k = 0 then None else Some (lp_off es (k - 1))) (map (lp_off es) js1)"
      using False G PV by (subst DeleteMatching_backward.simps) (simp add: js1_def)
    have "\<exists>js'. DeleteMatching_backward lp val limit (if k = 0 then None else Some (lp_off es (k - 1)))
        (map (lp_off es) js1) = Inr (map (lp_off es) js')
      \<and> sorted_wrt (>) js' \<and> (\<forall>j\<in>set js'. j < length es)
      \<and> remove_ranges es (map (\<lambda>j. (j, 1)) js')
          = remove_last (\<lambda>e. entry_str e = val) (limit - length js1) (take k es) @ S1
      \<and> length js' = length js1 + (k
          - length (remove_last (\<lambda>e. entry_str e = val) (limit - length js1) (take k es)))"
    proof (rule Suc.IH)
      show "sorted_wrt (>) js1" using Suc.prems by (auto simp: js1_def sorted_wrt_append)
      show "\<forall>j\<in>set js1. k \<le> j \<and> j < length es" using Suc.prems k by (auto simp: js1_def)
      show "remove_ranges es (map (\<lambda>j. (j, 1)) js1) = take k es @ S1"
        using Suc.prems k by (simp add: js1_def S1_def remove_ranges_append tk)
    qed (use k False in \<open>auto simp: js1_def\<close>)
    moreover have "limit - length js = Suc (limit - Suc (length js))" using False by simp
    moreover have "length (remove_last (\<lambda>e. entry_str e = val) (limit - length js1) (take k es)) \<le> k"
      using length_remove_first [of _ _ "rev (take k es)"] k by (simp add: remove_last_def min_def)
    ultimately show ?thesis unfolding step
      by (auto simp: js1_def S1_def rl Suc_diff_le split: if_splits)
  qed
qed

text \<open>The specification of \<open>DeleteMatching\<close>: at most \<open>limit\<close> matches, all of them when it is 0.\<close>

definition remove_matching :: "string \<Rightarrow> nat \<Rightarrow> bool \<Rightarrow> lp_entry list \<Rightarrow> lp_entry list" where
  "remove_matching val limit from_tail es =
     (if limit = 0 then filter (\<lambda>e. entry_str e \<noteq> val) es
      else if from_tail then remove_last (\<lambda>e. entry_str e = val) limit es
      else remove_first (\<lambda>e. entry_str e = val) limit es)"

lemma repr_DeleteMatching:
  assumes r: "ListPack_repr lp es"
  shows "\<exists>lp'. ListPack_DeleteMatching lp val limit from_tail
      = Inr (length es - length (remove_matching val limit from_tail es), lp')
    \<and> ListPack_repr lp' (remove_matching val limit from_tail es)"
proof (cases "from_tail \<and> limit \<noteq> 0")
  case True
  have "ListPack_Last lp = Inr (if length es = 0 then None else Some (lp_off es (length es - 1)))"
    using repr_Last [OF r] by simp
  moreover obtain js where js0: "DeleteMatching_backward lp val limit
      (if length es = 0 then None else Some (lp_off es (length es - 1))) [] = Inr (map (lp_off es) js)"
    "sorted_wrt (>) js \<and> (\<forall>j\<in>set js. j < length es)"
    "remove_ranges es (map (\<lambda>j. (j, 1)) js) = remove_last (\<lambda>e. entry_str e = val) limit es"
    "length js = length es - length (remove_last (\<lambda>e. entry_str e = val) limit es)"
    using DeleteMatching_backward_repr [OF r order_refl, of "[]" limit "[]" val] by auto
  ultimately have js: "bindE (ListPack_Last lp) (\<lambda>i. DeleteMatching_backward lp val limit i [])
      = Inr (map (lp_off es) js)" "ranges_ok (length es) (map (\<lambda>j. (j, 1)) js)"
    "remove_ranges es (map (\<lambda>j. (j, 1)) js) = remove_matching val limit from_tail es"
    "length js = length es - length (remove_matching val limit from_tail es)"
    using True unfolding ranges_ok_singles by (simp_all add: remove_matching_def)
  have "map (\<lambda>m. (m, 1)) (map (lp_off es) js) = map (\<lambda>(i, c). (lp_off es i, c)) (map (\<lambda>j. (j, 1)) js)"
    by simp
  with DeleteRanges_repr [OF r js(2) order_refl refl] js True show ?thesis
    by (auto simp: ListPack_DeleteMatching_def bindE_eq_Inr comp_def)
next
  case False
  let ?N = "if limit = 0 then length es else limit"
  have spec: "remove_first (\<lambda>e. entry_str e = val) ?N es = remove_matching val limit from_tail es"
    using False by (auto simp: remove_matching_def remove_first_all)
  obtain rs m where rs: "bindE (ListPack_First lp) (\<lambda>i. DeleteMatching_forward lp val limit i [] 0 None)
      = Inr (map (\<lambda>(i, c). (lp_off es i, c)) rs, m)" "ranges_ok (length es) rs"
    "remove_ranges es rs = remove_matching val limit from_tail es"
    "m = length es - length (remove_matching val limit from_tail es)"
  proof -
    obtain rs m where "DeleteMatching_forward lp val limit
        (if 0 < length es then Some (lp_off es 0) else None) [] 0 None
        = Inr (map (\<lambda>(i, c). (lp_off es i, c)) rs, m)" "ranges_ok (length es) rs"
      "remove_ranges es rs = remove_first (\<lambda>e. entry_str e = val) ?N es"
      "m = length es - length (remove_first (\<lambda>e. entry_str e = val) ?N es)"
      using DeleteMatching_forward_repr [OF r _ refl, of 0 0 limit "[]" "[]" None val] by fastforce
    then show ?thesis using repr_First [OF r] unfolding spec by (intro that [of rs m]) auto
  qed
  with DeleteRanges_repr [OF r rs(2) order_refl refl] False show ?thesis
    by (auto simp: ListPack_DeleteMatching_def bindE_eq_Inr)
qed

lemma repr_new: "\<exists>lp. ListPack_new = Inr lp \<and> ListPack_repr lp []"
proof -
  have "ListPack_new = Inr (lp_header 7 0 @ lp_body [] @ [255])"
    by (simp add: ListPack_new_def SetTotalBytes_def SetNumOfElements_def mem_copy_def lp_header_def
        numeral_eq_Suc)
  moreover have "ListPack_repr (lp_header 7 0 @ lp_body [] @ [255]) []"
    by (rule repr_intro_header) (simp_all add: count_ok_def)
  ultimately show ?thesis by blast
qed

section \<open>Properties\<close>

text \<open>Two small listpacks: the empty one, and one that holds the integer 5.\<close>

lemma repr_empty: "ListPack_repr [0, 0, 0, 7, 0, 0, 255] []"
  using repr_intro_header [of 0 "[]" 7] by (simp add: count_ok_def lp_header_def)

lemma enc_five: "enc (LInt 5) = [5, 1]"
  by (simp add: encode_LInt entry_type.simps EncodeBacklen_def BacklenBytes_def bits_arith)

lemma repr_five: "ListPack_repr [0, 0, 0, 9, 0, 1, 5, 1, 255] [LInt 5]"
proof -
  have "lp_header 9 1 @ lp_body [LInt 5] @ [255] = [0, 0, 0, 9, 0, 1, 5, 1, 255]"
    by (simp add: lp_header_def enc_five)
  moreover have "ListPack_repr (lp_header 9 1 @ lp_body [LInt 5] @ [255]) [LInt 5]"
    by (rule repr_intro_header) (simp_all add: count_ok_def enc_five is_int64_def)
  ultimately show ?thesis by (simp only:)
qed

lemma fits_short: "length s < 1000 \<Longrightarrow> lp_fits [entry_of s]"
  using length_enc_entry_of [of s] by (simp add: lp_fits_def)

text \<open>
  C4: Insertion.  On a well-formed listpack \<open>Insert\<close> never leaves the array; it puts the value
  at the offset of the \<open>i\<close>-th entry and shifts the others, keeps the listpack well-formed, and
  the value can be read back; when the result would not fit 32 bits it changes nothing and
  returns false.
\<close>

theorem ListPack_Insert_refines:
  assumes "ListPack_repr lp es" "i \<le> length es" "length s < 2 ^ 31"
  shows "let es' = take i es @ entry_of s # drop i es in
    if lp_fits es'
    then \<exists>lp'. ListPack_Insert lp (lp_off es i) s = Inr (True, lp') \<and> ListPack_repr lp' es'
      \<and> ListPack_Get lp' (lp_off es i) = Inr (Some s)
    else ListPack_Insert lp (lp_off es i) s = Inr (False, lp)"
proof -
  let ?es' = "take i es @ entry_of s # drop i es"
  have "lp_off ?es' i = lp_off es i" using assms(2) by (simp add: lp_off_def)
  moreover have "?es' ! i = entry_of s" using assms(2) by (simp add: nth_append)
  moreover have "i < length ?es'" using assms(2) by simp
  ultimately have "ListPack_Get lp' (lp_off es i) = Inr (Some s)" if "ListPack_repr lp' ?es'" for lp'
    using repr_Get [OF that, of i] by simp
  then show ?thesis
    using repr_Insert_before [OF assms(1,2) element_str [OF assms(3)]]
    unfolding ListPack_Insert_def Let_def by (auto split: if_splits)
qed

theorem ListPack_Insert_refines_witness:
  "\<exists>lp'. ListPack_Insert [0, 0, 0, 7, 0, 0, 255] 6 ''42'' = Inr (True, lp')
    \<and> ListPack_Get lp' 6 = Inr (Some ''42'')"
proof -
  have "lp_fits (take 0 [] @ entry_of ''42'' # drop 0 [])" using fits_short [of "''42''"] by simp
  then show ?thesis
    using ListPack_Insert_refines [OF repr_empty, of 0 "''42''"] by (auto simp: Let_def)
qed

text \<open>
  Replacement keeps the other entries and the count, in place, whether the new encoding is
  longer or shorter than the old one.
\<close>

theorem ListPack_Replace_refines:
  assumes "ListPack_repr lp es" "i < length es" "length s < 2 ^ 31"
  shows "if lp_fits (es[i := entry_of s])
    then \<exists>lp'. ListPack_Replace lp (lp_off es i) s = Inr (True, lp')
      \<and> ListPack_repr lp' (es[i := entry_of s])
    else ListPack_Replace lp (lp_off es i) s = Inr (False, lp)"
  using repr_Insert_replace [OF assms(1,2) element_str [OF assms(3)]]
  by (simp add: ListPack_Replace_def)

theorem ListPack_Replace_refines_witness:
  "\<exists>lp'. ListPack_Replace [0, 0, 0, 9, 0, 1, 5, 1, 255] 6 ''abc'' = Inr (True, lp')
    \<and> ListPack_repr lp' [entry_of ''abc'']"
  using ListPack_Replace_refines [OF repr_five, of 0 "''abc''"] fits_short [of "''abc''"]
  by simp

text \<open>
  A batch is inserted in order in one move, or not at all when it does not fit.
\<close>

theorem ListPack_BatchInsert_refines:
  assumes "ListPack_repr lp es" "i \<le> length es" "xs \<noteq> []" "list_all batch_ok xs"
  shows "let es' = take i es @ map batch_entry xs @ drop i es in
    if lp_fits es'
    then \<exists>lp'. ListPack_BatchInsert lp (lp_off es i) xs = Inr (True, lp') \<and> ListPack_repr lp' es'
    else ListPack_BatchInsert lp (lp_off es i) xs = Inr (False, lp)"
  using repr_BatchInsert [OF assms] by (simp add: ListPack_BatchInsert_def Let_def)

theorem ListPack_BatchInsert_refines_witness:
  "\<exists>lp'. ListPack_BatchInsert [0, 0, 0, 7, 0, 0, 255] 6
      [\<lparr>le_str = ''abc'', le_sval = 0, le_is_integer = False\<rparr>] = Inr (True, lp')
    \<and> ListPack_repr lp' [entry_of ''abc'']"
  using ListPack_BatchInsert_refines [OF repr_empty, of 0
      "[\<lparr>le_str = ''abc'', le_sval = 0, le_is_integer = False\<rparr>]"] fits_short [of "''abc''"]
  by (simp add: batch_ok_def batch_entry_def)



text \<open>
  The traversals visit the entries of the inclusive range in order, and in reverse order,
  until the visitor stops them.
\<close>

theorem ListPack_ForEach_refines:
  assumes "ListPack_repr lp es"
  shows "ListPack_ForEach lp start stop f s = Inr (visit f (entry_range es start stop) s)
    \<and> ListPack_ForEachReverse lp start stop f s = Inr (visit f (rev (entry_range es start stop)) s)"
  using assms by (simp add: repr_ForEach repr_ForEachReverse)

theorem ListPack_ForEach_refines_witness:
  "ListPack_ForEach [0, 0, 0, 9, 0, 1, 5, 1, 255] 0 3 (\<lambda>x s. (True, s @ [x])) []
    = Inr (True, [dec_int 5])"
  using ListPack_ForEach_refines [OF repr_five, of 0 3 "\<lambda>x s. (True, s @ [x])" "[]"]
  by (simp add: entry_range_def)

end
