(* ===== verification/Dict.thy ===== *)
theory Dict
  imports Prelude
begin

unbundle bit_operations_syntax

text \<open>
  The class \<open>Dict\<close> (\<open>src/memory/dict.h\<close>): a chained hash table that grows by moving one bucket
  per operation into a second table.  A chain of \<open>DictEntry\<close> nodes is the list of its entries,
  the head first.  The hash function is a parameter: the sources use \<open>std::hash\<close>, whose values
  they do not rely on.  The hooks of \<open>DictType\<close> other than the hash function are never set by
  the sources and are left out (keys are compared with \<open>==\<close>, keys and values are stored as
  given).
\<close>

section \<open>Definitions\<close>

record ('k, 'v) dict_entry =
  de_key :: 'k
  de_val :: 'v
  de_hash :: nat

text \<open>The three arrays \<open>tables_\<close>, \<open>table_used_\<close> and \<open>table_size_exp_\<close>, by table.\<close>

record ('k, 'v) table =
  buckets :: "('k, 'v) dict_entry list list"
  used :: nat
  size_exp :: int

record ('k, 'v) dict =
  ht0 :: "('k, 'v) table"
  ht1 :: "('k, 'v) table"
  rehash_idx :: "nat option"
  pause_rehash :: nat

definition Reset :: "('k, 'v) table" where
  "Reset = \<lparr>buckets = [], used = 0, size_exp = -1\<rparr>"

definition Dict_init :: "('k, 'v) dict" where
  "Dict_init = \<lparr>ht0 = Reset, ht1 = Reset, rehash_idx = None, pause_rehash = 0\<rparr>"

definition TableSize :: "int \<Rightarrow> nat" where
  "TableSize exp = (if exp < 0 \<or> exp \<ge> 64 then 0 else push_bit (nat exp) 1)"

definition IsRehashing :: "('k, 'v) dict \<Rightarrow> bool" where
  "IsRehashing d = (rehash_idx d \<noteq> None)"

definition TableMask :: "('k, 'v) table \<Rightarrow> nat" where
  "TableMask h = (if size_exp h = -1 then 0 else push_bit (nat (size_exp h)) 1 - 1)"

definition HashIndex :: "('k, 'v) table \<Rightarrow> nat \<Rightarrow> nat" where
  "HashIndex h hash = hash AND TableMask h"

text \<open>The loop of \<open>NextExp\<close>; its first argument bounds the doublings of a 64 bit size.\<close>

fun NextExp_loop :: "nat \<Rightarrow> nat \<Rightarrow> nat \<Rightarrow> int \<Rightarrow> int" where
  "NextExp_loop 0 sz table_size exponent = exponent"
| "NextExp_loop (Suc k) sz table_size exponent =
     (if table_size < sz then
        if table_size > SIZE_MAX div 2 then -1
        else NextExp_loop k sz (table_size * 2) (exponent + 1)
      else exponent)"

definition NextExp :: "nat \<Rightarrow> int" where
  "NextExp sz = NextExp_loop 64 sz 2 1"

definition InitializeTableWithSize :: "int \<Rightarrow> nat \<Rightarrow> ('k, 'v) table" where
  "InitializeTableWithSize exp sz = \<lparr>buckets = replicate sz [], used = 0, size_exp = exp\<rparr>"

definition Dict_Expand :: "('k, 'v) dict \<Rightarrow> nat \<Rightarrow> bool \<times> ('k, 'v) dict" where
  "Dict_Expand d sz =
     (if IsRehashing d \<or> sz < used (ht0 d) then (False, d)
      else let new_exp = NextExp sz in
        if new_exp < 0 then (False, d)
        else if new_exp \<le> size_exp (ht0 d) then (False, d)
        else let new_size = TableSize new_exp in
          if new_size < sz \<or> new_size > SIZE_MAX div 8 then (False, d)
          else if size_exp (ht0 d) < 0
          then (True, d\<lparr>ht0 := InitializeTableWithSize new_exp new_size, rehash_idx := None\<rparr>)
          else (True, d\<lparr>ht1 := InitializeTableWithSize new_exp new_size, rehash_idx := Some 0\<rparr>))"

definition Dict_Create :: "nat \<Rightarrow> ('k, 'v) dict option" where
  "Dict_Create capacity = (case Dict_Expand Dict_init capacity of
     (ok, d) \<Rightarrow> if \<not> ok then None else Some d)"

text \<open>The load factor test compares \<open>used / size \<ge> 2.0\<close> on doubles, which is exact below
  \<open>2^53\<close> entries.\<close>

definition ExpandIfNeeded :: "('k, 'v) dict \<Rightarrow> ('k, 'v) dict" where
  "ExpandIfNeeded d = (let table_size = TableSize (size_exp (ht0 d)) in
     if table_size = 0 \<or> used (ht0 d) \<ge> 2 * table_size
     then snd (Dict_Expand d (used (ht0 d) + 1)) else d)"

definition InsertEntry :: "('k, 'v) dict_entry \<Rightarrow> ('k, 'v) table \<Rightarrow> ('k, 'v) table" where
  "InsertEntry e h = (let i = HashIndex h (de_hash e) in
     h\<lparr>buckets := (buckets h)[i := e # buckets h ! i], used := used h + 1\<rparr>)"

text \<open>
  \<open>UnlinkEntry\<close> on a chain whose head is the entry (\<open>prev\<close> is null).
\<close>

definition UnlinkHead :: "('k, 'v) dict_entry \<Rightarrow> ('k, 'v) table \<Rightarrow> ('k, 'v) table" where
  "UnlinkHead e h = (let i = HashIndex h (de_hash e) in
     h\<lparr>buckets := (buckets h)[i := tl (buckets h ! i)], used := used h - 1\<rparr>)"

definition MigrateRehashedTable :: "('k, 'v) dict \<Rightarrow> ('k, 'v) dict" where
  "MigrateRehashedTable d = d\<lparr>ht0 := ht1 d, ht1 := Reset, rehash_idx := None\<rparr>"

text \<open>Moving the entries of one chain.\<close>

fun Rehash_chain :: "('k, 'v) dict_entry list \<Rightarrow> ('k, 'v) dict \<Rightarrow> ('k, 'v) dict" where
  "Rehash_chain [] d = d"
| "Rehash_chain (e # es) d =
     Rehash_chain es (d\<lparr>ht0 := UnlinkHead e (ht0 d), ht1 := InsertEntry e (ht1 d)\<rparr>)"

text \<open>
  The loop of \<open>Rehash\<close>; \<open>n\<close> and \<open>empty_visit\<close> count the bucket migrations and the empty
  buckets still allowed.
\<close>

function Rehash_loop :: "nat \<Rightarrow> nat \<Rightarrow> nat \<Rightarrow> ('k, 'v) dict \<Rightarrow> ('k, 'v) dict" where
  "Rehash_loop n empty_visit dict_size d = (case rehash_idx d of None \<Rightarrow> d
     | Some r \<Rightarrow>
       if n > 0 \<and> r < dict_size \<and> used (ht0 d) > 0 \<and> empty_visit > 0 then
         if buckets (ht0 d) ! r = []
         then Rehash_loop n (empty_visit - 1) dict_size (d\<lparr>rehash_idx := Some (r + 1)\<rparr>)
         else Rehash_loop (n - 1) empty_visit dict_size
           ((Rehash_chain (buckets (ht0 d) ! r) d)
             \<lparr>ht0 := (ht0 (Rehash_chain (buckets (ht0 d) ! r) d))
                \<lparr>buckets := (buckets (ht0 (Rehash_chain (buckets (ht0 d) ! r) d)))[r := []]\<rparr>,
              rehash_idx := Some (r + 1)\<rparr>)
       else d)"
  by auto
termination
  by (relation "measure (\<lambda>(n, e, s, d). n + e)") auto

declare Rehash_loop.simps [simp del]

definition Rehash :: "nat \<Rightarrow> ('k, 'v) dict \<Rightarrow> bool \<times> ('k, 'v) dict" where
  "Rehash n d =
     (if \<not> IsRehashing d then (False, d)
      else let d = Rehash_loop n (n * 10) (TableSize (size_exp (ht0 d))) d in
        if used (ht0 d) = 0 then (False, MigrateRehashedTable d) else (True, d))"

definition RehashStepIfNeeded :: "('k, 'v) dict \<Rightarrow> ('k, 'v) dict" where
  "RehashStepIfNeeded d = (if pause_rehash d = 0 then snd (Rehash 1 d) else d)"

text \<open>
  The loop over the two tables that \<open>FindEntry\<close>, \<open>KeyIndex\<close> and \<open>Unlink\<close> share: the chain of
  table 0 is searched first, table 1 only while rehashing.  \<open>Some i\<close> is the table where the
  entry is.
\<close>

definition chain_of :: "('k, 'v) table \<Rightarrow> nat \<Rightarrow> ('k, 'v) dict_entry list" where
  "chain_of h hash = (if buckets h = [] then [] else buckets h ! HashIndex h hash)"

definition entry_matches :: "nat \<Rightarrow> 'k \<Rightarrow> ('k, 'v) dict_entry \<Rightarrow> bool" where
  "entry_matches hash key e = (de_hash e = hash \<and> key = de_key e)"

definition find_entry :: "('k, 'v) dict \<Rightarrow> nat \<Rightarrow> 'k \<Rightarrow> ('k, 'v) dict_entry option" where
  "find_entry d hash key =
     (case find (entry_matches hash key) (chain_of (ht0 d) hash) of
        Some e \<Rightarrow> Some e
      | None \<Rightarrow> if IsRehashing d then find (entry_matches hash key) (chain_of (ht1 d) hash)
          else None)"

definition FindEntry :: "('k \<Rightarrow> nat) \<Rightarrow> ('k, 'v) dict \<Rightarrow> 'k
    \<Rightarrow> ('k, 'v) dict_entry option \<times> ('k, 'v) dict" where
  "FindEntry hf d key = (let d = RehashStepIfNeeded d in (find_entry d (hf key) key, d))"

definition Dict_Get :: "('k \<Rightarrow> nat) \<Rightarrow> ('k, 'v) dict \<Rightarrow> 'k \<Rightarrow> 'v option \<times> ('k, 'v) dict" where
  "Dict_Get hf d key = (case FindEntry hf d key of (e, d) \<Rightarrow> (map_option de_val e, d))"

text \<open>Storing a value through the pointer \<open>FindValue\<close> returns.\<close>

fun chain_set_val :: "nat \<Rightarrow> 'k \<Rightarrow> 'v \<Rightarrow> ('k, 'v) dict_entry list \<Rightarrow> ('k, 'v) dict_entry list" where
  "chain_set_val hash key v [] = []"
| "chain_set_val hash key v (e # es) =
     (if entry_matches hash key e then e\<lparr>de_val := v\<rparr> # es else e # chain_set_val hash key v es)"

definition table_set_val :: "nat \<Rightarrow> 'k \<Rightarrow> 'v \<Rightarrow> ('k, 'v) table \<Rightarrow> ('k, 'v) table" where
  "table_set_val hash key v h = (let i = HashIndex h hash in
     h\<lparr>buckets := (buckets h)[i := chain_set_val hash key v (buckets h ! i)]\<rparr>)"

definition SetVal_existing :: "('k, 'v) dict \<Rightarrow> nat \<Rightarrow> 'k \<Rightarrow> 'v \<Rightarrow> ('k, 'v) dict" where
  "SetVal_existing d hash key v =
     (if find (entry_matches hash key) (chain_of (ht0 d) hash) \<noteq> None
      then d\<lparr>ht0 := table_set_val hash key v (ht0 d)\<rparr>
      else d\<lparr>ht1 := table_set_val hash key v (ht1 d)\<rparr>)"

text \<open>
  \<open>InsertRaw\<close>: whether a new entry was linked.  The value is stored by the caller right after,
  so the entry is linked with it.
\<close>

definition InsertRaw :: "('k \<Rightarrow> nat) \<Rightarrow> ('k, 'v) dict \<Rightarrow> 'k \<Rightarrow> 'v \<Rightarrow> bool \<times> ('k, 'v) dict" where
  "InsertRaw hf d key v =
     (let d = RehashStepIfNeeded (ExpandIfNeeded d); hash = hf key in
      case find_entry d hash key of
        Some _ \<Rightarrow> (False, d)
      | None \<Rightarrow>
          let e = \<lparr>de_key = key, de_val = v, de_hash = hash\<rparr> in
          (True, if IsRehashing d then d\<lparr>ht1 := InsertEntry e (ht1 d)\<rparr>
                 else d\<lparr>ht0 := InsertEntry e (ht0 d)\<rparr>))"

definition Dict_Set :: "('k \<Rightarrow> nat) \<Rightarrow> ('k, 'v) dict \<Rightarrow> 'k \<Rightarrow> 'v \<Rightarrow> ('k, 'v) dict" where
  "Dict_Set hf d key v = (case InsertRaw hf d key v of
     (True, d) \<Rightarrow> d | (False, d) \<Rightarrow> SetVal_existing d (hf key) key v)"

definition Dict_Insert :: "('k \<Rightarrow> nat) \<Rightarrow> ('k, 'v) dict \<Rightarrow> 'k \<Rightarrow> 'v \<Rightarrow> bool \<times> ('k, 'v) dict" where
  "Dict_Insert hf d key v = InsertRaw hf d key v"

text \<open>Unlinking the first match of a chain.\<close>

fun chain_unlink :: "nat \<Rightarrow> 'k \<Rightarrow> ('k, 'v) dict_entry list \<Rightarrow> ('k, 'v) dict_entry list" where
  "chain_unlink hash key [] = []"
| "chain_unlink hash key (e # es) =
     (if entry_matches hash key e then es else e # chain_unlink hash key es)"

definition UnlinkEntry :: "nat \<Rightarrow> 'k \<Rightarrow> ('k, 'v) table \<Rightarrow> ('k, 'v) table" where
  "UnlinkEntry hash key h = (let i = HashIndex h hash in
     h\<lparr>buckets := (buckets h)[i := chain_unlink hash key (buckets h ! i)], used := used h - 1\<rparr>)"

definition Unlink :: "('k \<Rightarrow> nat) \<Rightarrow> ('k, 'v) dict \<Rightarrow> 'k
    \<Rightarrow> ('k, 'v) dict_entry option \<times> ('k, 'v) dict" where
  "Unlink hf d key =
     (let d = RehashStepIfNeeded d; hash = hf key in
      case find (entry_matches hash key) (chain_of (ht0 d) hash) of
        Some e \<Rightarrow> (Some e, d\<lparr>ht0 := UnlinkEntry hash key (ht0 d)\<rparr>)
      | None \<Rightarrow>
          if IsRehashing d then
            case find (entry_matches hash key) (chain_of (ht1 d) hash) of
              Some e \<Rightarrow> (Some e, d\<lparr>ht1 := UnlinkEntry hash key (ht1 d)\<rparr>)
            | None \<Rightarrow> (None, d)
          else (None, d))"

definition Dict_Delete :: "('k \<Rightarrow> nat) \<Rightarrow> ('k, 'v) dict \<Rightarrow> 'k \<Rightarrow> bool \<times> ('k, 'v) dict" where
  "Dict_Delete hf d key = (case Unlink hf d key of (e, d) \<Rightarrow> (e \<noteq> None, d))"

definition Dict_Extract :: "('k \<Rightarrow> nat) \<Rightarrow> ('k, 'v) dict \<Rightarrow> 'k \<Rightarrow> 'v option \<times> ('k, 'v) dict" where
  "Dict_Extract hf d key = (case Unlink hf d key of (e, d) \<Rightarrow> (map_option de_val e, d))"

definition Dict_Size :: "('k, 'v) dict \<Rightarrow> nat" where
  "Dict_Size d = used (ht0 d) + used (ht1 d)"

text \<open>
  \<open>Scan\<close> hands the entries of the bucket at the cursor to the visitor: here it returns them, in
  the order of the visits, with the next cursor.  The pause counter is back at its value when
  it returns.
\<close>

definition bucket_at :: "('k, 'v) table \<Rightarrow> nat \<Rightarrow> ('k, 'v) dict_entry list" where
  "bucket_at h i = (if i < length (buckets h) then buckets h ! i else [])"

definition Dict_Scan :: "('k, 'v) dict \<Rightarrow> nat \<Rightarrow> ('k, 'v) dict_entry list \<times> nat option" where
  "Dict_Scan d cursor =
     (bucket_at (ht0 d) cursor @ (if IsRehashing d then bucket_at (ht1 d) cursor else []),
      let cursor = cursor + 1 in
      if cursor \<ge> max (length (buckets (ht0 d))) (length (buckets (ht1 d))) then None
      else Some cursor)"

definition Dict_Clear :: "('k, 'v) dict \<Rightarrow> ('k, 'v) dict" where
  "Dict_Clear d = d\<lparr>ht0 := Reset, ht1 := Reset, rehash_idx := None, pause_rehash := 0\<rparr>"

end
