(* ===== verification/Dict_Refinement.thy ===== *)
theory Dict_Refinement
  imports Dict "HOL-Library.Multiset"
begin

text \<open>
  The invariant of \<open>Dict\<close> and the finite map a dict stands for.  Every operation, with the
  rehashing step it performs on the way, keeps the invariant and has the effect of the map
  operation; a rehash that is not paused ends.  \<open>kv_map\<close> is the contract the data types of the
  server rely on, interpreted here on \<open>Dict\<close>.
\<close>

section \<open>The invariant and the map a dict stands for\<close>

definition entries :: "('k, 'v) table \<Rightarrow> ('k, 'v) dict_entry list" where
  "entries h = concat (buckets h)"

definition dict_entries :: "('k, 'v) dict \<Rightarrow> ('k, 'v) dict_entry list" where
  "dict_entries d = entries (ht0 d) @ entries (ht1 d)"

definition entry_in :: "('k \<Rightarrow> nat) \<Rightarrow> nat \<Rightarrow> nat \<Rightarrow> ('k, 'v) dict_entry \<Rightarrow> bool" where
  "entry_in hf k i e \<longleftrightarrow> de_hash e = hf (de_key e) \<and> de_hash e mod 2 ^ k = i"

definition live_table :: "('k \<Rightarrow> nat) \<Rightarrow> ('k, 'v) table \<Rightarrow> nat \<Rightarrow> bool" where
  "live_table hf h k \<longleftrightarrow> k < 64 \<and> size_exp h = int k \<and> length (buckets h) = 2 ^ k
     \<and> used h = length (entries h)
     \<and> (\<forall>i < 2 ^ k. \<forall>e \<in> set (buckets h ! i). entry_in hf k i e)"

definition dict_ok :: "('k \<Rightarrow> nat) \<Rightarrow> ('k, 'v) dict \<Rightarrow> bool" where
  "dict_ok hf d \<longleftrightarrow> (\<exists>k. live_table hf (ht0 d) k \<and>
       (case rehash_idx d of None \<Rightarrow> ht1 d = Reset
        | Some r \<Rightarrow> \<exists>k1 > k. live_table hf (ht1 d) k1 \<and> (\<forall>i < min r (2 ^ k). buckets (ht0 d) ! i = [])))
     \<and> distinct (map de_key (dict_entries d))"

definition entry_map :: "('k, 'v) dict_entry list \<Rightarrow> 'k \<rightharpoonup> 'v" where
  "entry_map es = map_of (map (\<lambda>e. (de_key e, de_val e)) es)"

definition dict_map :: "('k, 'v) dict \<Rightarrow> 'k \<rightharpoonup> 'v" where
  "dict_map d = entry_map (dict_entries d)"

lemma entry_map_mset:
  assumes "distinct (map de_key xs)" "mset xs = mset ys"
  shows "entry_map xs = entry_map ys" "distinct (map de_key ys)"
proof -
  have "mset (map de_key xs) = mset (map de_key ys)" using assms(2) by (simp only: mset_map)
  then show d: "distinct (map de_key ys)" using assms(1) mset_eq_imp_distinct_iff by blast
  have s: "set xs = set ys" using assms(2) by (rule mset_eq_setD)
  show "entry_map xs = entry_map ys" unfolding entry_map_def
    by (subst map_of_inject_set) (use assms(1) d s in \<open>simp_all add: comp_def\<close>)
qed

lemma entry_map_Some:
  assumes "distinct (map de_key xs)"
  shows "entry_map xs k = Some v \<longleftrightarrow> (\<exists>e \<in> set xs. de_key e = k \<and> de_val e = v)"
  using assms by (auto simp: entry_map_def comp_def)

lemma entry_map_None: "entry_map xs k = None \<longleftrightarrow> (\<forall>e \<in> set xs. de_key e \<noteq> k)"
  by (auto simp: entry_map_def map_of_eq_None_iff image_image)

lemma mset_concat_update:
  "i < length xs \<Longrightarrow> mset (concat (xs[i := ys])) + mset (xs ! i) = mset (concat xs) + mset ys"
proof (induction xs arbitrary: i)
  case (Cons x xs)
  then show ?case by (cases i) (auto simp: ac_simps)
qed simp

lemma HashIndex_live:
  assumes "live_table hf h k"
  shows "HashIndex h x = x mod 2 ^ k" "HashIndex h x < length (buckets h)"
  using assms and_low_mask [of x k]
  by (simp_all add: HashIndex_def TableMask_def live_table_def push_bit_eq_mult)

lemma live_bucket:
  assumes "live_table hf h k" "e \<in> set (entries h)"
  shows "e \<in> set (buckets h ! HashIndex h (de_hash e))" "de_hash e = hf (de_key e)"
proof -
  from assms(2) obtain b where "b \<in> set (buckets h)" "e \<in> set b" by (auto simp: entries_def)
  then obtain i where "i < length (buckets h)" "e \<in> set (buckets h ! i)" by (metis in_set_conv_nth)
  with assms(1) have "e \<in> set (buckets h ! i)" "entry_in hf k i e" by (simp_all add: live_table_def)
  then show "e \<in> set (buckets h ! HashIndex h (de_hash e))" "de_hash e = hf (de_key e)"
    by (auto simp: HashIndex_live(1) [OF assms(1)] entry_in_def)
qed

text \<open>Replacing one chain of a table.\<close>

lemma live_update:
  assumes "live_table hf h k" "i < 2 ^ k"
    "\<forall>e \<in> set es. entry_in hf k i e"
    "u + length (buckets h ! i) = used h + length es"
  shows "live_table hf (h\<lparr>buckets := (buckets h)[i := es], used := u\<rparr>) k"
    and "mset (entries (h\<lparr>buckets := (buckets h)[i := es], used := u\<rparr>)) + mset (buckets h ! i)
      = mset (entries h) + mset es"
proof -
  let ?h = "h\<lparr>buckets := (buckets h)[i := es], used := u\<rparr>"
  have i: "i < length (buckets h)" using assms by (simp add: live_table_def)
  show m: "mset (entries ?h) + mset (buckets h ! i) = mset (entries h) + mset es"
    using mset_concat_update [OF i, of es] by (simp add: entries_def)
  have "size (mset (entries ?h) + mset (buckets h ! i)) = size (mset (entries h) + mset es)"
    by (simp only: m)
  then have "u = length (entries ?h)" using assms(1,4) by (simp add: live_table_def)
  moreover have "\<forall>e \<in> set ((buckets h)[i := es] ! j). entry_in hf k j e"
    if "j < 2 ^ k" for j
    using that assms(1,3) i by (cases "j = i") (simp_all add: live_table_def)
  ultimately show "live_table hf ?h k"
    using assms(1) unfolding live_table_def by simp
qed

lemma InsertEntry_live:
  assumes "live_table hf h k" "de_hash e = hf (de_key e)"
  shows "live_table hf (InsertEntry e h) k" "mset (entries (InsertEntry e h)) = add_mset e (mset (entries h))"
proof -
  let ?i = "HashIndex h (de_hash e)"
  have i: "?i < 2 ^ k" using HashIndex_live [OF assms(1)] assms(1) by (simp add: live_table_def)
  have ok: "\<forall>x \<in> set (e # buckets h ! ?i). entry_in hf k ?i x"
    using assms i by (simp add: live_table_def) (simp add: entry_in_def HashIndex_live(1) [OF assms(1)])
  note u = live_update [OF assms(1) i ok, of "used h + 1"]
  from u(1) show "live_table hf (InsertEntry e h) k" by (simp add: InsertEntry_def Let_def)
  from u(2) show "mset (entries (InsertEntry e h)) = add_mset e (mset (entries h))"
    by (simp add: InsertEntry_def Let_def)
qed

lemma live_reset_entries [simp]: "entries Reset = []"
  by (simp add: entries_def Reset_def)


section \<open>Rehashing\<close>

lemma UnlinkHead_live:
  assumes "live_table hf h k" "i < 2 ^ k" "buckets h ! i = e # es"
  shows "live_table hf (UnlinkHead e h) k"
    "add_mset e (mset (entries (UnlinkHead e h))) = mset (entries h)"
    "buckets (UnlinkHead e h) = (buckets h)[i := es]"
proof -
  have in_i: "\<forall>x \<in> set (buckets h ! i). entry_in hf k i x" using assms(1,2) by (simp add: live_table_def)
  then have "entry_in hf k i e" using assms(3) by simp
  then have i: "HashIndex h (de_hash e) = i"
    unfolding HashIndex_live(1) [OF assms(1)] entry_in_def by (rule conjunct2)
  have "i < length (buckets h)" using assms(1,2) by (simp add: live_table_def)
  from arg_cong [OF mset_concat_update [OF this, of "[]"], of size]
  have "length (buckets h ! i) \<le> length (entries h)"
    unfolding size_union size_mset entries_def list.size by linarith
  moreover have "used h = length (entries h)" using assms(1) by (simp add: live_table_def)
  ultimately have u: "used h - 1 + length (buckets h ! i) = used h + length es"
    using assms(3) by simp
  have ok: "\<forall>x \<in> set es. entry_in hf k i x" using in_i assms(3) by simp
  have eq: "UnlinkHead e h = h\<lparr>buckets := (buckets h)[i := es], used := used h - 1\<rparr>"
    using i assms(3) by (simp add: UnlinkHead_def Let_def)
  show "live_table hf (UnlinkHead e h) k" unfolding eq using live_update(1) [OF assms(1,2) ok u] .
  show "add_mset e (mset (entries (UnlinkHead e h))) = mset (entries h)"
    using live_update(2) [OF assms(1,2) ok u] assms(3) unfolding eq by simp
  show "buckets (UnlinkHead e h) = (buckets h)[i := es]" by (simp add: eq)
qed

lemma Rehash_chain_ok:
  assumes "live_table hf (ht0 d) k" "live_table hf (ht1 d) k1" "r < 2 ^ k" "buckets (ht0 d) ! r = es"
  shows "live_table hf (ht0 (Rehash_chain es d)) k \<and> live_table hf (ht1 (Rehash_chain es d)) k1
    \<and> mset (dict_entries (Rehash_chain es d)) = mset (dict_entries d)
    \<and> buckets (ht0 (Rehash_chain es d)) = (buckets (ht0 d))[r := []]
    \<and> rehash_idx (Rehash_chain es d) = rehash_idx d \<and> pause_rehash (Rehash_chain es d) = pause_rehash d"
  using assms
proof (induction es arbitrary: d)
  case Nil
  then show ?case using list_update_id [of "buckets (ht0 d)" r] by simp
next
  case (Cons e es)
  let ?d = "d\<lparr>ht0 := UnlinkHead e (ht0 d), ht1 := InsertEntry e (ht1 d)\<rparr>"
  note u = UnlinkHead_live [OF Cons.prems(1,3,4)]
  have "de_hash e = hf (de_key e)"
    using Cons.prems(1,3,4) by (simp add: live_table_def entry_in_def)
  note i = InsertEntry_live [OF Cons.prems(2) this]
  have r: "r < length (buckets (ht0 d))" using Cons.prems(1,3) by (simp add: live_table_def)
  have "mset (dict_entries ?d) = mset (dict_entries d)"
    using i(2) by (simp add: dict_entries_def u(2) [symmetric])
  then show ?case using Cons.IH [of ?d] u i Cons.prems(3) r by simp
qed

lemma Rehash_loop_ok:
  assumes "dict_ok hf d" "rehash_idx d \<noteq> None" "dict_size = length (buckets (ht0 d))"
  shows "dict_ok hf (Rehash_loop n ev dict_size d) \<and> rehash_idx (Rehash_loop n ev dict_size d) \<noteq> None
    \<and> mset (dict_entries (Rehash_loop n ev dict_size d)) = mset (dict_entries d)
    \<and> pause_rehash (Rehash_loop n ev dict_size d) = pause_rehash d
    \<and> length (buckets (ht0 (Rehash_loop n ev dict_size d))) = length (buckets (ht0 d))
    \<and> the (rehash_idx d) \<le> the (rehash_idx (Rehash_loop n ev dict_size d))
    \<and> (0 < n \<and> 0 < ev \<and> the (rehash_idx d) < dict_size \<and> 0 < used (ht0 d)
         \<longrightarrow> the (rehash_idx d) < the (rehash_idx (Rehash_loop n ev dict_size d)))"
  using assms
proof (induction n ev dict_size d rule: Rehash_loop.induct)
  case (1 n ev dict_size d)
  obtain r where r: "rehash_idx d = Some r" using "1.prems" by blast
  from "1.prems" r obtain k k1 where k: "live_table hf (ht0 d) k" "live_table hf (ht1 d) k1" "k < k1"
    "\<forall>i < min r (2 ^ k). buckets (ht0 d) ! i = []" "distinct (map de_key (dict_entries d))"
    by (auto simp: dict_ok_def)
  have ds: "dict_size = 2 ^ k" using "1.prems"(3) k(1) by (simp add: live_table_def)
  show ?case
  proof (cases "n > 0 \<and> r < dict_size \<and> used (ht0 d) > 0 \<and> ev > 0")
    case False
    then have "Rehash_loop n ev dict_size d = d" using r by (subst Rehash_loop.simps) auto
    then show ?thesis using "1.prems"(1) False r by auto
  next
    case True
    have wrap: ?thesis
      if d1: "dict_ok hf d1" "rehash_idx d1 = Some (r + 1)" "length (buckets (ht0 d1)) = dict_size"
        "mset (dict_entries d1) = mset (dict_entries d)" "pause_rehash d1 = pause_rehash d"
      and eq: "Rehash_loop n ev dict_size d = Rehash_loop n' ev' dict_size d1"
      and IH: "dict_ok hf d1 \<Longrightarrow> rehash_idx d1 \<noteq> None \<Longrightarrow> dict_size = length (buckets (ht0 d1)) \<Longrightarrow>
        dict_ok hf (Rehash_loop n' ev' dict_size d1) \<and> rehash_idx (Rehash_loop n' ev' dict_size d1) \<noteq> None
        \<and> mset (dict_entries (Rehash_loop n' ev' dict_size d1)) = mset (dict_entries d1)
        \<and> pause_rehash (Rehash_loop n' ev' dict_size d1) = pause_rehash d1
        \<and> length (buckets (ht0 (Rehash_loop n' ev' dict_size d1))) = length (buckets (ht0 d1))
        \<and> the (rehash_idx d1) \<le> the (rehash_idx (Rehash_loop n' ev' dict_size d1))
        \<and> (0 < n' \<and> 0 < ev' \<and> the (rehash_idx d1) < dict_size \<and> 0 < used (ht0 d1)
             \<longrightarrow> the (rehash_idx d1) < the (rehash_idx (Rehash_loop n' ev' dict_size d1)))"
      for d1 n' ev'
    proof -
      have "rehash_idx d1 \<noteq> None" "dict_size = length (buckets (ht0 d1))" using d1 by simp_all
      note X = IH [OF d1(1) this]
      have "r < the (rehash_idx (Rehash_loop n' ev' dict_size d1))"
        using X d1(2) by (simp add: Suc_le_eq)
      with X show ?thesis unfolding eq r option.sel using d1(3-5) "1.prems"(3) by simp
    qed
    show ?thesis
    proof (cases "buckets (ht0 d) ! r = []")
      case empty: True
      let ?d = "d\<lparr>rehash_idx := Some (r + 1)\<rparr>"
      have "\<forall>i < min (r + 1) (2 ^ k). buckets (ht0 d) ! i = []"
        using k(4) empty by (auto simp: less_Suc_eq)
      then have ok: "dict_ok hf ?d"
        unfolding dict_ok_def using k(1,2,3,5) by (auto simp: dict_entries_def)
      show ?thesis
      proof (rule wrap [OF ok])
        show "Rehash_loop n ev dict_size d = Rehash_loop n (ev - 1) dict_size ?d"
          using True empty r by (subst Rehash_loop.simps) simp
        show "rehash_idx ?d = Some (r + 1)" "length (buckets (ht0 ?d)) = dict_size"
          "mset (dict_entries ?d) = mset (dict_entries d)" "pause_rehash ?d = pause_rehash d"
          using "1.prems"(3) by (simp_all add: dict_entries_def)
      qed (rule "1.IH"(1) [OF r True empty])
    next
      case nonempty: False
      let ?c = "Rehash_chain (buckets (ht0 d) ! r) d"
      let ?d = "?c\<lparr>ht0 := (ht0 ?c)\<lparr>buckets := (buckets (ht0 ?c))[r := []]\<rparr>, rehash_idx := Some (r + 1)\<rparr>"
      have c: "live_table hf (ht0 ?c) k" "live_table hf (ht1 ?c) k1"
        "mset (dict_entries ?c) = mset (dict_entries d)" "buckets (ht0 ?c) = (buckets (ht0 d))[r := []]"
        "pause_rehash ?c = pause_rehash d"
        using Rehash_chain_ok [OF k(1,2) _ refl, of r] True unfolding ds by simp_all
      have "(ht0 ?c)\<lparr>buckets := (buckets (ht0 ?c))[r := []]\<rparr> = ht0 ?c"
        using c(4) by (cases "ht0 ?c") simp
      then have d0: "?d = ?c\<lparr>rehash_idx := Some (r + 1)\<rparr>" by simp
      have "distinct (map de_key (dict_entries ?c))" using entry_map_mset(2) [OF k(5)] c(3) by simp
      moreover have "\<forall>i < min (r + 1) (2 ^ k). buckets (ht0 ?c) ! i = []"
      proof (intro allI impI)
        fix i assume "i < min (r + 1) (2 ^ k)"
        then show "buckets (ht0 ?c) ! i = []"
          using k(1,4) unfolding c(4) live_table_def by (cases "i = r") simp_all
      qed
      ultimately have ok: "dict_ok hf ?d" unfolding d0 dict_ok_def using c(1,2) k(3)
        by (auto simp: dict_entries_def)
      show ?thesis
      proof (rule wrap [OF ok])
        show "Rehash_loop n ev dict_size d = Rehash_loop (n - 1) ev dict_size ?d"
          using True nonempty r by (subst Rehash_loop.simps) simp
        show "mset (dict_entries ?d) = mset (dict_entries d)" "rehash_idx ?d = Some (r + 1)"
          "pause_rehash ?d = pause_rehash d" "length (buckets (ht0 ?d)) = dict_size"
          using c(3,4,5) "1.prems"(3) unfolding d0 by (simp_all add: dict_entries_def)
      qed (rule "1.IH"(2) [OF r True nonempty])
    qed
  qed
qed

lemma live_unused: "live_table hf h k \<Longrightarrow> used h = 0 \<Longrightarrow> entries h = []"
  by (simp add: live_table_def)

lemma MigrateRehashedTable_ok:
  assumes "dict_ok hf d" "rehash_idx d \<noteq> None" "used (ht0 d) = 0"
  shows "dict_ok hf (MigrateRehashedTable d)" "dict_entries (MigrateRehashedTable d) = dict_entries d"
proof -
  obtain k k1 where k: "live_table hf (ht0 d) k" "live_table hf (ht1 d) k1"
    "distinct (map de_key (dict_entries d))" using assms by (auto simp: dict_ok_def)
  have "entries (ht0 d) = []" using k(1) assms(3) by (rule live_unused)
  then show e: "dict_entries (MigrateRehashedTable d) = dict_entries d"
    by (simp add: dict_entries_def MigrateRehashedTable_def)
  show "dict_ok hf (MigrateRehashedTable d)"
    unfolding dict_ok_def e
    by (intro conjI exI [of _ k1]) (use k in \<open>simp_all add: MigrateRehashedTable_def\<close>)
qed

lemma dict_ok_size:
  assumes "dict_ok hf d" shows "TableSize (size_exp (ht0 d)) = length (buckets (ht0 d))"
proof -
  obtain k where "live_table hf (ht0 d) k" using assms by (auto simp: dict_ok_def)
  then show ?thesis by (simp add: live_table_def TableSize_def push_bit_eq_mult)
qed

lemma Rehash_ok:
  assumes "dict_ok hf d"
  shows "dict_ok hf (snd (Rehash n d))" "mset (dict_entries (snd (Rehash n d))) = mset (dict_entries d)"
    "pause_rehash (snd (Rehash n d)) = pause_rehash d"
proof -
  let ?d = "Rehash_loop n (n * 10) (TableSize (size_exp (ht0 d))) d"
  have "dict_ok hf (snd (Rehash n d)) \<and> mset (dict_entries (snd (Rehash n d))) = mset (dict_entries d)
    \<and> pause_rehash (snd (Rehash n d)) = pause_rehash d"
  proof (cases "rehash_idx d = None")
    case False
    have l: "dict_ok hf ?d" "rehash_idx ?d \<noteq> None" "mset (dict_entries ?d) = mset (dict_entries d)"
      "pause_rehash ?d = pause_rehash d"
      using Rehash_loop_ok [OF assms False dict_ok_size [OF assms]] by blast+
    have eq: "snd (Rehash n d) = (if used (ht0 ?d) = 0 then MigrateRehashedTable ?d else ?d)"
      using False by (simp add: Rehash_def IsRehashing_def Let_def)
    have "pause_rehash (MigrateRehashedTable ?d) = pause_rehash ?d"
      by (simp add: MigrateRehashedTable_def)
    then show ?thesis
      unfolding eq using l MigrateRehashedTable_ok [OF l(1,2)] by simp
  qed (simp add: Rehash_def IsRehashing_def assms)
  then show "dict_ok hf (snd (Rehash n d))" "mset (dict_entries (snd (Rehash n d))) = mset (dict_entries d)"
    "pause_rehash (snd (Rehash n d)) = pause_rehash d" by blast+
qed

lemma RehashStep_ok:
  assumes "dict_ok hf d"
  shows "dict_ok hf (RehashStepIfNeeded d)" "mset (dict_entries (RehashStepIfNeeded d)) = mset (dict_entries d)"
  using assms Rehash_ok by (auto simp: RehashStepIfNeeded_def)

lemma dict_map_mset:
  assumes "dict_ok hf d" "mset (dict_entries d') = mset (dict_entries d)"
  shows "dict_map d' = dict_map d"
  using assms entry_map_mset(1) [of "dict_entries d" "dict_entries d'"]
  by (simp add: dict_ok_def dict_map_def)

lemma RehashStep_map: "dict_ok hf d \<Longrightarrow> dict_map (RehashStepIfNeeded d) = dict_map d"
  using RehashStep_ok dict_map_mset by blast

text \<open>Progress: a step that is not paused moves the index, and the index is below the size.\<close>

definition rehash_left :: "('k, 'v) dict \<Rightarrow> nat" where
  "rehash_left d = (case rehash_idx d of None \<Rightarrow> 0 | Some r \<Rightarrow> Suc (length (buckets (ht0 d)) - r))"

lemma used_when_done:
  assumes "dict_ok hf d" "rehash_idx d = Some r" "length (buckets (ht0 d)) \<le> r"
  shows "used (ht0 d) = 0"
proof -
  obtain k where k: "live_table hf (ht0 d) k" "\<forall>i < min r (2 ^ k). buckets (ht0 d) ! i = []"
    using assms by (auto simp: dict_ok_def)
  have "b = []" if b: "b \<in> set (buckets (ht0 d))" for b
  proof -
    obtain i where "i < length (buckets (ht0 d))" "buckets (ht0 d) ! i = b"
      using b by (metis in_set_conv_nth)
    then show ?thesis using k assms(3) by (simp add: live_table_def)
  qed
  then have "entries (ht0 d) = []" by (simp add: entries_def)
  then show ?thesis using k(1) by (simp add: live_table_def)
qed

lemma RehashStep_progress:
  assumes "dict_ok hf d" "pause_rehash d = 0" "IsRehashing d"
  shows "rehash_left (RehashStepIfNeeded d) < rehash_left d"
proof -
  obtain r where r: "rehash_idx d = Some r" using assms(3) by (auto simp: IsRehashing_def)
  let ?ds = "length (buckets (ht0 d))"
  let ?d = "Rehash_loop 1 10 ?ds d"
  have l: "dict_ok hf ?d" "rehash_idx ?d \<noteq> None" "length (buckets (ht0 ?d)) = ?ds"
    "r \<le> the (rehash_idx ?d)" "r < ?ds \<and> 0 < used (ht0 d) \<longrightarrow> r < the (rehash_idx ?d)"
    using Rehash_loop_ok [OF assms(1) _ refl, of 1 10] r by auto
  have step: "RehashStepIfNeeded d = (if used (ht0 ?d) = 0 then MigrateRehashedTable ?d else ?d)"
    using assms r by (simp add: RehashStepIfNeeded_def Rehash_def IsRehashing_def Let_def dict_ok_size [OF assms(1)])
  show ?thesis
  proof (cases "used (ht0 ?d) = 0")
    case True
    then show ?thesis unfolding step using r by (simp add: rehash_left_def MigrateRehashedTable_def)
  next
    case False
    obtain r' where r': "rehash_idx ?d = Some r'" using l(2) by blast
    have "\<not> ?ds \<le> r'" using used_when_done [OF l(1) r'] l(3) False by auto
    moreover have "0 < used (ht0 d)"
    proof (rule ccontr)
      assume "\<not> 0 < used (ht0 d)"
      then have "?d = d" using r by (subst Rehash_loop.simps) simp
      with False \<open>\<not> 0 < used (ht0 d)\<close> show False by simp
    qed
    ultimately have "r < r'" "r' < ?ds" using l(4,5) r' by auto
    then show ?thesis unfolding step using False r r' l(3) by (simp add: rehash_left_def)
  qed
qed

section \<open>Lookup\<close>

lemma find_chain:
  assumes "live_table hf h k"
  shows "find (entry_matches (hf key) key) (chain_of h (hf key)) = Some e \<Longrightarrow>
      e \<in> set (entries h) \<and> de_key e = key \<and> e \<in> set (buckets h ! HashIndex h (hf key))"
    and "find (entry_matches (hf key) key) (chain_of h (hf key)) = None \<longleftrightarrow>
      (\<forall>e \<in> set (entries h). de_key e \<noteq> key)"
proof -
  have i: "HashIndex h (hf key) < length (buckets h)" using HashIndex_live(2) [OF assms] .
  then have c: "chain_of h (hf key) = buckets h ! HashIndex h (hf key)" by (auto simp: chain_of_def)
  have sub: "set (buckets h ! HashIndex h (hf key)) \<subseteq> set (entries h)"
    using nth_mem [OF i] by (auto simp: entries_def)
  show "find (entry_matches (hf key) key) (chain_of h (hf key)) = Some e \<Longrightarrow>
      e \<in> set (entries h) \<and> de_key e = key \<and> e \<in> set (buckets h ! HashIndex h (hf key))"
    using sub by (auto simp: c find_Some_iff entry_matches_def)
  show "find (entry_matches (hf key) key) (chain_of h (hf key)) = None \<longleftrightarrow>
      (\<forall>e \<in> set (entries h). de_key e \<noteq> key)"
  proof
    assume "find (entry_matches (hf key) key) (chain_of h (hf key)) = None"
    then have n: "\<forall>e \<in> set (buckets h ! HashIndex h (hf key)). \<not> entry_matches (hf key) key e"
      by (simp add: c find_None_iff)
    show "\<forall>e \<in> set (entries h). de_key e \<noteq> key"
      using n live_bucket [OF assms] by (metis entry_matches_def)
  next
    assume "\<forall>e \<in> set (entries h). de_key e \<noteq> key"
    then show "find (entry_matches (hf key) key) (chain_of h (hf key)) = None"
      using sub by (auto simp: c find_None_iff entry_matches_def)
  qed
qed

lemma dict_ok_tables:
  assumes "dict_ok hf d"
  obtains k where "live_table hf (ht0 d) k" "distinct (map de_key (dict_entries d))"
    "IsRehashing d \<Longrightarrow> \<exists>k1. live_table hf (ht1 d) k1" "\<not> IsRehashing d \<Longrightarrow> entries (ht1 d) = []"
proof -
  obtain k where k: "live_table hf (ht0 d) k" "distinct (map de_key (dict_entries d))"
    "case rehash_idx d of None \<Rightarrow> ht1 d = Reset
     | Some r \<Rightarrow> \<exists>k1 > k. live_table hf (ht1 d) k1 \<and> (\<forall>i < min r (2 ^ k). buckets (ht0 d) ! i = [])"
    using assms by (auto simp: dict_ok_def)
  show ?thesis
    by (rule that [OF k(1,2)]) (use k(3) in \<open>auto simp: IsRehashing_def\<close>)
qed

lemma find_entry_Some:
  assumes "dict_ok hf d" "find_entry d (hf key) key = Some e"
  shows "e \<in> set (dict_entries d)" "de_key e = key"
proof -
  obtain k where k: "live_table hf (ht0 d) k" "IsRehashing d \<Longrightarrow> \<exists>k1. live_table hf (ht1 d) k1"
    using dict_ok_tables [OF assms(1)] by metis
  have "e \<in> set (dict_entries d) \<and> de_key e = key"
    using assms(2) find_chain(1) [OF k(1), of key e] find_chain(1) [of hf "ht1 d" _ key e] k(2)
    by (auto simp: find_entry_def dict_entries_def split: option.splits if_splits)
  then show "e \<in> set (dict_entries d)" "de_key e = key" by blast+
qed

lemma find_entry_None:
  assumes "dict_ok hf d" "find_entry d (hf key) key = None"
  shows "\<forall>e \<in> set (dict_entries d). de_key e \<noteq> key"
proof -
  obtain k where k: "live_table hf (ht0 d) k" "IsRehashing d \<Longrightarrow> \<exists>k1. live_table hf (ht1 d) k1"
    "\<not> IsRehashing d \<Longrightarrow> entries (ht1 d) = []"
    using dict_ok_tables [OF assms(1)] by metis
  show ?thesis
    using assms(2) find_chain(2) [OF k(1), of key] find_chain(2) [of hf "ht1 d" _ key] k(2,3)
    by (auto simp: find_entry_def dict_entries_def split: option.splits if_splits)
qed

lemma find_entry_map:
  assumes "dict_ok hf d" shows "map_option de_val (find_entry d (hf key) key) = dict_map d key"
proof (cases "find_entry d (hf key) key")
  case None
  then show ?thesis using find_entry_None [OF assms None] entry_map_None [of "dict_entries d" key]
    by (simp add: dict_map_def)
next
  case (Some e)
  have "distinct (map de_key (dict_entries d))" using assms by (simp add: dict_ok_def)
  from entry_map_Some [OF this, of key "de_val e"] Some find_entry_Some [OF assms Some]
  show ?thesis by (auto simp: dict_map_def)
qed

lemma Dict_Get_ok:
  assumes "dict_ok hf d" "Dict_Get hf d key = (v, d')"
  shows "v = dict_map d key" "dict_ok hf d'" "dict_map d' = dict_map d"
proof -
  have d': "d' = RehashStepIfNeeded d" "v = map_option de_val (find_entry d' (hf key) key)"
    using assms(2) by (auto simp: Dict_Get_def FindEntry_def Let_def)
  show "dict_ok hf d'" "dict_map d' = dict_map d"
    using RehashStep_ok(1) [OF assms(1)] RehashStep_map [OF assms(1)] d' by simp_all
  then show "v = dict_map d key" using d'(2) find_entry_map by metis
qed

section \<open>Growing\<close>

lemma NextExp_loop_range:
  assumes "table_size = 2 ^ e" "e \<le> 63"
  shows "NextExp_loop n sz table_size (int e) = -1 \<or>
    (\<exists>e' \<ge> e. e' \<le> 63 \<and> NextExp_loop n sz table_size (int e) = int e')"
  using assms
proof (induction n arbitrary: table_size e)
  case (Suc n)
  show ?case
  proof (cases "table_size < sz \<and> \<not> table_size > SIZE_MAX div 2")
    case True
    have "e \<noteq> 63"
    proof
      assume "e = 63"
      with Suc.prems(1) True show False by simp
    qed
    with Suc.prems Suc.IH [of "table_size * 2" "Suc e"] True show ?thesis
      by (auto simp: of_nat_Suc add.commute)
  next
    case False
    with Suc.prems show ?thesis by auto
  qed
qed auto

lemma NextExp_range: "NextExp sz = -1 \<or> (\<exists>e \<ge> 1. e \<le> 63 \<and> NextExp sz = int e)"
  using NextExp_loop_range [of 2 1 64 sz] by (simp add: NextExp_def)

lemma fresh_live:
  "e \<le> 63 \<Longrightarrow> live_table hf (InitializeTableWithSize (int e) (TableSize (int e))) e"
  "entries (InitializeTableWithSize x n) = []"
  by (simp_all add: live_table_def InitializeTableWithSize_def TableSize_def entries_def push_bit_eq_mult)

lemma Dict_Expand_ok:
  assumes "dict_ok hf d"
  shows "dict_ok hf (snd (Dict_Expand d n))" "dict_entries (snd (Dict_Expand d n)) = dict_entries d"
proof -
  obtain k where k: "live_table hf (ht0 d) k" "distinct (map de_key (dict_entries d))"
    "\<not> IsRehashing d \<Longrightarrow> entries (ht1 d) = []"
    using dict_ok_tables [OF assms] by metis
  have "dict_ok hf (snd (Dict_Expand d n)) \<and> dict_entries (snd (Dict_Expand d n)) = dict_entries d"
  proof (cases "snd (Dict_Expand d n) = d")
    case False
    then have c: "\<not> IsRehashing d" "\<not> NextExp n < 0" "\<not> NextExp n \<le> size_exp (ht0 d)"
      by (auto simp: Dict_Expand_def Let_def split: if_splits)
    then obtain e where e: "NextExp n = int e" "e \<le> 63" "k < e"
      using NextExp_range [of n] k(1) by (auto simp: live_table_def)
    let ?h = "InitializeTableWithSize (int e) (TableSize (int e)) :: ('a, 'b) table"
    have eq: "snd (Dict_Expand d n) = d\<lparr>ht1 := ?h, rehash_idx := Some 0\<rparr>"
    proof -
      have "\<not> size_exp (ht0 d) < 0" using k(1) by (simp add: live_table_def)
      then show ?thesis using False c(1) e(1) unfolding Dict_Expand_def Let_def e(1)
        by (simp split: if_splits)
    qed
    have en: "dict_entries (d\<lparr>ht1 := ?h, rehash_idx := Some 0\<rparr>) = dict_entries d"
      using k(3) c(1) by (simp add: dict_entries_def fresh_live(2))
    have "\<exists>k1 > k. live_table hf ?h k1" using e(3) fresh_live(1) [OF e(2)] by blast
    then show ?thesis unfolding eq dict_ok_def en
      by (intro conjI exI [of _ k]) (use k in simp_all)
  qed (use assms in simp)
  then show "dict_ok hf (snd (Dict_Expand d n))" "dict_entries (snd (Dict_Expand d n)) = dict_entries d"
    by blast+
qed

lemma ExpandIfNeeded_ok:
  assumes "dict_ok hf d"
  shows "dict_ok hf (ExpandIfNeeded d)" "dict_entries (ExpandIfNeeded d) = dict_entries d"
  using assms Dict_Expand_ok by (auto simp: ExpandIfNeeded_def Let_def)

lemma Dict_Create_ok:
  assumes "Dict_Create n = Some d"
  shows "dict_ok hf d" "dict_map d = Map.empty"
proof -
  obtain e where e: "e \<le> 63" "d = Dict_init\<lparr>ht0 := InitializeTableWithSize (int e) (TableSize (int e)),
      rehash_idx := None\<rparr>"
    using assms NextExp_range [of n]
    by (auto simp: Dict_Create_def Dict_Expand_def Let_def IsRehashing_def Dict_init_def Reset_def
        split: if_splits prod.splits)
  show "dict_ok hf d" "dict_map d = Map.empty"
    using e fresh_live(1) [OF e(1), of hf]
    by (auto simp: dict_ok_def dict_map_def dict_entries_def entry_map_def Dict_init_def fresh_live(2)
        simp del: of_nat_less_iff)
qed


section \<open>Insertion, update and deletion\<close>

lemma entry_map_add:
  assumes "distinct (map de_key ys)" "mset ys = add_mset e (mset zs)"
  shows "entry_map ys = (entry_map zs)(de_key e \<mapsto> de_val e)" "de_key e \<notin> de_key ` set zs"
proof -
  have m: "mset ys = mset (e # zs)" using assms(2) by simp
  from entry_map_mset(1) [OF assms(1) m] show "entry_map ys = (entry_map zs)(de_key e \<mapsto> de_val e)"
    by (simp add: entry_map_def)
  from entry_map_mset(2) [OF assms(1) m] show "de_key e \<notin> de_key ` set zs" by simp
qed

lemma InsertRaw_ok:
  assumes "dict_ok hf d" "InsertRaw hf d key v = (b, d')"
  shows "dict_ok hf d' \<and> b = (dict_map d key = None)
    \<and> dict_map d' = (if b then (dict_map d)(key \<mapsto> v) else dict_map d)"
proof -
  define d1 where "d1 = RehashStepIfNeeded (ExpandIfNeeded d)"
  have ok: "dict_ok hf d1" unfolding d1_def
    using ExpandIfNeeded_ok(1) RehashStep_ok(1) assms(1) by blast
  have map: "dict_map d1 = dict_map d"
    using RehashStep_map [OF ExpandIfNeeded_ok(1) [OF assms(1)]] ExpandIfNeeded_ok(2) [OF assms(1)]
    by (simp add: d1_def dict_map_def)
  have fm: "map_option de_val (find_entry d1 (hf key) key) = dict_map d key"
    using find_entry_map [OF ok, of key] map by simp
  show ?thesis
  proof (cases "find_entry d1 (hf key) key")
    case (Some e)
    then have "(b, d') = (False, d1)" using assms(2) by (simp add: InsertRaw_def Let_def d1_def)
    moreover have "dict_map d key \<noteq> None" using fm Some by (metis option.simps(9) option.distinct(1))
    ultimately show ?thesis using ok map by simp
  next
    case None
    let ?e = "\<lparr>de_key = key, de_val = v, de_hash = hf key\<rparr>"
    let ?d = "if IsRehashing d1 then d1\<lparr>ht1 := InsertEntry ?e (ht1 d1)\<rparr>
      else d1\<lparr>ht0 := InsertEntry ?e (ht0 d1)\<rparr>"
    have r: "b" "d' = ?d" using assms(2) None by (auto simp: InsertRaw_def Let_def d1_def [symmetric])
    have new: "\<forall>e \<in> set (dict_entries d1). de_key e \<noteq> key" using find_entry_None [OF ok None] .
    have h: "de_hash ?e = hf (de_key ?e)" by simp
    obtain k where k: "live_table hf (ht0 d1) k"
      "case rehash_idx d1 of None \<Rightarrow> ht1 d1 = Reset
       | Some r \<Rightarrow> \<exists>k1 > k. live_table hf (ht1 d1) k1 \<and> (\<forall>i < min r (2 ^ k). buckets (ht0 d1) ! i = [])"
      "distinct (map de_key (dict_entries d1))" using ok by (auto simp: dict_ok_def)
    have m: "mset (dict_entries ?d) = add_mset ?e (mset (dict_entries d1))
      \<and> (\<exists>k. live_table hf (ht0 ?d) k \<and> (case rehash_idx ?d of None \<Rightarrow> ht1 ?d = Reset
        | Some r \<Rightarrow> \<exists>k1 > k. live_table hf (ht1 ?d) k1 \<and> (\<forall>i < min r (2 ^ k). buckets (ht0 ?d) ! i = [])))"
    proof (cases "rehash_idx d1")
      case n: None
      show ?thesis
        using InsertEntry_live [OF k(1) h] k(2) n
        by (auto simp: IsRehashing_def dict_entries_def)
    next
      case s: (Some r)
      then obtain k1 where k1: "k1 > k" "live_table hf (ht1 d1) k1"
        "\<forall>i < min r (2 ^ k). buckets (ht0 d1) ! i = []" using k(2) by auto
      show ?thesis
        using InsertEntry_live [OF k1(2) h] k1(1,3) k(1) s
        by (auto simp: IsRehashing_def dict_entries_def)
    qed
    have "mset (dict_entries ?d) = mset (?e # dict_entries d1)" using m by simp
    moreover have "distinct (map de_key (?e # dict_entries d1))" using k(3) new by auto
    ultimately have dist: "distinct (map de_key (dict_entries ?d))" using entry_map_mset(2) by metis
    then have "dict_ok hf ?d" using m unfolding dict_ok_def by blast
    moreover have "dict_map ?d = (dict_map d1)(key \<mapsto> v)"
      unfolding dict_map_def using entry_map_add(1) [OF dist m [THEN conjunct1]] by simp
    moreover have "dict_map d key = None" using fm None by simp
    ultimately show ?thesis using r map by simp
  qed
qed


lemma chain_set_val_mset:
  assumes "find (entry_matches hash key) es = Some e"
  shows "add_mset e (mset (chain_set_val hash key v es)) = add_mset (e\<lparr>de_val := v\<rparr>) (mset es)"
  using assms
proof (induction es)
  case (Cons x xs)
  show ?case
  proof (cases "entry_matches hash key x")
    case False
    then have "add_mset e (mset (chain_set_val hash key v xs)) = add_mset (e\<lparr>de_val := v\<rparr>) (mset xs)"
      using Cons by simp
    then have "add_mset x (add_mset e (mset (chain_set_val hash key v xs)))
        = add_mset x (add_mset (e\<lparr>de_val := v\<rparr>) (mset xs))" by (rule arg_cong)
    then show ?thesis
      using False
      unfolding add_mset_commute [of x e] add_mset_commute [of x "e\<lparr>de_val := v\<rparr>"]
      by simp
  qed (use Cons in simp)
qed simp

lemma chain_set_val_length: "length (chain_set_val hash key v es) = length es"
  by (induction es) simp_all

lemma entry_in_val [simp]: "entry_in hf k i (e\<lparr>de_val := v\<rparr>) = entry_in hf k i e"
  by (simp add: entry_in_def)

lemma chain_set_val_in:
  "\<forall>x \<in> set es. entry_in hf k i x \<Longrightarrow> \<forall>x \<in> set (chain_set_val hash key v es). entry_in hf k i x"
  by (induction es) simp_all

lemma chain_unlink_mset:
  assumes "find (entry_matches hash key) es = Some e"
  shows "add_mset e (mset (chain_unlink hash key es)) = mset es"
  using assms
proof (induction es)
  case (Cons x xs)
  show ?case
  proof (cases "entry_matches hash key x")
    case False
    then have "add_mset e (mset (chain_unlink hash key xs)) = mset xs" using Cons by simp
    then show ?thesis using False by (simp add: add_mset_commute [of e x])
  qed (use Cons in simp)
qed simp

lemma chain_unlink_set: "set (chain_unlink hash key es) \<subseteq> set es"
  by (induction es) auto

lemma chain_unlink_length:
  "find (entry_matches hash key) es = Some e \<Longrightarrow> Suc (length (chain_unlink hash key es)) = length es"
  by (induction es) (auto split: if_splits)

lemma table_chain:
  assumes "live_table hf h k" "find (entry_matches (hf key) key) (chain_of h (hf key)) = Some e"
  defines "i \<equiv> HashIndex h (hf key)"
  shows "i < 2 ^ k" "find (entry_matches (hf key) key) (buckets h ! i) = Some e"
    "\<forall>x \<in> set (buckets h ! i). entry_in hf k i x"
  using assms HashIndex_live(2) [OF assms(1), of "hf key"]
  by (auto simp: chain_of_def live_table_def split: if_splits)

lemma table_set_val_ok:
  assumes "live_table hf h k" "find (entry_matches (hf key) key) (chain_of h (hf key)) = Some e"
  shows "live_table hf (table_set_val (hf key) key v h) k"
    "add_mset e (mset (entries (table_set_val (hf key) key v h)))
      = add_mset (e\<lparr>de_val := v\<rparr>) (mset (entries h))"
    "buckets h ! j = [] \<Longrightarrow> buckets (table_set_val (hf key) key v h) ! j = []"
proof -
  let ?i = "HashIndex h (hf key)" and ?es = "chain_set_val (hf key) key v (buckets h ! HashIndex h (hf key))"
  note t = table_chain [OF assms]
  note c = chain_set_val_mset [OF t(2), where v = v] chain_set_val_length [of "hf key" key v "buckets h ! ?i"]
    chain_set_val_in [of _ hf k ?i "hf key" key v]
  have eq: "table_set_val (hf key) key v h = h\<lparr>buckets := (buckets h)[?i := ?es], used := used h\<rparr>"
    by (cases h) (simp add: table_set_val_def Let_def)
  note u = live_update [OF assms(1) t(1) c(3) [OF t(3)], of "used h"]
  show "live_table hf (table_set_val (hf key) key v h) k" unfolding eq using u(1) c(2) by simp
  have "mset (entries (table_set_val (hf key) key v h)) + mset (buckets h ! ?i) = mset (entries h) + mset ?es"
    unfolding eq using u(2) c(2) by simp
  then have "add_mset e (mset (entries (table_set_val (hf key) key v h))) + mset (buckets h ! ?i)
      = mset (entries h) + add_mset e (mset ?es)" by simp
  also have "\<dots> = add_mset (e\<lparr>de_val := v\<rparr>) (mset (entries h)) + mset (buckets h ! ?i)"
    unfolding c(1) by simp
  finally show "add_mset e (mset (entries (table_set_val (hf key) key v h)))
      = add_mset (e\<lparr>de_val := v\<rparr>) (mset (entries h))" by (rule add_right_imp_eq)
  show "buckets h ! j = [] \<Longrightarrow> buckets (table_set_val (hf key) key v h) ! j = []"
    unfolding eq using t(2) by (cases "j = ?i") auto
qed

lemma UnlinkEntry_ok:
  assumes "live_table hf h k" "find (entry_matches (hf key) key) (chain_of h (hf key)) = Some e"
  shows "live_table hf (UnlinkEntry (hf key) key h) k"
    "add_mset e (mset (entries (UnlinkEntry (hf key) key h))) = mset (entries h)"
    "buckets h ! j = [] \<Longrightarrow> buckets (UnlinkEntry (hf key) key h) ! j = []"
proof -
  let ?i = "HashIndex h (hf key)" and ?es = "chain_unlink (hf key) key (buckets h ! HashIndex h (hf key))"
  note t = table_chain [OF assms]
  note c = chain_unlink_mset [OF t(2)] chain_unlink_set [of "hf key" key "buckets h ! ?i"]
    chain_unlink_length [OF t(2)]
  have eq: "UnlinkEntry (hf key) key h = h\<lparr>buckets := (buckets h)[?i := ?es], used := used h - 1\<rparr>"
    by (simp add: UnlinkEntry_def Let_def)
  have ok: "\<forall>x \<in> set ?es. entry_in hf k ?i x" using t(3) c(2) by blast
  have "entries h \<noteq> []" using find_chain(1) [OF assms] by auto
  then have "0 < used h" using assms(1) by (simp add: live_table_def)
  then have len: "used h - 1 + length (buckets h ! ?i) = used h + length ?es" using c(3) by simp
  note u = live_update [OF assms(1) t(1) ok len]
  show "live_table hf (UnlinkEntry (hf key) key h) k" unfolding eq by (rule u(1))
  have "add_mset e (mset (entries (UnlinkEntry (hf key) key h))) + mset (buckets h ! ?i)
      = mset (entries h) + add_mset e (mset ?es)" unfolding eq using u(2) by simp
  then show "add_mset e (mset (entries (UnlinkEntry (hf key) key h))) = mset (entries h)"
    unfolding c(1) by simp
  show "buckets h ! j = [] \<Longrightarrow> buckets (UnlinkEntry (hf key) key h) ! j = []"
    unfolding eq using t(2) by (cases "j = ?i") auto
qed

text \<open>Replacing a table of a dict by one with the same size and no more buckets in use.\<close>

lemma dict_replace:
  assumes "dict_ok hf d" "distinct (map de_key (dict_entries d'))" "rehash_idx d' = rehash_idx d"
    "(\<forall>k. live_table hf (ht0 d) k \<longrightarrow> live_table hf (ht0 d') k)"
    "(\<forall>k. live_table hf (ht1 d) k \<longrightarrow> live_table hf (ht1 d') k)" "rehash_idx d = None \<Longrightarrow> ht1 d' = ht1 d"
    "\<forall>j. buckets (ht0 d) ! j = [] \<longrightarrow> buckets (ht0 d') ! j = []"
  shows "dict_ok hf d'"
proof -
  obtain k where k: "live_table hf (ht0 d) k"
    "case rehash_idx d of None \<Rightarrow> ht1 d = Reset
     | Some r \<Rightarrow> \<exists>k1 > k. live_table hf (ht1 d) k1 \<and> (\<forall>i < min r (2 ^ k). buckets (ht0 d) ! i = [])"
    using assms(1) by (auto simp: dict_ok_def)
  show ?thesis unfolding dict_ok_def
    by (intro conjI exI [of _ k]) (use k assms in \<open>auto split: option.splits\<close>)
qed

lemma entry_map_remove:
  assumes "distinct (map de_key ys)" "add_mset e (mset xs) = mset ys"
  shows "distinct (map de_key xs)" "entry_map xs = (entry_map ys)(de_key e := None)"
proof -
  have m: "mset ys = mset (e # xs)" using assms(2) by simp
  show "distinct (map de_key xs)" using entry_map_mset(2) [OF assms(1) m] by simp
  have n: "entry_map xs (de_key e) = None"
    using entry_map_mset(2) [OF assms(1) m] unfolding entry_map_None
    by (metis distinct.simps(2) imageI list.set_map list.simps(9))
  have "entry_map ys = (entry_map xs)(de_key e \<mapsto> de_val e)"
    using entry_map_mset(1) [OF assms(1) m] by (simp add: entry_map_def)
  then show "entry_map xs = (entry_map ys)(de_key e := None)" using n by auto
qed

lemma entry_map_replace:
  assumes "distinct (map de_key ys)" "e \<in> set ys" "add_mset e (mset xs) = add_mset e' (mset ys)"
    "de_key e' = de_key e"
  shows "distinct (map de_key xs)" "entry_map xs = (entry_map ys)(de_key e \<mapsto> de_val e')"
proof -
  obtain zs where zs: "mset ys = mset (e # zs)"
    using assms(2) by (metis ex_mset insert_DiffM mset.simps(2) set_mset_mset)
  then have xs: "mset xs = mset (e' # zs)" using assms(3) by simp
  have d: "distinct (map de_key (e # zs))" using entry_map_mset(2) [OF assms(1) zs] .
  then have d': "distinct (map de_key (e' # zs))" using assms(4) by simp
  show "distinct (map de_key xs)" using entry_map_mset(2) [OF d' xs [symmetric]] .
  have "entry_map xs = entry_map (e' # zs)" using entry_map_mset(1) [OF d' xs [symmetric]] by simp
  moreover have "entry_map ys = entry_map (e # zs)" using entry_map_mset(1) [OF assms(1) zs] .
  ultimately show "entry_map xs = (entry_map ys)(de_key e \<mapsto> de_val e')"
    using assms(4) by (simp add: entry_map_def)
qed

lemma SetVal_existing_ok:
  assumes ok: "dict_ok hf d" and f: "find_entry d (hf key) key = Some e"
  shows "dict_ok hf (SetVal_existing d (hf key) key v)"
    "dict_map (SetVal_existing d (hf key) key v) = (dict_map d)(key \<mapsto> v)"
proof -
  let ?d = "SetVal_existing d (hf key) key v"
  obtain k where k: "live_table hf (ht0 d) k" "distinct (map de_key (dict_entries d))"
    "IsRehashing d \<Longrightarrow> \<exists>k1. live_table hf (ht1 d) k1" using dict_ok_tables [OF ok] by metis
  have e: "e \<in> set (dict_entries d)" "de_key e = key" using find_entry_Some [OF ok f] .
  have "add_mset e (mset (dict_entries ?d)) = add_mset (e\<lparr>de_val := v\<rparr>) (mset (dict_entries d))
    \<and> rehash_idx ?d = rehash_idx d \<and> (\<forall>k. live_table hf (ht0 d) k \<longrightarrow> live_table hf (ht0 ?d) k)
    \<and> (\<forall>k. live_table hf (ht1 d) k \<longrightarrow> live_table hf (ht1 ?d) k) \<and> (rehash_idx d = None \<longrightarrow> ht1 ?d = ht1 d)
    \<and> (\<forall>j. buckets (ht0 d) ! j = [] \<longrightarrow> buckets (ht0 ?d) ! j = [])"
  proof (cases "find (entry_matches (hf key) key) (chain_of (ht0 d) (hf key))")
    case (Some x)
    then have x: "x = e" using f by (simp add: find_entry_def)
    have eq: "?d = d\<lparr>ht0 := table_set_val (hf key) key v (ht0 d)\<rparr>" using Some by (simp add: SetVal_existing_def)
    have live: "live_table hf (ht0 d) k' \<Longrightarrow> live_table hf (table_set_val (hf key) key v (ht0 d)) k'" for k'
      by (rule table_set_val_ok(1) [where hf = hf and key = key, OF _ Some])
    show ?thesis unfolding eq
      using table_set_val_ok(2) [OF k(1) Some, of v] live
        table_set_val_ok(3) [OF k(1) Some, of _ v] x
      by (simp add: dict_entries_def)
  next
    case None
    then have r: "IsRehashing d" "find (entry_matches (hf key) key) (chain_of (ht1 d) (hf key)) = Some e"
      using f by (auto simp: find_entry_def split: if_splits)
    then obtain k1 where k1: "live_table hf (ht1 d) k1" using k(3) by blast
    have eq: "?d = d\<lparr>ht1 := table_set_val (hf key) key v (ht1 d)\<rparr>" using None by (simp add: SetVal_existing_def)
    have live: "live_table hf (ht1 d) k' \<Longrightarrow> live_table hf (table_set_val (hf key) key v (ht1 d)) k'" for k'
      by (rule table_set_val_ok(1) [where hf = hf and key = key, OF _ r(2)])
    show ?thesis unfolding eq
      using table_set_val_ok(2) [OF k1 r(2), of v] live r(1)
      by (auto simp: dict_entries_def IsRehashing_def simp flip: union_mset_add_mset_right)
  qed
  note m = this
  note rep = entry_map_replace [OF k(2) e(1) m [THEN conjunct1]]
  show "dict_ok hf ?d" by (rule dict_replace [OF ok]) (use rep(1) m in auto)
  show "dict_map ?d = (dict_map d)(key \<mapsto> v)" using rep(2) e(2) by (simp add: dict_map_def)
qed

lemma Dict_Set_ok:
  assumes "dict_ok hf d"
  shows "dict_ok hf (Dict_Set hf d key v)" "dict_map (Dict_Set hf d key v) = (dict_map d)(key \<mapsto> v)"
proof -
  obtain b d1 where i: "InsertRaw hf d key v = (b, d1)" by fastforce
  note r = InsertRaw_ok [OF assms i]
  have "dict_ok hf (Dict_Set hf d key v) \<and> dict_map (Dict_Set hf d key v) = (dict_map d)(key \<mapsto> v)"
  proof (cases b)
    case True
    then show ?thesis using i r by (simp add: Dict_Set_def)
  next
    case False
    then have "dict_map d1 key \<noteq> None" "dict_ok hf d1" "dict_map d1 = dict_map d" using r by auto
    moreover obtain e where "find_entry d1 (hf key) key = Some e"
      using find_entry_map [of hf d1 key] calculation by (cases "find_entry d1 (hf key) key") auto
    ultimately show ?thesis using False i SetVal_existing_ok [of hf d1 key e v] by (simp add: Dict_Set_def)
  qed
  then show "dict_ok hf (Dict_Set hf d key v)" "dict_map (Dict_Set hf d key v) = (dict_map d)(key \<mapsto> v)"
    by blast+
qed

lemma Unlink_ok:
  assumes "dict_ok hf d" "Unlink hf d key = (x, d')"
  shows "dict_ok hf d'" "dict_map d' = (dict_map d)(key := None)" "map_option de_val x = dict_map d key"
proof -
  define d1 where "d1 = RehashStepIfNeeded d"
  have ok: "dict_ok hf d1" and mp: "dict_map d1 = dict_map d"
    unfolding d1_def using RehashStep_ok(1) RehashStep_map assms(1) by blast+
  obtain k where k: "live_table hf (ht0 d1) k" "distinct (map de_key (dict_entries d1))"
    "IsRehashing d1 \<Longrightarrow> \<exists>k1. live_table hf (ht1 d1) k1" using dict_ok_tables [OF ok] by metis
  have x: "x = find_entry d1 (hf key) key"
    using assms(2) by (auto simp: Unlink_def Let_def d1_def [symmetric] find_entry_def split: option.splits if_splits)
  then show "map_option de_val x = dict_map d key" using find_entry_map [OF ok] mp by simp
  have "dict_ok hf d' \<and> dict_map d' = (dict_map d1)(key := None)"
  proof (cases x)
    case None
    then have "d' = d1"
      using assms(2) by (auto simp: Unlink_def Let_def d1_def [symmetric] split: option.splits if_splits)
    moreover have "dict_map d1 key = None" using find_entry_map [OF ok, of key] x None by simp
    ultimately show ?thesis using ok by auto
  next
    case (Some e)
    have e: "de_key e = key" using find_entry_Some(2) [OF ok] x Some by metis
    have m: "add_mset e (mset (dict_entries d')) = mset (dict_entries d1)
      \<and> rehash_idx d' = rehash_idx d1 \<and> (\<forall>k. live_table hf (ht0 d1) k \<longrightarrow> live_table hf (ht0 d') k)
      \<and> (\<forall>k. live_table hf (ht1 d1) k \<longrightarrow> live_table hf (ht1 d') k) \<and> (rehash_idx d1 = None \<longrightarrow> ht1 d' = ht1 d1)
      \<and> (\<forall>j. buckets (ht0 d1) ! j = [] \<longrightarrow> buckets (ht0 d') ! j = [])"
    proof (cases "find (entry_matches (hf key) key) (chain_of (ht0 d1) (hf key))")
      case s: (Some y)
      then have eq: "y = e" "d' = d1\<lparr>ht0 := UnlinkEntry (hf key) key (ht0 d1)\<rparr>"
        using assms(2) Some by (simp_all add: Unlink_def Let_def d1_def)
      have live: "live_table hf (ht0 d1) k' \<Longrightarrow> live_table hf (UnlinkEntry (hf key) key (ht0 d1)) k'" for k'
        by (rule UnlinkEntry_ok(1) [where hf = hf and key = key, OF _ s])
      show ?thesis unfolding eq(2)
        using UnlinkEntry_ok(2) [OF k(1) s] live UnlinkEntry_ok(3) [OF k(1) s] eq(1)
        by (simp add: dict_entries_def)
    next
      case None
      then have r: "IsRehashing d1" "find (entry_matches (hf key) key) (chain_of (ht1 d1) (hf key)) = Some e"
        "d' = d1\<lparr>ht1 := UnlinkEntry (hf key) key (ht1 d1)\<rparr>"
        using assms(2) Some by (auto simp: Unlink_def Let_def d1_def [symmetric] split: option.splits if_splits)
      then obtain k1 where k1: "live_table hf (ht1 d1) k1" using k(3) by blast
      have live: "live_table hf (ht1 d1) k' \<Longrightarrow> live_table hf (UnlinkEntry (hf key) key (ht1 d1)) k'" for k'
        by (rule UnlinkEntry_ok(1) [where hf = hf and key = key, OF _ r(2)])
      show ?thesis unfolding r(3)
        using UnlinkEntry_ok(2) [OF k1 r(2)] live r(1)
        by (auto simp: dict_entries_def IsRehashing_def simp flip: union_mset_add_mset_right)
    qed
    note rem = entry_map_remove [OF k(2) m [THEN conjunct1]]
    have "dict_ok hf d'" by (rule dict_replace [OF ok]) (use rem(1) m in auto)
    then show ?thesis using rem(2) e by (simp add: dict_map_def)
  qed
  then show "dict_ok hf d'" "dict_map d' = (dict_map d)(key := None)" using mp by auto
qed

lemma Dict_Size_ok:
  assumes "dict_ok hf d" shows "Dict_Size d = card (dom (dict_map d))" "finite (dom (dict_map d))"
proof -
  have d: "distinct (map de_key (dict_entries d))" using assms by (simp add: dict_ok_def)
  have dom: "dom (dict_map d) = de_key ` set (dict_entries d)"
    by (auto simp: dict_map_def entry_map_def dom_map_of_conv_image_fst image_image)
  then show "finite (dom (dict_map d))" by simp
  have "Dict_Size d = length (dict_entries d)"
    using assms
    by (auto simp: dict_ok_def live_table_def Dict_Size_def dict_entries_def Reset_def entries_def
        split: option.splits)
  then show "Dict_Size d = card (dom (dict_map d))"
    using dom distinct_card [OF d] by simp
qed

section \<open>The contract of a key-value map\<close>

locale kv_map =
  fixes ok :: "'s \<Rightarrow> bool" and abs :: "'s \<Rightarrow> 'k \<rightharpoonup> 'v"
    and get :: "'s \<Rightarrow> 'k \<Rightarrow> 'v option \<times> 's"
    and put :: "'s \<Rightarrow> 'k \<Rightarrow> 'v \<Rightarrow> 's"
    and ins :: "'s \<Rightarrow> 'k \<Rightarrow> 'v \<Rightarrow> bool \<times> 's"
    and del :: "'s \<Rightarrow> 'k \<Rightarrow> bool \<times> 's"
    and card_of :: "'s \<Rightarrow> nat"
  assumes get: "ok s \<Longrightarrow> get s k = (r, s') \<Longrightarrow> r = abs s k \<and> ok s' \<and> abs s' = abs s"
    and put: "ok s \<Longrightarrow> ok (put s k v) \<and> abs (put s k v) = (abs s)(k \<mapsto> v)"
    and ins: "ok s \<Longrightarrow> ins s k v = (b, s') \<Longrightarrow> ok s' \<and> b = (abs s k = None)
      \<and> abs s' = (if b then (abs s)(k \<mapsto> v) else abs s)"
    and del: "ok s \<Longrightarrow> del s k = (b, s') \<Longrightarrow> ok s' \<and> b = (abs s k \<noteq> None)
      \<and> abs s' = (abs s)(k := None)"
    and card_of: "ok s \<Longrightarrow> card_of s = card (dom (abs s)) \<and> finite (dom (abs s))"
begin

lemma get_fst: "ok s \<Longrightarrow> fst (get s k) = abs s k"
  using get [of s k "fst (get s k)" "snd (get s k)"] by simp

lemma get_put:
  assumes "ok s" shows "fst (get (put s k v) k') = (if k' = k then Some v else abs s k')"
  using get_fst [of "put s k v" k'] put [OF assms, of k v] by simp

lemma del_snd: "ok s \<Longrightarrow> ok (snd (del s k)) \<and> fst (del s k) = (abs s k \<noteq> None)
    \<and> abs (snd (del s k)) = (abs s)(k := None)"
  using del [of s k "fst (del s k)" "snd (del s k)"] by simp

lemma get_del:
  assumes "ok s" shows "fst (get (snd (del s k)) k') = (if k' = k then None else abs s k')"
  using get_fst [of "snd (del s k)" k'] del_snd [OF assms, of k] by simp

lemma card_put:
  assumes "ok s" shows "card_of (put s k v) = (if abs s k = None then Suc (card_of s) else card_of s)"
proof -
  have p: "ok (put s k v)" "abs (put s k v) = (abs s)(k \<mapsto> v)" using put [OF assms] by blast+
  have "card_of (put s k v) = card (insert k (dom (abs s)))" using card_of [OF p(1)] p(2) by simp
  then show ?thesis using card_of [OF assms] by (simp add: card_insert_if domIff)
qed

end

interpretation dict: kv_map "dict_ok hf" dict_map "Dict_Get hf" "Dict_Set hf" "Dict_Insert hf"
  "Dict_Delete hf" Dict_Size
  for hf :: "'k \<Rightarrow> nat"
proof (unfold_locales, goal_cases)
  case (1 s k r s')
  then show ?case using Dict_Get_ok [OF 1] by simp
next
  case (2 s k v)
  then show ?case using Dict_Set_ok [OF 2] by simp
next
  case (3 s k v b s')
  then show ?case using InsertRaw_ok [OF 3(1)] by (simp add: Dict_Insert_def)
next
  case (4 s k b s')
  then obtain x where x: "Unlink hf s k = (x, s')" "b = (x \<noteq> None)"
    by (auto simp: Dict_Delete_def split: prod.splits)
  show ?case using Unlink_ok(1,2) [OF 4(1) x(1)] Unlink_ok(3) [OF 4(1) x(1), symmetric] x(2) by simp
next
  case (5 s)
  then show ?case using Dict_Size_ok [OF 5] by simp
qed

section \<open>Properties\<close>

lemma NextExp_2: "NextExp 2 = 1"
proof -
  have e: "NextExp_loop 64 2 2 1 = NextExp_loop (Suc 63) 2 2 1"
    by (rule arg_cong [where f = "\<lambda>n. NextExp_loop n 2 2 1"]) simp
  show ?thesis unfolding NextExp_def e NextExp_loop.simps by simp
qed

lemma Dict_Create_2:
  "Dict_Create 2 = Some (Dict_init\<lparr>ht0 := InitializeTableWithSize 1 2, rehash_idx := None\<rparr>)"
  by (simp add: Dict_Create_def Dict_Expand_def Dict_init_def IsRehashing_def Reset_def NextExp_2
      TableSize_def Let_def)

text \<open>
  C1: A dict is a map.  Whatever rehashing is in progress, \<open>Set\<close> and then \<open>Get\<close> returns the
  new value for the key that was set and the old one for every other key, and \<open>Size\<close> counts the
  keys.
\<close>

theorem Dict_Set_Get:
  assumes "dict_ok hf d"
  shows "fst (Dict_Get hf (Dict_Set hf d k v) k') = (if k' = k then Some v else dict_map d k')
    \<and> dict_ok hf (Dict_Set hf d k v)
    \<and> Dict_Size (Dict_Set hf d k v)
        = (if dict_map d k = None then Suc (Dict_Size d) else Dict_Size d)"
  using assms by (simp add: dict.get_put dict.card_put dict.put)

theorem Dict_Set_Get_witness:
  "\<exists>d. Dict_Create 2 = Some d \<and> fst (Dict_Get id (Dict_Set id d 5 ''x'') 5) = Some ''x''"
proof -
  obtain d :: "(nat, string) dict" where d: "Dict_Create 2 = Some d" using Dict_Create_2 by blast
  from Dict_Set_Get [OF Dict_Create_ok(1) [OF d], of id 5 "''x''" 5] d show ?thesis by auto
qed

text \<open>
  C2: \<open>Delete\<close> removes the key and nothing else, and reports whether the key was there.
\<close>

theorem Dict_Delete_Get:
  assumes "dict_ok hf d"
  shows "fst (Dict_Get hf (snd (Dict_Delete hf d k)) k') = (if k' = k then None else dict_map d k')
    \<and> fst (Dict_Delete hf d k) = (dict_map d k \<noteq> None) \<and> dict_ok hf (snd (Dict_Delete hf d k))"
  using assms dict.del_snd [OF assms, of k] by (simp add: dict.get_del)

theorem Dict_Delete_Get_witness:
  "\<exists>d. Dict_Create 2 = Some d
    \<and> fst (Dict_Get id (snd (Dict_Delete id (Dict_Set id d 5 ''x'') 5)) 5) = None"
proof -
  obtain d :: "(nat, string) dict" where d: "Dict_Create 2 = Some d" using Dict_Create_2 by blast
  from Dict_Delete_Get [OF Dict_Set_ok(1) [OF Dict_Create_ok(1) [OF d]], of id 5 "''x''" 5 5] d
  show ?thesis by auto
qed

lemma RehashStep_pause: "dict_ok hf d \<Longrightarrow> pause_rehash (RehashStepIfNeeded d) = pause_rehash d"
  using Rehash_ok(3) [of hf d 1] by (simp add: RehashStepIfNeeded_def)

lemma Rehash_steps:
  assumes "dict_ok hf d" "pause_rehash d = 0" "rehash_left d \<le> n"
  shows "\<not> IsRehashing ((RehashStepIfNeeded ^^ n) d) \<and> dict_ok hf ((RehashStepIfNeeded ^^ n) d)
    \<and> dict_map ((RehashStepIfNeeded ^^ n) d) = dict_map d"
  using assms
proof (induction n arbitrary: d)
  case 0
  then show ?case by (auto simp: rehash_left_def IsRehashing_def split: option.splits)
next
  case (Suc n)
  let ?d = "RehashStepIfNeeded d"
  have "rehash_left ?d \<le> n"
  proof (cases "IsRehashing d")
    case True
    then show ?thesis using RehashStep_progress [OF Suc.prems(1,2)] Suc.prems(3) by simp
  next
    case False
    then have "?d = d" by (simp add: RehashStepIfNeeded_def Rehash_def)
    then show ?thesis using False by (simp add: rehash_left_def IsRehashing_def)
  qed
  with Suc.IH [of ?d] show ?case
    using RehashStep_ok(1) [OF Suc.prems(1)] RehashStep_pause [OF Suc.prems(1)] Suc.prems(2)
      RehashStep_map [OF Suc.prems(1)]
    by (simp add: funpow_swap1)
qed



end
