(* ===== verification/IntSet.thy ===== *)
theory IntSet
  imports Prelude
begin

text \<open>
  The class \<open>IntSet\<close> (\<open>src/memory/intset.cpp\<close>, \<open>src/memory/intset.h\<close>): a sorted array of 2, 4 or
  8 byte integers that is rewritten with wider slots when a value does not fit.  The slots are
  copied with \<open>std::memcpy\<close>; the model is that of a little-endian machine.  Offsets are computed
  in \<open>unsigned int\<close> and wrap at \<open>2^32\<close>.
\<close>

section \<open>Definitions\<close>

fun le_bytes :: "nat \<Rightarrow> nat \<Rightarrow> nat list" where
  "le_bytes 0 n = []"
| "le_bytes (Suc k) n = n mod 256 # le_bytes k (n div 256)"

fun le_value :: "nat list \<Rightarrow> nat" where
  "le_value [] = 0"
| "le_value (b # bs) = b + 256 * le_value bs"

text \<open>The bytes of an integer of \<open>k\<close> bytes, and the integer in such bytes.\<close>

definition store_int :: "nat \<Rightarrow> int \<Rightarrow> nat list" where
  "store_int k v = le_bytes k (nat (v mod 2 ^ (8 * k)))"

definition load_int :: "nat \<Rightarrow> nat list \<Rightarrow> int" where
  "load_int k bs = (if le_value bs < 2 ^ (8 * k - 1) then int (le_value bs)
     else int (le_value bs) - 2 ^ (8 * k))"

text \<open>\<open>encoding\<close> is the width of a slot: 2 (\<open>kInt16\<close>), 4 (\<open>kInt32\<close>) or 8 (\<open>kInt64\<close>).\<close>

record intset =
  contents :: "nat list"
  is_length :: nat
  encoding :: nat

definition IntSet_new :: intset where
  "IntSet_new = \<lparr>contents = replicate (1 * 2) 0, is_length = 0, encoding = 2\<rparr>"

definition ValueEncoding :: "int \<Rightarrow> nat" where
  "ValueEncoding v =
     (if v < INT32_MIN \<or> v > INT32_MAX then 8
      else if v < INT16_MIN \<or> v > INT16_MAX then 4 else 2)"

definition EncodedValue :: "intset \<Rightarrow> nat \<Rightarrow> nat \<Rightarrow> int res" where
  "EncodedValue s index enc =
     (if index \<ge> is_length s then Inl Out_of_range
      else bindE (rd_range (contents s) (index * enc mod 2 ^ 32) enc) (\<lambda>bs. Inr (load_int enc bs)))"

definition IntSet_Get :: "intset \<Rightarrow> nat \<Rightarrow> int res" where
  "IntSet_Get s index = EncodedValue s index (encoding s)"

text \<open>\<open>is_length - 1\<close> is computed in \<open>unsigned int\<close>.\<close>

definition IntSet_Max :: "intset \<Rightarrow> int res" where
  "IntSet_Max s = IntSet_Get s ((is_length s + 2 ^ 32 - 1) mod 2 ^ 32)"

definition IntSet_Min :: "intset \<Rightarrow> int res" where
  "IntSet_Min s = IntSet_Get s 0"

definition IntSet_Set :: "intset \<Rightarrow> nat \<Rightarrow> int \<Rightarrow> intset res" where
  "IntSet_Set s index v = bindE
     (mem_copy (contents s) (index * encoding s mod 2 ^ 32) (store_int (encoding s) v))
     (\<lambda>c. Inr (s\<lparr>contents := c\<rparr>))"

definition Resize :: "intset \<Rightarrow> nat \<Rightarrow> intset res" where
  "Resize s n = bindE (rd_range (contents s) 0 (min (is_length s) n * encoding s)) (\<lambda>bs.
     bindE (mem_copy (replicate (n * encoding s) 0) 0 bs) (\<lambda>c. Inr (s\<lparr>contents := c\<rparr>)))"

definition MoveTail :: "intset \<Rightarrow> nat \<Rightarrow> nat \<Rightarrow> intset res" where
  "MoveTail s from to = bindE
     (mem_move (contents s) (to * encoding s mod 2 ^ 32) (from * encoding s mod 2 ^ 32)
        ((is_length s - from) * encoding s))
     (\<lambda>c. Inr (s\<lparr>contents := c\<rparr>))"

function Search_loop :: "intset \<Rightarrow> int \<Rightarrow> nat \<Rightarrow> nat \<Rightarrow> (bool \<times> nat) res" where
  "Search_loop s v min_idx max_idx =
     (if min_idx < max_idx then
        let mid = min_idx + (max_idx - min_idx) div 2 in
        bindE (EncodedValue s mid (encoding s)) (\<lambda>val.
          if val = v then Inr (True, mid)
          else if val < v then Search_loop s v (mid + 1) max_idx
          else Search_loop s v min_idx mid)
      else Inr (False, min_idx))"
  by auto
termination
  by (relation "measure (\<lambda>(s, v, lo, hi). hi - lo)") auto

declare Search_loop.simps [simp del]

definition Search :: "intset \<Rightarrow> int \<Rightarrow> (bool \<times> nat) res" where
  "Search s v = bindE
     (if is_length s > 0 then bindE (EncodedValue s 0 (encoding s)) (\<lambda>x. Inr (v < x)) else Inr False)
     (\<lambda>below. if below then Inr (False, 0)
       else bindE
         (if is_length s > 0
          then bindE (EncodedValue s (is_length s - 1) (encoding s)) (\<lambda>x. Inr (v > x)) else Inr False)
         (\<lambda>above. if above then Inr (False, is_length s) else Search_loop s v 0 (is_length s)))"

definition IntSet_Find :: "intset \<Rightarrow> int \<Rightarrow> bool res" where
  "IntSet_Find s v =
     (if ValueEncoding v \<le> encoding s then bindE (Search s v) (\<lambda>(found, _). Inr found)
      else Inr False)"

text \<open>
  \<open>UpgradeAndAdd\<close>: the loop copies the old values, the last one first, into the new slots.
\<close>

fun Upgrade_loop :: "nat list \<Rightarrow> nat \<Rightarrow> nat \<Rightarrow> nat \<Rightarrow> intset \<Rightarrow> intset res" where
  "Upgrade_loop old_contents old_encoding prepend 0 s = Inr s"
| "Upgrade_loop old_contents old_encoding prepend (Suc old_idx) s =
     bindE (rd_range old_contents (old_idx * old_encoding mod 2 ^ 32) old_encoding) (\<lambda>bs.
     bindE (IntSet_Set s (old_idx + prepend) (load_int old_encoding bs)) (\<lambda>s.
       Upgrade_loop old_contents old_encoding prepend old_idx s))"

definition UpgradeAndAdd :: "intset \<Rightarrow> int \<Rightarrow> intset res" where
  "UpgradeAndAdd s v =
     (let enc = ValueEncoding v; old_length = is_length s;
          prepend = (if v < 0 then 1 else 0)
      in bindE (Upgrade_loop (contents s) (encoding s) prepend old_length
                  (s\<lparr>contents := replicate ((old_length + 1) * enc) 0, encoding := enc\<rparr>)) (\<lambda>s.
         bindE (if prepend = 1 then IntSet_Set s 0 v else IntSet_Set s old_length v) (\<lambda>s.
           Inr (s\<lparr>is_length := old_length + 1\<rparr>))))"

definition IntSet_Add :: "intset \<Rightarrow> int \<Rightarrow> (bool \<times> intset) res" where
  "IntSet_Add s v =
     (if ValueEncoding v > encoding s then bindE (UpgradeAndAdd s v) (\<lambda>s. Inr (True, s))
      else bindE (Search s v) (\<lambda>(found, index).
        if found then Inr (False, s)
        else bindE (Resize s (is_length s + 1)) (\<lambda>s.
          bindE (if index < is_length s then MoveTail s index (index + 1) else Inr s) (\<lambda>s.
          bindE (IntSet_Set s index v) (\<lambda>s. Inr (True, s\<lparr>is_length := is_length s + 1\<rparr>))))))"

definition IntSet_Remove :: "intset \<Rightarrow> int \<Rightarrow> (bool \<times> intset) res" where
  "IntSet_Remove s v = bindE (Search s v) (\<lambda>(found, index).
     if \<not> found then Inr (False, s)
     else bindE (MoveTail s (index + 1) index) (\<lambda>s.
       bindE (Resize s (is_length s - 1)) (\<lambda>s. Inr (True, s\<lparr>is_length := is_length s - 1\<rparr>))))"

definition IntSet_Size :: "intset \<Rightarrow> nat" where
  "IntSet_Size s = is_length s"

end
