(* ===== verification/IntSet_Refinement.thy ===== *)
theory IntSet_Refinement
  imports IntSet "HOL-Library.Multiset"
begin

text \<open>
  The integer set as a finite set of integers: the array holds the elements in increasing order
  in slots wide enough for each of them; lookup, insertion, removal and widening are the
  operations on sets, and none of them touches memory outside the array.
\<close>

abbreviation strict_sorted :: "int list \<Rightarrow> bool" where
  "strict_sorted \<equiv> sorted_wrt (<)"

section \<open>Slots\<close>

definition fits :: "nat \<Rightarrow> int \<Rightarrow> bool" where
  "fits k v \<longleftrightarrow> - (2 ^ (8 * k - 1)) \<le> v \<and> v < 2 ^ (8 * k - 1)"

lemma length_le_bytes [simp]: "length (le_bytes k n) = k"
  by (induction k arbitrary: n) simp_all

lemma le_value_le_bytes: "le_value (le_bytes k n) = n mod 2 ^ (8 * k)"
proof (induction k arbitrary: n)
  case (Suc k)
  have "n mod (256 * 2 ^ (8 * k)) = 256 * (n div 256 mod 2 ^ (8 * k)) + n mod 256"
    by (rule mod_mult2_eq)
  then show ?case using Suc by (simp add: power_add)
qed simp

lemma length_store_int [simp]: "length (store_int k v) = k"
  by (simp add: store_int_def)

lemma load_store_int:
  assumes "fits k v" and "0 < k"
  shows "load_int k (store_int k v) = v"
proof -
  obtain m where m: "8 * k = Suc m" "8 * k - 1 = m" using assms(2) by (cases "8 * k") auto
  have b: "- (2 ^ m) \<le> v" "v < 2 ^ m" using assms(1) m(2) by (simp_all add: fits_def)
  let ?u = "nat (v mod 2 ^ Suc m)"
  have "int ?u < 2 ^ Suc m" by simp
  then have "?u < 2 ^ Suc m" by (metis of_nat_less_iff of_nat_numeral of_nat_power)
  then have val: "le_value (store_int k v) = ?u"
    by (simp add: store_int_def le_value_le_bytes m(1))
  have u: "v mod 2 ^ Suc m = (if v < 0 then v + 2 ^ Suc m else v)"
  proof (cases "v < 0")
    case True
    have "v mod 2 ^ Suc m = (v + 2 ^ Suc m) mod 2 ^ Suc m" by simp
    also have "\<dots> = v + 2 ^ Suc m" using True b by (intro mod_pos_pos_trivial) simp_all
    finally show ?thesis using True by simp
  next
    case False
    then show ?thesis using b by (simp add: mod_pos_pos_trivial)
  qed
  have "(?u < 2 ^ m) = (int ?u < 2 ^ m)" by (metis of_nat_less_iff of_nat_numeral of_nat_power)
  then show ?thesis using u b m(2) by (simp add: load_int_def val m(1))
qed

lemma fits_mono: "fits j v \<Longrightarrow> j \<le> k \<Longrightarrow> fits k v"
proof -
  assume f: "fits j v" and "j \<le> k"
  then have "(2::int) ^ (8 * j - 1) \<le> 2 ^ (8 * k - 1)" by (intro power_increasing) simp_all
  with f show ?thesis unfolding fits_def by linarith
qed

definition encoding_ok :: "nat \<Rightarrow> bool" where
  "encoding_ok k \<longleftrightarrow> k = 2 \<or> k = 4 \<or> k = 8"

lemma ValueEncoding_fits:
  assumes "is_int64 v" and "encoding_ok k"
  shows "fits k v \<longleftrightarrow> ValueEncoding v \<le> k" and "encoding_ok (ValueEncoding v)"
  using assms by (auto simp: fits_def ValueEncoding_def is_int64_def encoding_ok_def)

definition slots :: "nat \<Rightarrow> int list \<Rightarrow> nat list" where
  "slots k xs = concat (map (store_int k) xs)"

lemma slots_simps [simp]:
  "slots k [] = []" "slots k (x # xs) = store_int k x @ slots k xs"
  "slots k (xs @ ys) = slots k xs @ slots k ys"
  by (simp_all add: slots_def)

lemma length_slots [simp]: "length (slots k xs) = length xs * k"
  by (induction xs) simp_all

lemma slots_split:
  assumes "i < length xs"
  shows "slots k xs = slots k (take i xs) @ store_int k (xs ! i) @ slots k (drop (Suc i) xs)"
  by (subst id_take_nth_drop [OF assms]) simp

lemma rd_slot:
  assumes "i < length xs"
  shows "rd_range (slots k xs @ t) (i * k) k = Inr (store_int k (xs ! i))"
  using rd_range_append [of "slots k (take i xs)" "store_int k (xs ! i)"
      "slots k (drop (Suc i) xs) @ t"] assms
  by (simp add: slots_split [OF assms])

section \<open>The representation\<close>

text \<open>
  \<open>intset_repr s xs\<close>: the array of \<open>s\<close> starts with the slots of \<open>xs\<close>, in increasing order, and all
  offsets fit 32 bits.
\<close>

definition intset_repr :: "intset \<Rightarrow> int list \<Rightarrow> bool" where
  "intset_repr s xs \<longleftrightarrow> (\<exists>t. contents s = slots (encoding s) xs @ t) \<and> is_length s = length xs \<and>
     encoding_ok (encoding s) \<and> strict_sorted xs \<and> (\<forall>x\<in>set xs. fits (encoding s) x) \<and>
     length xs * encoding s < 2 ^ 32"

definition intset_elems :: "intset \<Rightarrow> int list" where
  "intset_elems s = map (\<lambda>i. load_int (encoding s) (take (encoding s) (drop (i * encoding s) (contents s))))
     [0..<is_length s]"

lemma encoding_ok_pos: "encoding_ok k \<Longrightarrow> 0 < k"
  by (auto simp: encoding_ok_def)

lemma intset_repr_new: "intset_repr IntSet_new []"
  by (simp add: intset_repr_def IntSet_new_def encoding_ok_def)

lemma index_bound:
  fixes i n k :: nat
  assumes "i \<le> n" "n * k < 2 ^ 32"
  shows "i * k mod 2 ^ 32 = i * k"
  using assms by (meson le_less_trans mod_less mult_le_mono1)

lemma EncodedValue_repr:
  assumes "intset_repr s xs" "i < length xs"
  shows "EncodedValue s i (encoding s) = Inr (xs ! i)"
proof -
  from assms obtain t where c: "contents s = slots (encoding s) xs @ t" "is_length s = length xs"
    "encoding_ok (encoding s)" "fits (encoding s) (xs ! i)" "length xs * encoding s < 2 ^ 32"
    by (auto simp: intset_repr_def)
  have "i * encoding s mod 2 ^ 32 = i * encoding s"
    by (rule index_bound [OF less_imp_le [OF assms(2)] c(5)])
  then show ?thesis using rd_slot [OF assms(2), of "encoding s" t] assms(2)
    by (simp add: EncodedValue_def c(1,2) load_store_int [OF c(4) encoding_ok_pos [OF c(3)]])
qed

lemma repr_unique: "intset_repr s xs \<Longrightarrow> intset_repr s ys \<Longrightarrow> xs = ys"
proof (rule nth_equalityI)
  assume r: "intset_repr s xs" "intset_repr s ys"
  then show l: "length xs = length ys" by (simp add: intset_repr_def)
  fix i assume "i < length xs"
  with EncodedValue_repr [OF r(1)] EncodedValue_repr [OF r(2)] l show "xs ! i = ys ! i" by simp
qed

section \<open>Search\<close>

definition search_result :: "int list \<Rightarrow> int \<Rightarrow> bool \<times> nat \<Rightarrow> bool" where
  "search_result xs v r \<longleftrightarrow> (case r of
     (True, i) \<Rightarrow> i < length xs \<and> xs ! i = v
   | (False, i) \<Rightarrow> i \<le> length xs \<and> (\<forall>x\<in>set (take i xs). x < v) \<and> (\<forall>x\<in>set (drop i xs). v < x))"

lemma search_result_simps [simp]:
  "search_result xs v (True, i) \<longleftrightarrow> i < length xs \<and> xs ! i = v"
  "search_result xs v (False, i) \<longleftrightarrow>
     i \<le> length xs \<and> (\<forall>x\<in>set (take i xs). x < v) \<and> (\<forall>x\<in>set (drop i xs). v < x)"
  by (simp_all add: search_result_def)

lemma search_result_found: "search_result xs v (b, i) \<Longrightarrow> b \<longleftrightarrow> v \<in> set xs"
  by (cases b) (auto, metis append_take_drop_id less_irrefl Un_iff set_append)

lemma search_bounds:
  assumes "strict_sorted xs" "m < length xs"
  shows "xs ! m < v \<Longrightarrow> \<forall>x\<in>set (take (Suc m) xs). x < v"
    and "v < xs ! m \<Longrightarrow> \<forall>x\<in>set (drop m xs). v < (x::int)"
proof -
  have split: "xs = take m xs @ xs ! m # drop (Suc m) xs" by (rule id_take_nth_drop [OF assms(2)])
  have "strict_sorted (take m xs @ xs ! m # drop (Suc m) xs)" using assms(1) split by simp
  then have below: "\<forall>x\<in>set (take m xs). x < xs ! m"
    and above: "\<forall>x\<in>set (drop (Suc m) xs). xs ! m < x"
    by (simp_all add: sorted_wrt_append)
  show "xs ! m < v \<Longrightarrow> \<forall>x\<in>set (take (Suc m) xs). x < v"
    using below assms(2) by (auto simp: take_Suc_conv_app_nth)
  show "v < xs ! m \<Longrightarrow> \<forall>x\<in>set (drop m xs). v < x"
    using above by (auto simp: Cons_nth_drop_Suc [OF assms(2), symmetric])
qed

lemma Search_loop_repr:
  assumes r: "intset_repr s xs"
    and "lo \<le> hi" "hi \<le> length xs" "\<forall>x\<in>set (take lo xs). x < v" "\<forall>x\<in>set (drop hi xs). v < x"
  shows "\<exists>res. Search_loop s v lo hi = Inr res \<and> search_result xs v res"
  using assms
proof (induction s v lo hi rule: Search_loop.induct)
  case (1 s v lo hi)
  note r = "1.prems"(1)
  have so: "strict_sorted xs" using r by (simp add: intset_repr_def)
  show ?case
  proof (cases "lo < hi")
    case False
    then have "lo = hi" using "1.prems"(2) by simp
    then show ?thesis using "1.prems" by (simp add: Search_loop.simps)
  next
    case True
    define mid where "mid = lo + (hi - lo) div 2"
    have m: "lo \<le> mid" "mid < hi" "mid < length xs" using True "1.prems"(3) by (simp_all add: mid_def)
    note ev = EncodedValue_repr [OF r m(3)]
    have step: "Search_loop s v lo hi = (if xs ! mid = v then Inr (True, mid)
        else if xs ! mid < v then Search_loop s v (mid + 1) hi else Search_loop s v lo mid)"
      using True by (subst Search_loop.simps) (simp add: mid_def [symmetric] ev)
    consider "xs ! mid = v" | "xs ! mid < v" | "v < xs ! mid" by linarith
    then show ?thesis
    proof cases
      case 1
      then show ?thesis using step m(3) by simp
    next
      case 2
      have "\<exists>res. Search_loop s v (mid + 1) hi = Inr res \<and> search_result xs v res"
        using "1.IH"(1) [OF True mid_def ev] 2 m "1.prems" search_bounds(1) [OF so m(3) 2] by simp
      then show ?thesis using step 2 by simp
    next
      case 3
      have "\<exists>res. Search_loop s v lo mid = Inr res \<and> search_result xs v res"
        using "1.IH"(2) [OF True mid_def ev] 3 m "1.prems" search_bounds(2) [OF so m(3) 3] by simp
      then show ?thesis using step 3 by simp
    qed
  qed
qed

lemma Search_repr:
  assumes r: "intset_repr s xs"
  shows "\<exists>res. Search s v = Inr res \<and> search_result xs v res"
proof (cases "xs = []")
  case True
  then show ?thesis using r Search_loop_repr [OF r, of 0 0 v]
    by (simp add: Search_def intset_repr_def)
next
  case False
  have len: "is_length s = length xs" and so: "strict_sorted xs" using r by (simp_all add: intset_repr_def)
  have e0: "EncodedValue s 0 (encoding s) = Inr (xs ! 0)"
    and e1: "EncodedValue s (length xs - Suc 0) (encoding s) = Inr (xs ! (length xs - Suc 0))"
    using EncodedValue_repr [OF r] False by simp_all
  have b0: "v < xs ! 0 \<Longrightarrow> \<forall>x\<in>set xs. v < x"
    using search_bounds(2) [OF so, of 0 v] False by simp
  have b1: "xs ! (length xs - Suc 0) < v \<Longrightarrow> \<forall>x\<in>set xs. x < v"
    using search_bounds(1) [OF so, of "length xs - Suc 0" v] False by simp
  obtain res where res: "Search_loop s v 0 (length xs) = Inr res" "search_result xs v res"
    using Search_loop_repr [OF r, of 0 "length xs" v] by auto
  show ?thesis using b0 b1 res False
    by (cases "v < xs ! 0"; cases "xs ! (length xs - Suc 0) < v") (simp_all add: Search_def len e0 e1)
qed

section \<open>Writing slots\<close>

lemma IntSet_Set_slots:
  assumes "contents s = pre @ old @ post" "length pre = i * encoding s" "length old = encoding s"
    "i * encoding s < 2 ^ 32"
  shows "IntSet_Set s i v = Inr (s\<lparr>contents := pre @ store_int (encoding s) v @ post\<rparr>)"
  using mem_copy_append [of "store_int (encoding s) v" old pre post] assms
  by (simp add: IntSet_Set_def)

lemma Resize_slots:
  assumes "contents s = slots (encoding s) xs @ t" "is_length s = n" "min n m \<le> length xs"
  shows "Resize s m = Inr (s\<lparr>contents := slots (encoding s) (take (min n m) xs) @
     replicate ((m - min n m) * encoding s) 0\<rparr>)"
proof -
  let ?k = "min n m"
  have "slots (encoding s) xs = slots (encoding s) (take ?k xs) @ slots (encoding s) (drop ?k xs)"
    by (metis append_take_drop_id slots_simps(3))
  then have rd: "rd_range (contents s) 0 (?k * encoding s) = Inr (slots (encoding s) (take ?k xs))"
    using rd_range_append [of "[]" "slots (encoding s) (take ?k xs)"
        "slots (encoding s) (drop ?k xs) @ t"] assms(1,3) by simp
  have "?k * encoding s \<le> m * encoding s" by simp
  then have "mem_copy (replicate (m * encoding s) 0) 0 (slots (encoding s) (take ?k xs)) =
      Inr (slots (encoding s) (take ?k xs) @ replicate ((m - ?k) * encoding s) 0)"
    using assms(3) by (simp add: mem_copy_def diff_mult_distrib)
  then show ?thesis using rd by (simp add: Resize_def assms(2))
qed

lemma strict_sorted_insort_split:
  assumes "strict_sorted xs" "\<forall>x\<in>set (take i xs). x < v" "\<forall>x\<in>set (drop i xs). v < (x::int)"
  shows "strict_sorted (take i xs @ v # drop i xs)" "insort v xs = take i xs @ v # drop i xs"
proof -
  have "strict_sorted (take i xs @ drop i xs)" using assms(1) by simp
  then show so: "strict_sorted (take i xs @ v # drop i xs)" using assms(2,3)
    unfolding sorted_wrt_append by force
  have "mset (insort v xs) = mset (take i xs @ drop i xs) + {#v#}" by simp
  then have m: "mset (insort v xs) = mset (take i xs @ v # drop i xs)"
    unfolding mset_append mset.simps by simp
  have "sorted (insort v xs)" using assms(1) by (simp add: sorted_insort strict_sorted_imp_sorted)
  moreover have "sorted (take i xs @ v # drop i xs)" using so by (rule strict_sorted_imp_sorted)
  ultimately show "insort v xs = take i xs @ v # drop i xs"
    using m by (metis sorted_sort_id properties_for_sort)
qed

section \<open>Operations\<close>

lemma repr_intro:
  assumes "intset_repr s xs" "contents s' = slots (encoding s) ys @ t" "encoding s' = encoding s"
    "is_length s' = length ys" "strict_sorted ys" "\<forall>x\<in>set ys. fits (encoding s) x"
    "length ys * encoding s < 2 ^ 32"
  shows "intset_repr s' ys"
  using assms by (auto simp: intset_repr_def)

lemma open_slot:
  assumes r: "intset_repr s xs" and i: "i \<le> length xs" and b: "Suc (length xs) * encoding s < 2 ^ 32"
  shows "\<exists>g. length g = encoding s \<and>
    bindE (Resize s (is_length s + 1)) (\<lambda>s. if i < is_length s then MoveTail s i (i + 1) else Inr s)
      = Inr (s\<lparr>contents := slots (encoding s) (take i xs) @ g @ slots (encoding s) (drop i xs)\<rparr>)"
proof -
  let ?e = "encoding s"
  from r obtain t where c: "contents s = slots ?e xs @ t" and len: "is_length s = length xs"
    by (auto simp: intset_repr_def)
  have rs: "Resize s (length xs + 1) = Inr (s\<lparr>contents := slots ?e xs @ replicate ?e 0\<rparr>)"
    using Resize_slots [OF c len, of "length xs + 1"] by simp
  have sp: "slots ?e xs = slots ?e (take i xs) @ slots ?e (drop i xs)"
    by (metis append_take_drop_id slots_simps(3))
  have "Suc i * ?e < 2 ^ 32" by (rule le_less_trans [OF mult_le_mono1 b]) (use i in simp)
  then have ib: "i * ?e + ?e < 2 ^ 32" by simp
  show ?thesis
  proof (cases "i < length xs")
    case True
    obtain g u where mv: "mem_move (slots ?e (take i xs) @ [] @ slots ?e (drop i xs) @ replicate ?e 0)
          (length (slots ?e (take i xs)) + ?e) (length (slots ?e (take i xs)) + length [])
          (length (slots ?e (drop i xs)))
        = Inr (slots ?e (take i xs) @ g @ slots ?e (drop i xs) @ u)"
      "length g = ?e" "length u = length [] + length (replicate ?e (0::nat)) - ?e"
      by (rule mem_move_gap [where xs = "slots ?e (take i xs)" and ds = "[]" and ys = "slots ?e (drop i xs)"
          and zs = "replicate ?e 0" and k = ?e]) auto
    have "(length xs - i) * ?e = length (slots ?e (drop i xs))" by simp
    moreover have "Suc i * ?e = length (slots ?e (take i xs)) + ?e" using i by simp
    ultimately have "MoveTail (s\<lparr>contents := slots ?e xs @ replicate ?e 0\<rparr>) i (Suc i)
        = Inr (s\<lparr>contents := slots ?e (take i xs) @ g @ slots ?e (drop i xs)\<rparr>)"
      using mv i ib by (simp add: MoveTail_def len sp add.commute)
    then show ?thesis using mv(2) rs True by (intro exI [of _ g]) (simp add: len)
  next
    case False
    then show ?thesis using rs i by (intro exI [of _ "replicate ?e 0"]) (simp add: len)
  qed
qed

lemma IntSet_Add_insert:
  assumes r: "intset_repr s xs" and v: "fits (encoding s) v" and nf: "v \<notin> set xs"
    and enc: "ValueEncoding v \<le> encoding s" and b: "Suc (length xs) * encoding s < 2 ^ 32"
  shows "\<exists>s'. IntSet_Add s v = Inr (True, s') \<and> intset_repr s' (insort v xs) \<and> encoding s' = encoding s"
proof -
  let ?e = "encoding s"
  obtain i where se: "Search s v = Inr (False, i)" and sr: "search_result xs v (False, i)"
    using Search_repr [OF r, of v] search_result_found nf by (metis surj_pair)
  have i: "i \<le> length xs" and lt: "\<forall>x\<in>set (take i xs). x < v" and gt: "\<forall>x\<in>set (drop i xs). v < x"
    using sr by simp_all
  have len: "is_length s = length xs" and so: "strict_sorted xs" and fx: "\<forall>x\<in>set xs. fits ?e x"
    using r by (simp_all add: intset_repr_def)
  note ins = strict_sorted_insort_split [OF so lt gt]
  obtain g where g: "length g = ?e" and op:
    "bindE (Resize s (is_length s + 1)) (\<lambda>s. if i < is_length s then MoveTail s i (i + 1) else Inr s)
      = Inr (s\<lparr>contents := slots ?e (take i xs) @ g @ slots ?e (drop i xs)\<rparr>)"
    using open_slot [OF r i b] by auto
  let ?s1 = "s\<lparr>contents := slots ?e (take i xs) @ g @ slots ?e (drop i xs)\<rparr>"
  have "i * ?e < 2 ^ 32" using i b by (meson le_less_trans le_SucI mult_le_mono1)
  then have st: "IntSet_Set ?s1 i v =
      Inr (?s1\<lparr>contents := slots ?e (take i xs) @ store_int ?e v @ slots ?e (drop i xs)\<rparr>)"
    using IntSet_Set_slots [of ?s1 "slots ?e (take i xs)" g "slots ?e (drop i xs)" i v] g i by simp
  let ?s2 = "s\<lparr>contents := slots ?e (take i xs) @ store_int ?e v @ slots ?e (drop i xs),
      is_length := Suc (length xs)\<rparr>"
  have "IntSet_Add s v = bindE (bindE (Resize s (is_length s + 1))
        (\<lambda>s. if i < is_length s then MoveTail s i (i + 1) else Inr s))
      (\<lambda>s. bindE (IntSet_Set s i v) (\<lambda>s. Inr (True, s\<lparr>is_length := is_length s + 1\<rparr>)))"
    using enc by (simp add: IntSet_Add_def se bindE_assoc)
  also have "\<dots> = Inr (True, ?s2)" unfolding op by (simp add: st len)
  finally have res: "IntSet_Add s v = Inr (True, ?s2)" .
  have "\<forall>x\<in>set (insort v xs). fits ?e x" using fx v by (simp add: set_insort_key)
  then have "intset_repr ?s2 (insort v xs)"
    using repr_intro [OF r, of ?s2 "insort v xs" "[]"] b i ins by simp
  then show ?thesis using res by auto
qed

lemma IntSet_Remove_repr:
  assumes r: "intset_repr s xs"
  shows "\<exists>s'. IntSet_Remove s v = Inr (v \<in> set xs, s') \<and> intset_repr s' (remove1 v xs)"
proof (cases "v \<in> set xs")
  case False
  then obtain i where "Search s v = Inr (False, i)"
    using Search_repr [OF r, of v] search_result_found by (metis surj_pair)
  then show ?thesis using r False by (simp add: IntSet_Remove_def remove1_idem)
next
  case True
  let ?e = "encoding s"
  obtain i where se: "Search s v = Inr (True, i)" and "search_result xs v (True, i)"
    using Search_repr [OF r, of v] search_result_found True by (metis surj_pair)
  then have i: "i < length xs" "xs ! i = v" by simp_all
  from r obtain t where c: "contents s = slots ?e xs @ t" and len: "is_length s = length xs"
    and so: "strict_sorted xs" and fx: "\<forall>x\<in>set xs. fits ?e x" and b: "length xs * ?e < 2 ^ 32"
    by (auto simp: intset_repr_def)
  let ?ys = "take i xs @ drop (Suc i) xs"
  have sp: "xs = take i xs @ v # drop (Suc i) xs" using id_take_nth_drop [OF i(1)] i(2) by simp
  have so2: "strict_sorted (take i xs @ v # drop (Suc i) xs)" using so sp by simp
  then have "v \<notin> set (take i xs)" by (auto simp: sorted_wrt_append)
  then have rm: "remove1 v xs = ?ys" by (subst sp) (simp add: remove1_append)
  obtain g u where mv: "mem_move (slots ?e (take i xs) @ store_int ?e v @ slots ?e (drop (Suc i) xs) @ t)
        (length (slots ?e (take i xs)) + 0) (length (slots ?e (take i xs)) + length (store_int ?e v))
        (length (slots ?e (drop (Suc i) xs)))
      = Inr (slots ?e (take i xs) @ g @ slots ?e (drop (Suc i) xs) @ u)" "length g = 0"
    by (rule mem_move_gap [where xs = "slots ?e (take i xs)" and ds = "store_int ?e v"
        and ys = "slots ?e (drop (Suc i) xs)" and zs = t and k = 0]) auto
  have "Suc i * ?e < 2 ^ 32" by (rule le_less_trans [OF mult_le_mono1 b]) (use i(1) in simp)
  then have ib: "i * ?e + ?e < 2 ^ 32" by simp
  have cs: "contents s = slots ?e (take i xs) @ store_int ?e v @ slots ?e (drop (Suc i) xs) @ t"
    using slots_split [OF i(1)] i(2) c by simp
  have m1: "MoveTail s (Suc i) i = Inr (s\<lparr>contents := slots ?e ?ys @ u\<rparr>)"
    using mv i(1) ib by (simp add: MoveTail_def len cs diff_mult_distrib add.commute)
  let ?s1 = "s\<lparr>contents := slots ?e ?ys @ u\<rparr>"
  have lys: "length ?ys = length xs - 1" using i(1) by simp
  have m2: "Resize ?s1 (length xs - Suc 0) = Inr (s\<lparr>contents := slots ?e ?ys @ []\<rparr>)"
    using Resize_slots [of ?s1 ?ys u "length xs" "length xs - 1"] len lys i(1) by simp
  let ?s2 = "s\<lparr>contents := slots ?e ?ys @ [], is_length := length xs - 1\<rparr>"
  have res: "IntSet_Remove s v = Inr (True, ?s2)"
    by (simp add: IntSet_Remove_def se m1 m2 [simplified] len)
  have "intset_repr ?s2 ?ys"
  proof (rule repr_intro [OF r, of _ _ "[]"])
    show "strict_sorted ?ys" using so2 by (auto simp: sorted_wrt_append)
    show "\<forall>x\<in>set ?ys. fits ?e x" using fx by (auto dest: in_set_takeD in_set_dropD)
    show "length ?ys * ?e < 2 ^ 32" using b lys by (metis diff_le_self le_less_trans mult_le_mono1)
  qed (use lys in simp_all)
  then show ?thesis using res rm True by auto
qed

lemma IntSet_Find_repr:
  assumes r: "intset_repr s xs" and v: "is_int64 v"
  shows "IntSet_Find s v = Inr (v \<in> set xs)"
proof (cases "ValueEncoding v \<le> encoding s")
  case True
  obtain b i where "Search s v = Inr (b, i)" "search_result xs v (b, i)"
    using Search_repr [OF r, of v] by (metis surj_pair)
  then show ?thesis using search_result_found True by (auto simp: IntSet_Find_def)
next
  case False
  then have "v \<notin> set xs" using ValueEncoding_fits(1) [OF v] r by (auto simp: intset_repr_def)
  then show ?thesis using False by (simp add: IntSet_Find_def)
qed

subsection \<open>Widening\<close>

lemma Upgrade_loop_repr:
  assumes old: "old = slots k xs @ t" "encoding_ok k" "\<forall>x\<in>set xs. fits k x"
    and b: "(length xs + 1) * e < 2 ^ 32" "length xs * k < 2 ^ 32" and p: "p \<le> 1"
    and n: "n \<le> length xs" and e: "encoding s = e"
    and c: "contents s = pre @ slots e (drop n xs) @ post" "length pre = (n + p) * e"
  shows "\<exists>pre'. length pre' = p * e \<and>
    Upgrade_loop old k p n s = Inr (s\<lparr>contents := pre' @ slots e xs @ post\<rparr>)"
  using n e c
proof (induction n arbitrary: s pre)
  case 0
  then show ?case by (intro exI [of _ pre]) simp
next
  case (Suc n)
  have n: "n < length xs" using Suc.prems(1) by simp
  have "rd_range old (n * k mod 2 ^ 32) k = Inr (store_int k (xs ! n))"
    using rd_slot [OF n, of k t] index_bound [of n, OF _ b(2)] n old(1) by simp
  moreover have "load_int k (store_int k (xs ! n)) = xs ! n"
    using load_store_int old(2,3) encoding_ok_pos n by simp
  moreover obtain pre1 g where pg: "pre = pre1 @ g" "length pre1 = (n + p) * e" "length g = e"
    using Suc.prems(4) by (metis append_take_drop_id length_take length_drop add_Suc
        add_diff_cancel_left' diff_add_inverse2 le_add2 min.absorb2 mult_Suc)
  let ?s1 = "s\<lparr>contents := pre1 @ slots e (drop n xs) @ post\<rparr>"
  have "(n + p) * e < 2 ^ 32" using b(1) p n by (meson add_mono le_less_trans less_imp_le mult_le_mono1)
  then have "IntSet_Set s (n + p) (xs ! n) = Inr ?s1"
    using IntSet_Set_slots [of s pre1 g "slots e (drop (Suc n) xs) @ post" "n + p" "xs ! n"]
      Suc.prems pg Cons_nth_drop_Suc [OF n, symmetric] by simp
  ultimately have step: "Upgrade_loop old k p (Suc n) s = Upgrade_loop old k p n ?s1" by simp
  have "\<exists>pre'. length pre' = p * e \<and>
      Upgrade_loop old k p n ?s1 = Inr (?s1\<lparr>contents := pre' @ slots e xs @ post\<rparr>)"
    by (rule Suc.IH [of ?s1 pre1]) (use n Suc.prems(2) pg(2) in simp_all)
  then show ?case unfolding step by simp
qed

lemma UpgradeAndAdd_repr:
  assumes r: "intset_repr s xs" and v: "is_int64 v" and w: "encoding s < ValueEncoding v"
    and b: "Suc (length xs) * ValueEncoding v < 2 ^ 32"
  shows "\<exists>s'. UpgradeAndAdd s v = Inr s' \<and> intset_repr s' (insort v xs) \<and> encoding s' = ValueEncoding v"
proof -
  define e where "e = ValueEncoding v"
  define p where "p = (if v < 0 then 1 else 0 :: nat)"
  from r obtain t where c: "contents s = slots (encoding s) xs @ t" and len: "is_length s = length xs"
    and ok: "encoding_ok (encoding s)" and so: "strict_sorted xs"
    and fx: "\<forall>x\<in>set xs. fits (encoding s) x" and b0: "length xs * encoding s < 2 ^ 32"
    by (auto simp: intset_repr_def)
  have oke: "encoding_ok e" and fv: "fits e v" and nv: "\<not> fits (encoding s) v"
    using ValueEncoding_fits [OF v] ok w by (auto simp: e_def)
  have fe: "\<forall>x\<in>set xs. fits e x" using fx w fits_mono by (auto simp: e_def)
  have ends: "if v < 0 then \<forall>x\<in>set xs. v < x else \<forall>x\<in>set xs. x < v"
    using fx nv by (fastforce simp: fits_def)
  let ?s0 = "s\<lparr>contents := replicate ((length xs + 1) * e) 0, encoding := e\<rparr>"
  have p: "p \<le> 1" by (simp add: p_def)
  have spl: "replicate ((length xs + 1) * e) (0::nat) =
      replicate ((length xs + p) * e) 0 @ replicate ((1 - p) * e) 0"
    by (simp add: replicate_add [symmetric] p_def)
  obtain pre where pre: "length pre = p * e" and lp:
    "Upgrade_loop (contents s) (encoding s) p (length xs) ?s0
       = Inr (?s0\<lparr>contents := pre @ slots e xs @ replicate ((1 - p) * e) 0\<rparr>)"
    using Upgrade_loop_repr [OF c ok fx, of e p "length xs" ?s0 "replicate ((length xs + p) * e) 0"
        "replicate ((1 - p) * e) 0"] b b0 spl p by (auto simp: e_def [symmetric])
  let ?ys = "if v < 0 then v # xs else xs @ [v]"
  let ?s1 = "?s0\<lparr>contents := pre @ slots e xs @ replicate ((1 - p) * e) 0\<rparr>"
  have st: "(if p = 1 then IntSet_Set ?s1 0 v else IntSet_Set ?s1 (length xs) v)
      = Inr (?s0\<lparr>contents := slots e ?ys\<rparr>)"
    using IntSet_Set_slots [of ?s1 "[]" pre "slots e xs" 0 v]
      IntSet_Set_slots [of ?s1 "slots e xs" "replicate e 0" "[]" "length xs" v] pre b
    by (auto simp: p_def e_def [symmetric])
  have res: "UpgradeAndAdd s v = Inr (?s0\<lparr>contents := slots e ?ys, is_length := length xs + 1\<rparr>)"
    by (simp only: UpgradeAndAdd_def Let_def e_def [symmetric] p_def [symmetric] len lp st bindE_Inr)
  have "insort v xs = ?ys" "strict_sorted ?ys"
    using strict_sorted_insort_split [OF so, of 0 v] strict_sorted_insort_split [OF so, of "length xs" v]
      ends by (auto split: if_splits)
  moreover have "intset_repr (?s0\<lparr>contents := slots e ?ys, is_length := length xs + 1\<rparr>) ?ys"
    using calculation(2) oke fe fv b by (auto simp: intset_repr_def e_def [symmetric])
  ultimately show ?thesis using res by (simp add: e_def)
qed


section \<open>The set contract\<close>

text \<open>
  What a client of a set container relies on: membership, insertion and removal are those of the
  finite set the container stands for, each reports whether it changed the set, and the size is
  the cardinality.  \<open>room\<close> says when one more element fits, \<open>item\<close> which values are elements.
\<close>

locale set_container =
  fixes ok :: "'s \<Rightarrow> bool" and elems :: "'s \<Rightarrow> 'a set" and item :: "'a \<Rightarrow> bool"
    and room :: "'s \<Rightarrow> 'a \<Rightarrow> bool" and count :: "'s \<Rightarrow> nat"
    and find :: "'s \<Rightarrow> 'a \<Rightarrow> bool res"
    and add :: "'s \<Rightarrow> 'a \<Rightarrow> (bool \<times> 's) res" and del :: "'s \<Rightarrow> 'a \<Rightarrow> (bool \<times> 's) res"
  assumes elems_finite: "ok s \<Longrightarrow> finite (elems s)"
    and count_card: "ok s \<Longrightarrow> count s = card (elems s)"
    and find_elem: "ok s \<Longrightarrow> item x \<Longrightarrow> find s x = Inr (x \<in> elems s)"
    and add_elem: "ok s \<Longrightarrow> item x \<Longrightarrow> room s x \<Longrightarrow>
      \<exists>s'. add s x = Inr (x \<notin> elems s, s') \<and> ok s' \<and> elems s' = insert x (elems s)"
    and del_elem: "ok s \<Longrightarrow> item x \<Longrightarrow>
      \<exists>s'. del s x = Inr (x \<in> elems s, s') \<and> ok s' \<and> elems s' = elems s - {x}"
begin

lemma add_then_find:
  assumes "ok s" "item x" "item y" "room s x"
  shows "\<exists>s'. add s x = Inr (x \<notin> elems s, s') \<and> ok s' \<and> find s' y = Inr (y = x \<or> y \<in> elems s) \<and>
    count s' = count s + (if x \<in> elems s then 0 else 1)"
proof -
  from add_elem [OF assms(1,2,4)] obtain s' where
    s': "add s x = Inr (x \<notin> elems s, s')" "ok s'" "elems s' = insert x (elems s)" by blast
  have "count s' = count s + (if x \<in> elems s then 0 else 1)"
    using s' count_card elems_finite assms(1) by (simp add: card_insert_if)
  then show ?thesis using s' find_elem [OF s'(2) assms(3)] by auto
qed

lemma del_then_find:
  assumes "ok s" "item x" "item y"
  shows "\<exists>s'. del s x = Inr (x \<in> elems s, s') \<and> ok s' \<and> find s' y = Inr (y \<noteq> x \<and> y \<in> elems s) \<and>
    count s' = count s - (if x \<in> elems s then 1 else 0)"
proof -
  from del_elem [OF assms(1,2)] obtain s' where
    s': "del s x = Inr (x \<in> elems s, s')" "ok s'" "elems s' = elems s - {x}" by blast
  have "count s' = count s - (if x \<in> elems s then 1 else 0)"
    using s' count_card elems_finite assms(1) by (simp add: card_Diff_singleton_if)
  then show ?thesis using s' find_elem [OF s'(2) assms(3)] by auto
qed

end

definition intset_ok :: "intset \<Rightarrow> bool" where
  "intset_ok s \<longleftrightarrow> intset_repr s (intset_elems s)"

definition intset_set :: "intset \<Rightarrow> int set" where
  "intset_set s = set (intset_elems s)"

definition intset_room :: "intset \<Rightarrow> int \<Rightarrow> bool" where
  "intset_room s v \<longleftrightarrow> (is_length s + 1) * max (encoding s) (ValueEncoding v) < 2 ^ 32"

lemma repr_elems:
  assumes r: "intset_repr s xs"
  shows "intset_elems s = xs"
proof (rule nth_equalityI)
  show "length (intset_elems s) = length xs" using r by (simp add: intset_elems_def intset_repr_def)
  fix i assume "i < length (intset_elems s)"
  then have i: "i < length xs" using r by (simp add: intset_elems_def intset_repr_def)
  from r have b: "length xs * encoding s < 2 ^ 32" by (simp add: intset_repr_def)
  show "intset_elems s ! i = xs ! i"
    using EncodedValue_repr [OF r i] i index_bound [OF less_imp_le [OF i] b] r
    by (simp add: EncodedValue_def rd_range_def intset_elems_def intset_repr_def split: if_splits)
qed

lemma intset_ok_iff: "intset_ok s \<longleftrightarrow> (\<exists>xs. intset_repr s xs)"
  using repr_elems by (auto simp: intset_ok_def)

lemma IntSet_Add_repr:
  assumes r: "intset_repr s xs" and v: "is_int64 v" and room: "intset_room s v"
  shows "\<exists>s'. IntSet_Add s v = Inr (v \<notin> set xs, s') \<and>
    intset_repr s' (if v \<in> set xs then xs else insort v xs)"
proof -
  have ok: "encoding_ok (encoding s)" and len: "is_length s = length xs"
    and fx: "\<forall>x\<in>set xs. fits (encoding s) x" using r by (simp_all add: intset_repr_def)
  consider "encoding s < ValueEncoding v" | "ValueEncoding v \<le> encoding s" "v \<in> set xs"
    | "ValueEncoding v \<le> encoding s" "v \<notin> set xs" by linarith
  then show ?thesis
  proof cases
    case 1
    then have "v \<notin> set xs" using ValueEncoding_fits(1) [OF v ok] fx by auto
    moreover have "Suc (length xs) * ValueEncoding v < 2 ^ 32"
      using room 1 len by (simp add: intset_room_def max_def)
    ultimately show ?thesis using UpgradeAndAdd_repr [OF r v 1] 1 by (auto simp: IntSet_Add_def)
  next
    case 2
    then obtain i where "Search s v = Inr (True, i)"
      using Search_repr [OF r, of v] search_result_found by (metis surj_pair)
    then show ?thesis using 2 r by (simp add: IntSet_Add_def)
  next
    case 3
    have "Suc (length xs) * encoding s < 2 ^ 32"
      using room 3(1) len by (simp add: intset_room_def max_def split: if_splits)
    then show ?thesis
      using IntSet_Add_insert [OF r _ 3(2,1)] ValueEncoding_fits(1) [OF v ok] 3 by auto
  qed
qed

lemma repr_distinct: "intset_repr s xs \<Longrightarrow> distinct xs"
  by (simp add: intset_repr_def strict_sorted_iff)

interpretation iset: set_container intset_ok intset_set is_int64 intset_room IntSet_Size
  IntSet_Find IntSet_Add IntSet_Remove
proof
  fix s :: intset and x :: int
  assume ok: "intset_ok s"
  note r = ok [unfolded intset_ok_def]
  show "finite (intset_set s)" by (simp add: intset_set_def)
  show "IntSet_Size s = card (intset_set s)"
    using r repr_distinct [OF r] by (simp add: IntSet_Size_def intset_set_def intset_repr_def distinct_card)
  show "\<exists>s'. IntSet_Remove s x = Inr (x \<in> intset_set s, s') \<and> intset_ok s' \<and> intset_set s' = intset_set s - {x}"
    using IntSet_Remove_repr [OF r, of x] repr_elems repr_distinct [OF r]
    by (auto simp: intset_ok_iff intset_set_def set_remove1_eq)
  assume v: "is_int64 x"
  show "IntSet_Find s x = Inr (x \<in> intset_set s)"
    using IntSet_Find_repr [OF r v] by (simp add: intset_set_def)
  assume room: "intset_room s x"
  show "\<exists>s'. IntSet_Add s x = Inr (x \<notin> intset_set s, s') \<and> intset_ok s' \<and> intset_set s' = insert x (intset_set s)"
    using IntSet_Add_repr [OF r v room] repr_elems
    by (auto simp: intset_ok_iff intset_set_def set_insort_key split: if_splits)
qed

lemma IntSet_Min_Max_repr:
  assumes r: "intset_repr s xs"
  shows "IntSet_Min s = (if xs = [] then Inl Out_of_range else Inr (Min (set xs)))"
    and "IntSet_Max s = (if xs = [] then Inl Out_of_range else Inr (Max (set xs)))"
proof -
  have len: "is_length s = length xs" and so: "strict_sorted xs" using r by (simp_all add: intset_repr_def)
  have "0 < encoding s" "length xs * encoding s < 2 ^ 32"
    using r encoding_ok_pos by (auto simp: intset_repr_def)
  then have b: "length xs < 2 ^ 32" by (cases "encoding s") (auto intro: le_less_trans [rotated])
  have srt: "sorted xs" by (rule strict_sorted_imp_sorted [OF so])
  have "xs \<noteq> [] \<Longrightarrow> Min (set xs) = xs ! 0"
    using srt by (cases xs) (auto intro!: Min_eqI)
  then show "IntSet_Min s = (if xs = [] then Inl Out_of_range else Inr (Min (set xs)))"
    using EncodedValue_repr [OF r, of 0] len
    by (auto simp: IntSet_Min_def IntSet_Get_def EncodedValue_def [of s 0])
  have mx: "xs \<noteq> [] \<Longrightarrow> Max (set xs) = xs ! (length xs - 1)"
    using srt by (intro Max_eqI) (auto simp: in_set_conv_nth sorted_iff_nth_mono intro: exI [of _ "length xs - 1"])
  have idx: "xs \<noteq> [] \<Longrightarrow> (length xs + 2 ^ 32 - 1) mod 2 ^ 32 = length xs - 1"
  proof -
    assume "xs \<noteq> []"
    then have "length xs + 2 ^ 32 - 1 = (length xs - 1) + 2 ^ 32" by (cases xs) simp_all
    then show ?thesis using b by (simp only: mod_add_self2) simp
  qed
  show "IntSet_Max s = (if xs = [] then Inl Out_of_range else Inr (Max (set xs)))"
  proof (cases "xs = []")
    case True
    then show ?thesis using len by (simp add: IntSet_Max_def IntSet_Get_def EncodedValue_def)
  next
    case False
    then show ?thesis using EncodedValue_repr [OF r, of "length xs - 1"] len mx idx
      by (simp only: IntSet_Max_def IntSet_Get_def) simp
  qed
qed


section \<open>Properties\<close>

lemma intset_ok_new: "intset_ok IntSet_new" "intset_set IntSet_new = {}"
  using intset_repr_new repr_elems [OF intset_repr_new] by (auto simp: intset_ok_iff intset_set_def)

text \<open>
  C14: adding an integer to a well-formed integer set succeeds without leaving its array, widening
  the slots when the value needs it; it reports whether the value was new; afterwards a lookup
  finds the new value and exactly the values it found before, and the size counts them.
\<close>

theorem IntSet_Add_Find:
  assumes "intset_ok s" and "is_int64 v" and "is_int64 w" and "intset_room s v"
  shows "\<exists>s'. IntSet_Add s v = Inr (v \<notin> intset_set s, s') \<and> intset_ok s' \<and>
    IntSet_Find s' w = Inr (w = v \<or> w \<in> intset_set s) \<and>
    IntSet_Size s' = IntSet_Size s + (if v \<in> intset_set s then 0 else 1)"
  using assms by (rule iset.add_then_find)

theorem IntSet_Add_Find_witness:
  "\<exists>s'. IntSet_Add IntSet_new 70000 = Inr (True, s') \<and> intset_ok s' \<and>
    IntSet_Find s' 5 = Inr False \<and> IntSet_Size s' = 1"
  using IntSet_Add_Find [of IntSet_new 70000 5] intset_ok_new
  by (simp add: is_int64_def intset_room_def IntSet_new_def ValueEncoding_def IntSet_Size_def)

text \<open>
  C15: removing an integer from a well-formed integer set succeeds and reports whether it was
  there; afterwards a lookup finds exactly the other values.
\<close>

theorem IntSet_Remove_Find:
  assumes "intset_ok s" and "is_int64 v" and "is_int64 w"
  shows "\<exists>s'. IntSet_Remove s v = Inr (v \<in> intset_set s, s') \<and> intset_ok s' \<and>
    IntSet_Find s' w = Inr (w \<noteq> v \<and> w \<in> intset_set s) \<and>
    IntSet_Size s' = IntSet_Size s - (if v \<in> intset_set s then 1 else 0)"
  using assms by (rule iset.del_then_find)

definition intset_example :: intset where
  "intset_example = \<lparr>contents = store_int 2 3 @ store_int 2 500, is_length = 2, encoding = 2\<rparr>"

lemma intset_example_repr: "intset_repr intset_example [3, 500]"
  by (auto simp: intset_repr_def intset_example_def encoding_ok_def fits_def)

lemma intset_example_ok: "intset_ok intset_example" "intset_set intset_example = {3, 500}"
  using intset_example_repr repr_elems [OF intset_example_repr]
  by (auto simp: intset_ok_iff intset_set_def)

theorem IntSet_Remove_Find_witness:
  "\<exists>s'. IntSet_Remove intset_example 3 = Inr (True, s') \<and> intset_ok s' \<and>
    IntSet_Find s' 500 = Inr True \<and> IntSet_Size s' = 1"
  using IntSet_Remove_Find [of intset_example 3 500] intset_example_ok
  by (simp add: is_int64_def intset_example_def IntSet_Size_def)

text \<open>
  On a well-formed integer set \<open>Max\<close> and \<open>Min\<close> are the extreme elements, and both throw
  \<open>std::out_of_range\<close> on an empty one, in particular after the last element has been removed.
\<close>

theorem IntSet_Max_Min:
  assumes "intset_ok s"
  shows "IntSet_Max s = (if intset_set s = {} then Inl Out_of_range else Inr (Max (intset_set s))) \<and>
    IntSet_Min s = (if intset_set s = {} then Inl Out_of_range else Inr (Min (intset_set s)))"
  using IntSet_Min_Max_repr [OF assms [unfolded intset_ok_def]] by (simp_all add: intset_set_def)

theorem IntSet_Max_Min_witness:
  "IntSet_Max IntSet_new = Inl Out_of_range \<and> IntSet_Max intset_example = Inr 500 \<and>
   IntSet_Min intset_example = Inr 3"
  using IntSet_Max_Min [of IntSet_new] IntSet_Max_Min [of intset_example] intset_ok_new
    intset_example_ok by simp

end
