(* ===== verification/Buffers.thy ===== *)
theory Buffers
  imports Prelude
begin

text \<open>
  The two byte buffers of a connection.  \<open>ReplyBuffer\<close> (\<open>src/memory/reply_buffer.cpp\<close>,
  \<open>src/memory/buf_node.h\<close>) holds replies that wait to be written to the socket: a fixed array and a
  chain of overflow nodes.  \<open>DynamicBuffer\<close> (\<open>src/memory/dynamic_buffer.cpp\<close>) holds the bytes read
  from the socket that are not parsed yet.

  The chain of nodes from \<open>reply_head_\<close> to \<open>reply_tail_\<close> is a list, the tail its last element; a
  fresh array is zeroed.  Differences of sizes are subtractions on \<open>nat\<close>: the invariants of the
  buffers order the operands, so that they are the differences of \<open>size_t\<close>.
\<close>

section \<open>Overflow nodes\<close>

record buf_node =
  bn_buf :: "string option"
  bn_used :: nat
  bn_capacity :: nat
  bn_owned :: string

definition BufNode_Create :: "nat \<Rightarrow> buf_node" where
  "BufNode_Create len = (let n = max len 1024 in
     \<lparr>bn_buf = Some (replicate n (CHR 0x00)), bn_used = 0, bn_capacity = n, bn_owned = []\<rparr>)"

text \<open>\<open>cap\<close> is the capacity of the string that is moved in, at least its size.\<close>

definition BufNode_Create_string :: "string \<Rightarrow> nat \<Rightarrow> buf_node" where
  "BufNode_Create_string data cap =
     \<lparr>bn_buf = None, bn_used = length data, bn_capacity = cap, bn_owned = data\<rparr>"

definition BufNode_Data :: "buf_node \<Rightarrow> string" where
  "BufNode_Data n = (case bn_buf n of Some b \<Rightarrow> b | None \<Rightarrow> bn_owned n)"

definition BufNode_Writable :: "buf_node \<Rightarrow> bool" where
  "BufNode_Writable n = (bn_buf n \<noteq> None)"

section \<open>The reply buffer\<close>

record reply_buffer =
  rb_buf :: string
  rb_size :: nat
  rb_usable :: nat
  rb_nodes :: "buf_node list"
  rb_node_count :: nat
  rb_reply_bytes :: nat
  rb_pending :: nat
  rb_sent :: nat

definition ReplyBuffer_new :: reply_buffer where
  "ReplyBuffer_new = \<lparr>rb_buf = replicate 4096 (CHR 0x00), rb_size = 0, rb_usable = 4096, rb_nodes = [],
     rb_node_count = 0, rb_reply_bytes = 0, rb_pending = 0, rb_sent = 0\<rparr>"

definition UnsentLength :: "reply_buffer \<Rightarrow> nat" where
  "UnsentLength b = rb_size b - rb_sent b"

definition ReplyBuffer_Empty :: "reply_buffer \<Rightarrow> bool" where
  "ReplyBuffer_Empty b = (rb_size b = 0 \<and> rb_node_count b = 0)"

text \<open>\<open>AppendToNode\<close> returns the bytes written and the node; a node that owns a string is full.\<close>

definition AppendToNode :: "buf_node \<Rightarrow> string \<Rightarrow> (nat \<times> buf_node) res" where
  "AppendToNode node s =
     (case bn_buf node of
        None \<Rightarrow> Inr (0, node)
      | Some b \<Rightarrow>
          let nwritten = min (length s) (bn_capacity node - bn_used node) in
          bindE (mem_copy b (bn_used node) (take nwritten s)) (\<lambda>b.
            Inr (nwritten, node\<lparr>bn_buf := Some b, bn_used := bn_used node + nwritten\<rparr>)))"

definition NewNode :: "string \<Rightarrow> buf_node res" where
  "NewNode s = bindE (AppendToNode (BufNode_Create (length s)) s) (\<lambda>(_, node). Inr node)"

definition PushNode :: "reply_buffer \<Rightarrow> buf_node \<Rightarrow> reply_buffer" where
  "PushNode b node = b\<lparr>rb_node_count := rb_node_count b + 1,
     rb_reply_bytes := rb_reply_bytes b + bn_capacity node, rb_nodes := rb_nodes b @ [node]\<rparr>"

text \<open>\<open>DeleteNode\<close> is only called on the head, with no previous node.\<close>

definition DeleteNode :: "reply_buffer \<Rightarrow> reply_buffer" where
  "DeleteNode b = (case rb_nodes b of
     [] \<Rightarrow> b
   | node # rest \<Rightarrow> b\<lparr>rb_reply_bytes := rb_reply_bytes b - bn_capacity node,
        rb_node_count := rb_node_count b - 1, rb_nodes := rest\<rparr>)"

definition AppendToBuffer :: "reply_buffer \<Rightarrow> string \<Rightarrow> (nat \<times> reply_buffer) res" where
  "AppendToBuffer b s =
     (if rb_node_count b = 0 then
        let available = rb_usable b - rb_size b;
            nwritten = (if length s < available then length s else available)
        in bindE (mem_copy (rb_buf b) (rb_size b) (take nwritten s)) (\<lambda>buf.
             Inr (nwritten, b\<lparr>rb_buf := buf, rb_size := rb_size b + nwritten\<rparr>))
      else Inr (0, b))"

definition AppendToList :: "reply_buffer \<Rightarrow> string \<Rightarrow> (nat \<times> reply_buffer) res" where
  "AppendToList b s = bindE
     (if rb_nodes b \<noteq> []
      then bindE (AppendToNode (last (rb_nodes b)) s) (\<lambda>(appended, node).
             Inr (appended, b\<lparr>rb_nodes := butlast (rb_nodes b) @ [node]\<rparr>))
      else Inr (0, b))
     (\<lambda>(appended, b).
       bindE (if appended < length s
              then bindE (NewNode (drop appended s)) (\<lambda>node. Inr (PushNode b node)) else Inr b)
         (\<lambda>b. Inr (length s, b)))"

definition ReplyBuffer_Append :: "reply_buffer \<Rightarrow> string \<Rightarrow> (nat \<times> reply_buffer) res" where
  "ReplyBuffer_Append b s =
     (if length s = 0 then Inr (0, b)
      else bindE (AppendToBuffer b s) (\<lambda>(nwritten, b).
        bindE (if nwritten < length s
               then bindE (AppendToList b (drop nwritten s)) (\<lambda>(n, b). Inr (nwritten + n, b))
               else Inr (nwritten, b))
          (\<lambda>(nwritten, b). Inr (nwritten, b\<lparr>rb_pending := rb_pending b + nwritten\<rparr>))))"

definition ReplyBuffer_Append_string :: "reply_buffer \<Rightarrow> string \<Rightarrow> nat \<Rightarrow> (nat \<times> reply_buffer) res" where
  "ReplyBuffer_Append_string b reply cap =
     (if length reply = 0 then Inr (0, b)
      else if rb_node_count b = 0 \<and> length reply \<le> rb_usable b - rb_size b
      then bindE (AppendToBuffer b reply) (\<lambda>(appended, b).
             Inr (appended, b\<lparr>rb_pending := rb_pending b + appended\<rparr>))
      else let b = PushNode b (BufNode_Create_string reply cap)
           in Inr (length reply, b\<lparr>rb_pending := rb_pending b + length reply\<rparr>))"

text \<open>The blocks for \<open>writev\<close>: each is the bytes the \<open>iovec\<close> points to.\<close>

fun FillBlocks_nodes :: "buf_node list \<Rightarrow> nat \<Rightarrow> string list res" where
  "FillBlocks_nodes [] offset = Inr []"
| "FillBlocks_nodes (node # rest) offset =
     bindE (rd_range (BufNode_Data node) offset (bn_used node - offset)) (\<lambda>block.
     bindE (FillBlocks_nodes rest 0) (\<lambda>blocks. Inr (block # blocks)))"

definition FillBlocks :: "reply_buffer \<Rightarrow> string list res" where
  "FillBlocks b =
     bindE (if rb_size b > 0
            then bindE (rd_range (rb_buf b) (rb_sent b) (rb_size b - rb_sent b)) (\<lambda>block. Inr [block])
            else Inr []) (\<lambda>blocks.
     bindE (FillBlocks_nodes (rb_nodes b) (if rb_size b > 0 then 0 else rb_sent b)) (\<lambda>rest.
       Inr (blocks @ rest)))"

definition ClearBuffer :: "reply_buffer \<Rightarrow> reply_buffer" where
  "ClearBuffer b = b\<lparr>rb_size := 0, rb_sent := 0\<rparr>"

definition ConsumeBuffer :: "reply_buffer \<Rightarrow> nat \<Rightarrow> nat \<times> reply_buffer" where
  "ConsumeBuffer b nwritten =
     (if rb_size b > 0 then
        let nwritten = min nwritten (rb_size b - rb_sent b);
            b = b\<lparr>rb_sent := rb_sent b + nwritten\<rparr>
        in (nwritten, if rb_sent b \<ge> rb_size b then ClearBuffer b else b)
      else (0, b))"

function ConsumeList :: "reply_buffer \<Rightarrow> nat \<Rightarrow> reply_buffer" where
  "ConsumeList b nwritten =
     (if nwritten > 0 \<and> rb_nodes b \<noteq> [] then
        let remaining = bn_used (hd (rb_nodes b)) - rb_sent b in
        if nwritten < remaining then b\<lparr>rb_sent := rb_sent b + nwritten\<rparr>
        else ConsumeList (DeleteNode (b\<lparr>rb_sent := 0\<rparr>)) (nwritten - remaining)
      else b)"
  by auto
termination
  by (relation "measure (\<lambda>(b, _). length (rb_nodes b))") (auto simp: DeleteNode_def neq_Nil_conv)

declare ConsumeList.simps [simp del]

definition ReplyBuffer_Consume :: "reply_buffer \<Rightarrow> nat \<Rightarrow> reply_buffer" where
  "ReplyBuffer_Consume b nwritten =
     (let b = b\<lparr>rb_pending := rb_pending b - min nwritten (rb_pending b)\<rparr>;
          (processed, b) = ConsumeBuffer b nwritten
      in if processed < nwritten then ConsumeList b (nwritten - processed) else b)"

section \<open>The dynamic buffer\<close>

record dynamic_buffer =
  db_buf :: string
  db_capacity :: nat
  db_size :: nat
  db_processed :: nat

definition DynamicBuffer_new :: dynamic_buffer where
  "DynamicBuffer_new = \<lparr>db_buf = replicate 4096 (CHR 0x00), db_capacity = 4096, db_size = 0,
     db_processed = 0\<rparr>"

definition UnreadSize :: "dynamic_buffer \<Rightarrow> nat" where
  "UnreadSize b = db_size b - db_processed b"

definition DynamicBuffer_Empty :: "dynamic_buffer \<Rightarrow> bool" where
  "DynamicBuffer_Empty b = (db_processed b = db_size b)"

definition DynamicBuffer_Consume :: "dynamic_buffer \<Rightarrow> nat \<Rightarrow> dynamic_buffer" where
  "DynamicBuffer_Consume b processed = b\<lparr>db_processed := db_processed b + min processed (UnreadSize b)\<rparr>"

definition DynamicBuffer_View :: "dynamic_buffer \<Rightarrow> string res" where
  "DynamicBuffer_View b = rd_range (db_buf b) (db_processed b) (UnreadSize b)"

definition Compact :: "dynamic_buffer \<Rightarrow> dynamic_buffer res" where
  "Compact b =
     (if db_processed b = 0 then Inr b
      else bindE (mem_move (db_buf b) 0 (db_processed b) (UnreadSize b)) (\<lambda>buf.
        Inr (b\<lparr>db_buf := buf, db_size := UnreadSize b, db_processed := 0\<rparr>)))"

definition DynamicBuffer_Resize :: "dynamic_buffer \<Rightarrow> nat \<Rightarrow> dynamic_buffer res" where
  "DynamicBuffer_Resize b n =
     (let new_capacity =
        (if n < 1024 * 32 then
           max n (if db_capacity b > SIZE_MAX div 2 then SIZE_MAX else db_capacity b * 2)
         else if n > SIZE_MAX - 1000 then n else n + 1000)
      in bindE (rd_range (db_buf b) 0 (db_size b)) (\<lambda>bytes.
         bindE (mem_copy (replicate new_capacity (CHR 0x00)) 0 bytes) (\<lambda>buf.
           Inr (b\<lparr>db_buf := buf, db_capacity := new_capacity\<rparr>))))"

text \<open>\<open>None\<close> is the null pointer; otherwise the argument has at least \<open>n\<close> bytes.\<close>

definition DynamicBuffer_Append :: "dynamic_buffer \<Rightarrow> string option \<Rightarrow> nat \<Rightarrow> dynamic_buffer res" where
  "DynamicBuffer_Append b buffer n =
     (if n = 0 then Inr b
      else case buffer of
        None \<Rightarrow> Inl Invalid_argument
      | Some s \<Rightarrow>
          bindE (if db_capacity b - db_size b < n \<and> db_processed b > 0 then Compact b else Inr b) (\<lambda>b.
          if n > SIZE_MAX - db_size b then Inl Length_error
          else
            bindE (if db_capacity b - db_size b < n then DynamicBuffer_Resize b (db_size b + n)
                   else Inr b) (\<lambda>b.
            bindE (rd_range s 0 n) (\<lambda>bytes.
            bindE (mem_copy (db_buf b) (db_size b) bytes) (\<lambda>buf.
              Inr (b\<lparr>db_buf := buf, db_size := db_size b + n\<rparr>))))))"

text \<open>\<open>std::memchr\<close>: the position of the first occurrence.\<close>

fun memchr :: "char \<Rightarrow> string \<Rightarrow> nat option" where
  "memchr c [] = None"
| "memchr c (x # xs) = (if x = c then Some 0 else map_option Suc (memchr c xs))"

definition ReadLineView :: "dynamic_buffer \<Rightarrow> (string option \<times> dynamic_buffer) res" where
  "ReadLineView b =
     bindE (rd_range (db_buf b) (db_processed b) (UnreadSize b)) (\<lambda>readable.
     case memchr (CHR 0x0A) readable of
       None \<Rightarrow> Inr (None, b)
     | Some newline \<Rightarrow>
         let (line_length, delimiter_length) =
           (if newline > 0 \<and> readable ! (newline - 1) = CHR 0x0D then (newline - 1, 2)
            else (newline, 1))
         in Inr (Some (take line_length readable),
              b\<lparr>db_processed := db_processed b + (line_length + delimiter_length)\<rparr>))"

definition ReadLine :: "dynamic_buffer \<Rightarrow> (string \<times> dynamic_buffer) res" where
  "ReadLine b = bindE (ReadLineView b) (\<lambda>(line, b).
     Inr (case line of Some l \<Rightarrow> l | None \<Rightarrow> [], b))"

definition DynamicBuffer_Clear :: "dynamic_buffer \<Rightarrow> dynamic_buffer" where
  "DynamicBuffer_Clear b = b\<lparr>db_size := 0, db_processed := 0\<rparr>"

end
