(* ===== verification/Buffers_Refinement.thy ===== *)
theory Buffers_Refinement
  imports Buffers
begin

text \<open>
  The reply buffer and the dynamic buffer as queues of bytes: appending adds at the end,
  consuming drops from the front, whatever the split of the bytes over the array, the overflow
  nodes and the unused part of the array.
\<close>

section \<open>The queue contract\<close>

datatype fifo_op = Push string | Pop nat

locale byte_fifo =
  fixes ok :: "'s \<Rightarrow> bool" and content :: "'s \<Rightarrow> string"
    and room :: "'s \<Rightarrow> string \<Rightarrow> bool"
    and push :: "'s \<Rightarrow> string \<Rightarrow> 's res" and pop :: "'s \<Rightarrow> nat \<Rightarrow> 's"
  assumes push_content: "ok b \<Longrightarrow> room b s \<Longrightarrow>
      \<exists>b'. push b s = Inr b' \<and> ok b' \<and> content b' = content b @ s"
    and pop_content: "ok b \<Longrightarrow> ok (pop b n) \<and> content (pop b n) = drop n (content b)"
begin

text \<open>
  Running a sequence of operations, with the bytes each \<open>Pop\<close> takes out.
\<close>

fun run :: "fifo_op list \<Rightarrow> 's \<Rightarrow> (string \<times> 's) res" where
  "run [] b = Inr ([], b)"
| "run (Push s # ops) b = bindE (push b s) (run ops)"
| "run (Pop n # ops) b = bindE (run ops (pop b n)) (\<lambda>(out, b'). Inr (take n (content b) @ out, b'))"

fun pushed :: "fifo_op list \<Rightarrow> string" where
  "pushed [] = []"
| "pushed (Push s # ops) = s @ pushed ops"
| "pushed (Pop n # ops) = pushed ops"

lemma run_order:
  assumes "ok b" and "\<And>b s. ok b \<Longrightarrow> Push s \<in> set ops \<Longrightarrow> room b s"
  shows "\<exists>out b'. run ops b = Inr (out, b') \<and> ok b' \<and> content b @ pushed ops = out @ content b'"
  using assms
proof (induction ops arbitrary: b)
  case (Cons p ops)
  show ?case
  proof (cases p)
    case (Push s)
    obtain b1 where b1: "push b s = Inr b1" "ok b1" "content b1 = content b @ s"
      using push_content Cons.prems Push by (metis list.set_intros(1))
    obtain out b' where r: "run ops b1 = Inr (out, b')" "ok b'"
      "content b1 @ pushed ops = out @ content b'"
      using Cons.IH [OF b1(2)] Cons.prems(2) by (metis list.set_intros(2))
    then show ?thesis using Push b1 by simp
  next
    case (Pop n)
    have p: "ok (pop b n)" "content (pop b n) = drop n (content b)"
      using pop_content Cons.prems(1) by auto
    obtain out b' where r: "run ops (pop b n) = Inr (out, b')" "ok b'"
      "content (pop b n) @ pushed ops = out @ content b'"
      using Cons.IH [OF p(1)] Cons.prems(2) by (metis list.set_intros(2))
    have "content b @ pushed ops = take n (content b) @ out @ content b'"
      using r(3) unfolding p(2) by (metis append.assoc append_take_drop_id)
    then show ?thesis using Pop r(1,2) by simp
  qed
qed simp

end

section \<open>The reply buffer\<close>

definition node_bytes :: "buf_node \<Rightarrow> string" where
  "node_bytes n = take (bn_used n) (BufNode_Data n)"

definition node_ok :: "buf_node \<Rightarrow> bool" where
  "node_ok n \<longleftrightarrow> 0 < bn_used n \<and> bn_used n \<le> length (BufNode_Data n) \<and> bn_used n \<le> bn_capacity n \<and>
     (case bn_buf n of Some b \<Rightarrow> length b = bn_capacity n | None \<Rightarrow> bn_used n = length (bn_owned n))"

text \<open>
  The bytes held, sent or not, the bytes that wait to be sent, and the invariant.  \<open>sent_\<close> counts
  from the array while it is in use and from the first node afterwards.
\<close>

definition rb_all :: "reply_buffer \<Rightarrow> string" where
  "rb_all b = take (rb_size b) (rb_buf b) @ concat (map node_bytes (rb_nodes b))"

definition rb_content :: "reply_buffer \<Rightarrow> string" where
  "rb_content b = drop (rb_sent b) (rb_all b)"

definition sent_ok :: "nat \<Rightarrow> buf_node list \<Rightarrow> nat \<Rightarrow> bool" where
  "sent_ok sz nodes sent =
     (if sz > 0 then sent < sz else case nodes of [] \<Rightarrow> sent = 0 | n # _ \<Rightarrow> sent < bn_used n)"

definition rb_wf :: "reply_buffer \<Rightarrow> bool" where
  "rb_wf b \<longleftrightarrow> length (rb_buf b) = rb_usable b \<and> rb_size b \<le> rb_usable b \<and> 0 < rb_usable b \<and>
     (\<forall>n\<in>set (rb_nodes b). node_ok n) \<and> rb_node_count b = length (rb_nodes b) \<and>
     rb_reply_bytes b = sum_list (map bn_capacity (rb_nodes b)) \<and>
     sent_ok (rb_size b) (rb_nodes b) (rb_sent b)"

definition rb_ok :: "reply_buffer \<Rightarrow> bool" where
  "rb_ok b \<longleftrightarrow> rb_wf b \<and> rb_pending b = length (rb_content b)"

lemma length_node_bytes [simp]: "node_ok n \<Longrightarrow> length (node_bytes n) = bn_used n"
  by (simp add: node_ok_def node_bytes_def)

lemma rb_ok_new: "rb_ok ReplyBuffer_new" "rb_content ReplyBuffer_new = []"
  by (simp_all add: rb_ok_def rb_wf_def rb_content_def rb_all_def sent_ok_def ReplyBuffer_new_def)

lemma new_sizes: "rb_pending ReplyBuffer_new = 0" "db_size DynamicBuffer_new = 0"
  by (simp_all add: ReplyBuffer_new_def DynamicBuffer_new_def)

lemma AppendToNode_ok:
  assumes n: "node_ok n"
  obtains k n' where "AppendToNode n s = Inr (k, n')" "node_ok n'" "k \<le> length s"
    "node_bytes n' = node_bytes n @ take k s" "bn_capacity n' = bn_capacity n" "bn_used n \<le> bn_used n'"
proof (cases "bn_buf n")
  case None
  then show ?thesis using n that [of 0 n] by (simp add: AppendToNode_def)
next
  case (Some b)
  let ?k = "min (length s) (bn_capacity n - bn_used n)"
  have l: "length b = bn_capacity n" "bn_used n \<le> length b" "0 < bn_used n"
    using n Some by (auto simp: node_ok_def)
  let ?b = "take (bn_used n) b @ take ?k s @ drop (bn_used n + ?k) b"
  have mc: "mem_copy b (bn_used n) (take ?k s) = Inr ?b"
    using l by (auto simp: mem_copy_def min_def)
  let ?n = "n\<lparr>bn_buf := Some ?b, bn_used := bn_used n + ?k\<rparr>"
  have "AppendToNode n s = Inr (?k, ?n)"
    using mc Some by (simp add: AppendToNode_def Let_def)
  moreover have "node_ok ?n" using l by (auto simp: node_ok_def BufNode_Data_def min_def)
  moreover have "node_bytes ?n = node_bytes n @ take ?k s"
    using l Some by (simp add: node_bytes_def BufNode_Data_def min_def)
  ultimately show ?thesis using that by simp
qed

lemma NewNode_ok:
  assumes "s \<noteq> []"
  obtains n where "NewNode s = Inr n" "node_ok n" "node_bytes n = s"
proof -
  let ?c = "max (length s) 1024"
  have "mem_copy (replicate ?c CHR 0x00) 0 s = Inr (s @ replicate (?c - length s) CHR 0x00)"
    by (simp add: mem_copy_def)
  then have "NewNode s = Inr \<lparr>bn_buf = Some (s @ replicate (?c - length s) CHR 0x00),
      bn_used = length s, bn_capacity = ?c, bn_owned = []\<rparr>"
    by (simp add: NewNode_def AppendToNode_def BufNode_Create_def Let_def)
  then show ?thesis using assms that by (simp add: node_ok_def node_bytes_def BufNode_Data_def)
qed

lemma node_ok_string: "s \<noteq> [] \<Longrightarrow> length s \<le> cap \<Longrightarrow>
    node_ok (BufNode_Create_string s cap) \<and> node_bytes (BufNode_Create_string s cap) = s"
  by (simp add: node_ok_def node_bytes_def BufNode_Create_string_def BufNode_Data_def)

lemma rb_pending_simps [simp]:
  "rb_all (b\<lparr>rb_pending := n\<rparr>) = rb_all b"
  "rb_content (b\<lparr>rb_pending := n\<rparr>) = rb_content b"
  "rb_wf (b\<lparr>rb_pending := n\<rparr>) = rb_wf b"
  by (simp_all add: rb_all_def rb_content_def rb_wf_def)

lemma sent_le_all:
  assumes "rb_wf b"
  shows "rb_sent b \<le> length (rb_all b)"
proof (cases "rb_nodes b")
  case Nil
  then show ?thesis using assms by (auto simp: rb_wf_def rb_all_def sent_ok_def split: if_splits)
next
  case (Cons n ns)
  then have "node_ok n" using assms by (simp add: rb_wf_def)
  then show ?thesis using assms Cons
    by (auto simp: rb_wf_def rb_all_def sent_ok_def split: if_splits)
qed

lemma content_append:
  assumes "rb_wf b" "rb_all b' = rb_all b @ s" "rb_sent b' = rb_sent b"
  shows "rb_content b' = rb_content b @ s"
  using sent_le_all [OF assms(1)] assms(2,3) by (simp add: rb_content_def)

lemma PushNode_ok:
  assumes "rb_wf b" "node_ok n" "rb_nodes b = [] \<Longrightarrow> rb_size b > 0 \<or> rb_sent b = 0"
  shows "rb_wf (PushNode b n)" "rb_content (PushNode b n) = rb_content b @ node_bytes n"
proof -
  have "sent_ok (rb_size b) (rb_nodes b @ [n]) (rb_sent b)"
    using assms by (cases "rb_nodes b") (auto simp: rb_wf_def sent_ok_def node_ok_def split: if_splits)
  then show "rb_wf (PushNode b n)" using assms by (auto simp: rb_wf_def PushNode_def)
  show "rb_content (PushNode b n) = rb_content b @ node_bytes n"
    by (rule content_append [OF assms(1)]) (simp_all add: PushNode_def rb_all_def)
qed

lemma sent_zero: "rb_wf b \<Longrightarrow> rb_nodes b = [] \<Longrightarrow> rb_size b > 0 \<or> rb_sent b = 0"
  by (cases "rb_size b") (simp_all add: rb_wf_def sent_ok_def)

lemma PushNode_pending [simp]: "rb_pending (PushNode b n) = rb_pending b"
  by (simp add: PushNode_def)

lemma AppendToBuffer_ok:
  assumes "rb_wf b"
  obtains k b' where "AppendToBuffer b s = Inr (k, b')" "rb_wf b'" "k \<le> length s"
    "rb_content b' = rb_content b @ take k s" "rb_pending b' = rb_pending b"
    "rb_node_count b = 0 \<Longrightarrow> length s \<le> rb_usable b - rb_size b \<Longrightarrow> k = length s"
proof (cases "rb_node_count b = 0")
  case False
  then show ?thesis using that [of 0 b] assms by (simp add: AppendToBuffer_def)
next
  case True
  define k where "k = (if length s < rb_usable b - rb_size b then length s else rb_usable b - rb_size b)"
  have k: "k \<le> length s" "rb_size b + k \<le> rb_usable b" using assms by (auto simp: k_def rb_wf_def)
  have l: "length (rb_buf b) = rb_usable b" "rb_size b \<le> rb_usable b" "rb_nodes b = []"
    "0 < rb_usable b" using assms True by (simp_all add: rb_wf_def)
  let ?buf = "take (rb_size b) (rb_buf b) @ take k s @ drop (rb_size b + k) (rb_buf b)"
  let ?b = "b\<lparr>rb_buf := ?buf, rb_size := rb_size b + k\<rparr>"
  have "mem_copy (rb_buf b) (rb_size b) (take k s) = Inr ?buf" using k l by (simp add: mem_copy_def)
  then have "AppendToBuffer b s = Inr (k, ?b)"
    using True by (simp add: AppendToBuffer_def Let_def k_def [symmetric])
  moreover have "rb_wf ?b" using assms k l by (auto simp: rb_wf_def sent_ok_def split: if_splits)
  moreover have "rb_content ?b = rb_content b @ take k s"
    by (rule content_append [OF assms]) (use k l in \<open>simp_all add: rb_all_def\<close>)
  ultimately show ?thesis using that [of k ?b] k by (simp add: k_def)
qed

lemma AppendToList_ok:
  assumes b: "rb_wf b" and s: "s \<noteq> []"
  obtains b' where "AppendToList b s = Inr (length s, b')" "rb_wf b'"
    "rb_content b' = rb_content b @ s" "rb_pending b' = rb_pending b"
proof -
  obtain k b1 where b1: "k \<le> length s" "rb_wf b1" "rb_content b1 = rb_content b @ take k s"
    "rb_pending b1 = rb_pending b" and
    st: "(if rb_nodes b \<noteq> [] then bindE (AppendToNode (last (rb_nodes b)) s) (\<lambda>(appended, node).
             Inr (appended, b\<lparr>rb_nodes := butlast (rb_nodes b) @ [node]\<rparr>)) else Inr (0, b)) = Inr (k, b1)"
  proof (cases "rb_nodes b = []")
    case True
    then show ?thesis using that [of 0 b] b by simp
  next
    case False
    then obtain ns n where ns: "rb_nodes b = ns @ [n]" by (metis append_butlast_last_id)
    have "node_ok n" using b ns by (simp add: rb_wf_def)
    then obtain k n' where n': "AppendToNode n s = Inr (k, n')" "node_ok n'" "k \<le> length s"
      "node_bytes n' = node_bytes n @ take k s" "bn_capacity n' = bn_capacity n" "bn_used n \<le> bn_used n'"
      by (rule AppendToNode_ok)
    let ?b = "b\<lparr>rb_nodes := ns @ [n']\<rparr>"
    have "sent_ok (rb_size b) (ns @ [n']) (rb_sent b)"
      using b ns n'(6) by (cases ns) (auto simp: rb_wf_def sent_ok_def split: if_splits)
    then have wf: "rb_wf ?b" using b ns n' by (auto simp: rb_wf_def)
    have ct: "rb_content ?b = rb_content b @ take k s"
      by (rule content_append [OF b]) (simp_all add: rb_all_def ns n')
    show ?thesis by (rule that [OF n'(3) wf ct]) (simp_all add: ns n')
  qed
  show ?thesis
  proof (cases "k < length s")
    case True
    then obtain n where n: "NewNode (drop k s) = Inr n" "node_ok n" "node_bytes n = drop k s"
      using NewNode_ok [of "drop k s"] by auto
    have "AppendToList b s = Inr (length s, PushNode b1 n)"
      unfolding AppendToList_def st using n True by simp
    then show ?thesis using that PushNode_ok [OF b1(2) n(2) sent_zero [OF b1(2)]] b1 n(3)
      by simp
  next
    case False
    then have "AppendToList b s = Inr (length s, b1)" unfolding AppendToList_def st by simp
    then show ?thesis using that b1 False by simp
  qed
qed

lemma ReplyBuffer_Append_ok:
  assumes "rb_ok b"
  shows "\<exists>b'. ReplyBuffer_Append b s = Inr (length s, b') \<and> rb_ok b' \<and> rb_content b' = rb_content b @ s"
proof (cases "s = []")
  case True
  then show ?thesis using assms by (simp add: ReplyBuffer_Append_def)
next
  case False
  have wf: "rb_wf b" and p: "rb_pending b = length (rb_content b)" using assms by (simp_all add: rb_ok_def)
  obtain k b1 where b1: "AppendToBuffer b s = Inr (k, b1)" "rb_wf b1" "k \<le> length s"
    "rb_content b1 = rb_content b @ take k s" "rb_pending b1 = rb_pending b"
    by (rule AppendToBuffer_ok [OF wf])
  show ?thesis
  proof (cases "k < length s")
    case True
    then obtain b2 where "AppendToList b1 (drop k s) = Inr (length (drop k s), b2)" "rb_wf b2"
      "rb_content b2 = rb_content b1 @ drop k s" "rb_pending b2 = rb_pending b1"
      using AppendToList_ok [OF b1(2), of "drop k s"] by auto
    then show ?thesis using True False b1 p by (simp add: ReplyBuffer_Append_def rb_ok_def)
  next
    case False
    then show ?thesis using \<open>s \<noteq> []\<close> b1 p by (simp add: ReplyBuffer_Append_def rb_ok_def)
  qed
qed

lemma ReplyBuffer_Append_string_ok:
  assumes "rb_ok b" and "length s \<le> cap"
  shows "\<exists>b'. ReplyBuffer_Append_string b s cap = Inr (length s, b') \<and> rb_ok b' \<and>
    rb_content b' = rb_content b @ s"
proof (cases "s = []")
  case True
  then show ?thesis using assms by (simp add: ReplyBuffer_Append_string_def)
next
  case False
  have wf: "rb_wf b" and p: "rb_pending b = length (rb_content b)" using assms by (simp_all add: rb_ok_def)
  show ?thesis
  proof (cases "rb_node_count b = 0 \<and> length s \<le> rb_usable b - rb_size b")
    case True
    obtain b1 where "AppendToBuffer b s = Inr (length s, b1)" "rb_wf b1"
      "rb_content b1 = rb_content b @ s" "rb_pending b1 = rb_pending b"
      using AppendToBuffer_ok [OF wf, of s] True by (metis order_refl take_all)
    then show ?thesis using True False p by (simp add: ReplyBuffer_Append_string_def rb_ok_def)
  next
    case nofit: False
    define n where "n = BufNode_Create_string s cap"
    have n: "node_ok n" "node_bytes n = s" using node_ok_string [OF False assms(2)] by (simp_all add: n_def)
    have "\<not> (rb_node_count b = 0 \<and> length s \<le> rb_usable b - rb_size b)" by (rule nofit)
    then have "ReplyBuffer_Append_string b s cap =
        Inr (length s, (PushNode b n)\<lparr>rb_pending := rb_pending b + length s\<rparr>)"
      using False by (simp only: ReplyBuffer_Append_string_def Let_def n_def [symmetric] PushNode_pending
          if_False length_0_conv)
    then show ?thesis using p n PushNode_ok [OF wf n(1) sent_zero [OF wf]] by (simp add: rb_ok_def)
  qed
qed

lemma ConsumeList_ok:
  assumes "rb_wf b" "rb_size b = 0"
  shows "rb_wf (ConsumeList b n) \<and> rb_content (ConsumeList b n) = drop n (rb_content b) \<and>
    rb_pending (ConsumeList b n) = rb_pending b"
  using assms
proof (induction b n rule: ConsumeList.induct)
  case (1 b n)
  show ?case
  proof (cases "n > 0 \<and> rb_nodes b \<noteq> []")
    case False
    then show ?thesis using "1.prems"
      by (subst (1 2 3) ConsumeList.simps) (auto simp: rb_content_def rb_all_def)
  next
    case True
    then obtain m ms where ms: "rb_nodes b = m # ms" by (cases "rb_nodes b") auto
    have m: "node_ok m" "rb_sent b < bn_used m"
      using "1.prems" ms by (auto simp: rb_wf_def sent_ok_def)
    let ?rem = "bn_used m - rb_sent b"
    show ?thesis
    proof (cases "n < ?rem")
      case less: True
      have "ConsumeList b n = b\<lparr>rb_sent := rb_sent b + n\<rparr>"
        using True less ms by (subst ConsumeList.simps) simp
      then show ?thesis using "1.prems" ms less
        by (auto simp: rb_wf_def sent_ok_def rb_content_def rb_all_def add.commute)
    next
      case ge: False
      let ?b = "DeleteNode (b\<lparr>rb_sent := 0\<rparr>)"
      have step: "ConsumeList b n = ConsumeList ?b (n - ?rem)"
        using True ge ms by (subst ConsumeList.simps) simp
      have "sent_ok 0 ms 0" using "1.prems"(1) ms
        by (cases ms) (auto simp: sent_ok_def rb_wf_def node_ok_def)
      then have wf: "rb_wf ?b" "rb_size ?b = 0" "rb_pending ?b = rb_pending b"
        using "1.prems" ms by (auto simp: DeleteNode_def rb_wf_def)
      have "rb_content ?b = concat (map node_bytes ms)"
        using "1.prems" ms by (simp add: DeleteNode_def rb_content_def rb_all_def)
      moreover have "rb_content b = drop (rb_sent b) (node_bytes m) @ concat (map node_bytes ms)"
        using "1.prems" ms m by (simp add: rb_content_def rb_all_def)
      ultimately have "drop (n - ?rem) (rb_content ?b) = drop n (rb_content b)"
        using ge m by simp
      then show ?thesis using "1.IH" [OF True refl] ge ms wf unfolding step by simp
    qed
  qed
qed

lemma ConsumeBuffer_ok:
  assumes "rb_wf b"
  obtains k b' where "ConsumeBuffer b n = (k, b')" "rb_wf b'" "k \<le> n" "rb_pending b' = rb_pending b"
    "rb_content b' = drop k (rb_content b)" "k < n \<longrightarrow> rb_size b' = 0"
proof (cases "rb_size b > 0")
  case False
  then show ?thesis using that [of 0 b] assms by (simp add: ConsumeBuffer_def)
next
  case True
  let ?k = "min n (rb_size b - rb_sent b)"
  have w: "length (rb_buf b) = rb_usable b" "rb_size b \<le> rb_usable b" "rb_sent b < rb_size b"
    using assms True by (auto simp: rb_wf_def sent_ok_def)
  show ?thesis
  proof (cases "rb_sent b + ?k \<ge> rb_size b")
    case full: True
    let ?b = "ClearBuffer (b\<lparr>rb_sent := rb_sent b + ?k\<rparr>)"
    have k: "?k = rb_size b - rb_sent b" using full w by linarith
    have "sent_ok 0 (rb_nodes b) 0" using assms
      by (cases "rb_nodes b") (auto simp: sent_ok_def rb_wf_def node_ok_def)
    then have "rb_wf ?b" using assms by (simp add: ClearBuffer_def rb_wf_def)
    moreover have "rb_content ?b = drop ?k (rb_content b)"
      using k w by (simp add: ClearBuffer_def rb_content_def rb_all_def)
    moreover have "ConsumeBuffer b n = (?k, ?b)"
      using True full by (simp add: ConsumeBuffer_def Let_def)
    ultimately show ?thesis using that [of ?k ?b] by (simp add: ClearBuffer_def)
  next
    case part: False
    let ?b = "b\<lparr>rb_sent := rb_sent b + ?k\<rparr>"
    have k: "?k = n" using part by linarith
    have "rb_wf ?b" using assms part True by (simp add: rb_wf_def sent_ok_def)
    moreover have "rb_content ?b = drop ?k (rb_content b)"
    proof -
      have "rb_all ?b = rb_all b" by (simp add: rb_all_def)
      then show ?thesis by (simp add: rb_content_def add.commute)
    qed
    moreover have "ConsumeBuffer b n = (?k, ?b)"
      using True part by (simp add: ConsumeBuffer_def Let_def)
    ultimately show ?thesis using that [of ?k ?b] k by simp
  qed
qed

lemma ReplyBuffer_Consume_ok:
  assumes "rb_ok b"
  shows "rb_ok (ReplyBuffer_Consume b n) \<and> rb_content (ReplyBuffer_Consume b n) = drop n (rb_content b)"
proof -
  let ?b0 = "b\<lparr>rb_pending := rb_pending b - min n (rb_pending b)\<rparr>"
  have wf: "rb_wf ?b0" and p: "rb_pending ?b0 = length (drop n (rb_content b))"
    using assms by (auto simp: rb_ok_def)
  obtain k b1 where b1: "ConsumeBuffer ?b0 n = (k, b1)" "rb_wf b1" "k \<le> n"
    "rb_pending b1 = rb_pending ?b0" "rb_content b1 = drop k (rb_content ?b0)" "k < n \<longrightarrow> rb_size b1 = 0"
    by (rule ConsumeBuffer_ok [OF wf, of n])
  show ?thesis
  proof (cases "k < n")
    case True
    then show ?thesis using ConsumeList_ok [OF b1(2), of "n - k"] b1 p
      by (simp add: ReplyBuffer_Consume_def Let_def rb_ok_def)
  next
    case False
    then show ?thesis using b1 p by (simp add: ReplyBuffer_Consume_def Let_def rb_ok_def)
  qed
qed

lemma FillBlocks_nodes_ok:
  assumes "\<forall>n\<in>set ns. node_ok n" "case ns of [] \<Rightarrow> k = 0 | n # _ \<Rightarrow> k < bn_used n"
  shows "\<exists>bs. FillBlocks_nodes ns k = Inr bs \<and> concat bs = drop k (concat (map node_bytes ns)) \<and> [] \<notin> set bs"
  using assms
proof (induction ns arbitrary: k)
  case (Cons n ns)
  have n: "node_ok n" "k < bn_used n" using Cons.prems by simp_all
  then have rd: "rd_range (BufNode_Data n) k (bn_used n - k) = Inr (drop k (node_bytes n))"
    by (auto simp: rd_range_def node_ok_def node_bytes_def drop_take)
  have "case ns of [] \<Rightarrow> 0 = (0::nat) | n # _ \<Rightarrow> 0 < bn_used n"
    using Cons.prems by (cases ns) (auto simp: node_ok_def)
  then obtain bs where bs: "FillBlocks_nodes ns 0 = Inr bs"
    "concat bs = concat (map node_bytes ns)" "[] \<notin> set bs"
    using Cons.IH [of 0] Cons.prems(1) by auto
  have "FillBlocks_nodes (n # ns) k = Inr (drop k (node_bytes n) # bs)" using rd bs(1) by simp
  moreover have "concat (drop k (node_bytes n) # bs) = drop k (concat (map node_bytes (n # ns)))"
    using bs(2) n by simp
  moreover have "drop k (node_bytes n) \<noteq> []" using n by simp
  ultimately show ?case using bs(3) by (metis set_ConsD)
qed simp

section \<open>The dynamic buffer\<close>

definition db_content :: "dynamic_buffer \<Rightarrow> string" where
  "db_content b = drop (db_processed b) (take (db_size b) (db_buf b))"

definition db_ok :: "dynamic_buffer \<Rightarrow> bool" where
  "db_ok b \<longleftrightarrow> length (db_buf b) = db_capacity b \<and> db_processed b \<le> db_size b \<and>
     db_size b \<le> db_capacity b \<and> db_capacity b \<le> SIZE_MAX"

lemma db_ok_new: "db_ok DynamicBuffer_new" "db_content DynamicBuffer_new = []"
  by (simp_all add: db_ok_def db_content_def DynamicBuffer_new_def)

lemma db_content_length: "db_ok b \<Longrightarrow> length (db_content b) = UnreadSize b"
  by (simp add: db_ok_def db_content_def UnreadSize_def)

lemma DynamicBuffer_View_ok: "db_ok b \<Longrightarrow> DynamicBuffer_View b = Inr (db_content b)"
  by (simp add: DynamicBuffer_View_def rd_range_def db_ok_def UnreadSize_def db_content_def drop_take)

lemma Compact_ok:
  assumes "db_ok b"
  obtains b' where "Compact b = Inr b'" "db_ok b'" "db_content b' = db_content b"
    "db_processed b' = 0" "db_size b' = UnreadSize b"
proof (cases "db_processed b = 0")
  case True
  then show ?thesis using that [of b] assms by (simp add: Compact_def UnreadSize_def)
next
  case False
  have rd: "rd_range (db_buf b) (db_processed b) (UnreadSize b) = Inr (db_content b)"
    using DynamicBuffer_View_ok [OF assms] by (simp add: DynamicBuffer_View_def)
  let ?b = "b\<lparr>db_buf := db_content b @ drop (UnreadSize b) (db_buf b), db_size := UnreadSize b,
      db_processed := 0\<rparr>"
  have le: "UnreadSize b \<le> length (db_buf b)" using assms by (auto simp: db_ok_def UnreadSize_def)
  then have "Compact b = Inr ?b"
    using False rd db_content_length [OF assms] by (simp add: Compact_def mem_move_def mem_copy_def)
  moreover have "db_ok ?b" "db_content ?b = db_content b"
    using assms le db_content_length [OF assms] by (auto simp: db_ok_def db_content_def)
  ultimately show ?thesis using that [of ?b] by simp
qed

lemma DynamicBuffer_Resize_ok:
  assumes "db_ok b" "db_size b \<le> n" "n \<le> SIZE_MAX"
  obtains b' where "DynamicBuffer_Resize b n = Inr b'" "db_ok b'" "db_content b' = db_content b"
    "n \<le> db_capacity b'" "db_size b' = db_size b"
proof -
  define c where "c = (if n < 1024 * 32 then
           max n (if db_capacity b > SIZE_MAX div 2 then SIZE_MAX else db_capacity b * 2)
         else if n > SIZE_MAX - 1000 then n else n + 1000)"
  have c1: "n \<le> c" by (simp add: c_def)
  have c2: "c \<le> SIZE_MAX"
  proof (cases "n < 1024 * 32")
    case True
    then show ?thesis using assms(3) by (simp add: c_def)
  next
    case False
    then show ?thesis using assms(3) by (simp add: c_def)
  qed
  note c = c1 c2
  have rd: "rd_range (db_buf b) 0 (db_size b) = Inr (take (db_size b) (db_buf b))"
    using assms(1) by (simp add: rd_range_def db_ok_def)
  let ?buf = "take (db_size b) (db_buf b) @ replicate (c - db_size b) CHR 0x00"
  have l: "length (take (db_size b) (db_buf b)) = db_size b" using assms(1) by (simp add: db_ok_def)
  have "mem_copy (replicate c CHR 0x00) 0 (take (db_size b) (db_buf b)) = Inr ?buf"
    using c assms(2) l by (simp add: mem_copy_def)
  moreover have "DynamicBuffer_Resize b n = bindE (rd_range (db_buf b) 0 (db_size b)) (\<lambda>bytes.
      bindE (mem_copy (replicate c (CHR 0x00)) 0 bytes) (\<lambda>buf. Inr (b\<lparr>db_buf := buf, db_capacity := c\<rparr>)))"
    unfolding DynamicBuffer_Resize_def Let_def c_def by (rule refl)
  ultimately have "DynamicBuffer_Resize b n = Inr (b\<lparr>db_buf := ?buf, db_capacity := c\<rparr>)"
    using rd by (simp only: bindE_Inr)
  moreover have "db_ok (b\<lparr>db_buf := ?buf, db_capacity := c\<rparr>)"
    using assms l c by (simp add: db_ok_def)
  moreover have "db_content (b\<lparr>db_buf := ?buf, db_capacity := c\<rparr>) = db_content b"
    using l by (simp add: db_content_def)
  ultimately show ?thesis using that c(1) by simp
qed

lemma DynamicBuffer_Append_ok:
  assumes b: "db_ok b" and room: "db_size b + n \<le> SIZE_MAX"
    and n: "n \<le> length s"
  shows "\<exists>b'. DynamicBuffer_Append b (Some s) n = Inr b' \<and> db_ok b' \<and>
    db_content b' = db_content b @ take n s"
proof (cases "n = 0")
  case True
  then show ?thesis using b by (simp add: DynamicBuffer_Append_def)
next
  case False
  let ?c1 = "if db_capacity b - db_size b < n \<and> db_processed b > 0 then Compact b else Inr b"
  obtain b1 where b1: "?c1 = Inr b1" "db_ok b1" "db_content b1 = db_content b" "db_size b1 \<le> db_size b"
  proof (cases "db_capacity b - db_size b < n \<and> db_processed b > 0")
    case True
    obtain b1 where "Compact b = Inr b1" "db_ok b1" "db_content b1 = db_content b"
      "db_size b1 = UnreadSize b" by (rule Compact_ok [OF b])
    then show ?thesis using that [of b1] True by (simp add: UnreadSize_def)
  next
    case False
    then have "?c1 = Inr b" by (simp only: if_False)
    then show ?thesis by (rule that) (use b in simp_all)
  qed
  let ?c2 = "if db_capacity b1 - db_size b1 < n then DynamicBuffer_Resize b1 (db_size b1 + n) else Inr b1"
  have sz: "db_size b1 + n \<le> SIZE_MAX" using b1(4) room by linarith
  obtain b2 where b2: "?c2 = Inr b2" "db_ok b2" "db_content b2 = db_content b1"
    "db_size b1 + n \<le> db_capacity b2" "db_size b2 = db_size b1"
  proof (cases "db_capacity b1 - db_size b1 < n")
    case True
    obtain b2 where "DynamicBuffer_Resize b1 (db_size b1 + n) = Inr b2" "db_ok b2"
      "db_content b2 = db_content b1" "db_size b1 + n \<le> db_capacity b2" "db_size b2 = db_size b1"
      by (rule DynamicBuffer_Resize_ok [OF b1(2) le_add1 sz])
    then show ?thesis using that [of b2] True by (simp only: if_True)
  next
    case False
    then have "?c2 = Inr b1" by (simp only: if_False)
    moreover have "db_size b1 + n \<le> db_capacity b1" using False b1(2) unfolding db_ok_def by linarith
    ultimately show ?thesis using b1(2) that by blast
  qed
  let ?buf = "take (db_size b2) (db_buf b2) @ take n s @ drop (db_size b2 + n) (db_buf b2)"
  have l: "length (take (db_size b2) (db_buf b2)) = db_size b2" using b2(2) by (simp add: db_ok_def)
  have mc: "mem_copy (db_buf b2) (db_size b2) (take n s) = Inr ?buf"
    using b2 n by (simp add: mem_copy_def db_ok_def)
  have big: "\<not> n > SIZE_MAX - db_size b1" using sz by linarith
  have rd: "rd_range s 0 n = Inr (take n s)" using n by (simp add: rd_range_def)
  let ?b = "b2\<lparr>db_buf := ?buf, db_size := db_size b2 + n\<rparr>"
  have "DynamicBuffer_Append b (Some s) n =
      bindE ?c1 (\<lambda>b. if n > SIZE_MAX - db_size b then Inl Length_error
        else bindE (if db_capacity b - db_size b < n then DynamicBuffer_Resize b (db_size b + n) else Inr b)
          (\<lambda>b. bindE (rd_range s 0 n) (\<lambda>bytes. bindE (mem_copy (db_buf b) (db_size b) bytes) (\<lambda>buf.
              Inr (b\<lparr>db_buf := buf, db_size := db_size b + n\<rparr>)))))"
    by (simp only: DynamicBuffer_Append_def False if_False option.case)
  also have "\<dots> = Inr ?b" by (simp only: b1(1) bindE_Inr big if_False b2(1) rd mc)
  finally have "DynamicBuffer_Append b (Some s) n = Inr ?b" .
  moreover have "length ?buf = db_capacity b2" using b2(2,4,5) n l by (simp add: db_ok_def)
  then have "db_ok ?b" using b2(2,4,5) by (simp add: db_ok_def)
  moreover have "db_content ?b = db_content b2 @ take n s"
    using b2(2) l n by (simp add: db_content_def db_ok_def)
  ultimately show ?thesis unfolding b2(3) b1(3) by blast
qed

lemma DynamicBuffer_Consume_ok:
  "db_ok b \<Longrightarrow> db_ok (DynamicBuffer_Consume b n) \<and> db_content (DynamicBuffer_Consume b n) = drop n (db_content b)"
  by (auto simp: db_ok_def db_content_def DynamicBuffer_Consume_def UnreadSize_def min_def add.commute)

lemma memchr_Some: "memchr c xs = Some i \<Longrightarrow> i < length xs \<and> xs ! i = c \<and> c \<notin> set (take i xs)"
  by (induction xs arbitrary: i) (auto split: if_splits)

lemma memchr_None: "memchr c xs = None \<longleftrightarrow> c \<notin> set xs"
  by (induction xs) auto

lemma ReadLineView_ok:
  assumes b: "db_ok b"
  shows "(CHR 0x0A \<notin> set (db_content b) \<and> ReadLineView b = Inr (None, b)) \<or>
    (\<exists>line b' eol. ReadLineView b = Inr (Some line, b') \<and> db_ok b' \<and> eol \<in> {[CHR 0x0A], [CHR 0x0D, CHR 0x0A]} \<and>
       db_content b = line @ eol @ db_content b' \<and> CHR 0x0A \<notin> set line \<and>
       (eol = [CHR 0x0A] \<longrightarrow> line = [] \<or> last line \<noteq> CHR 0x0D))"
proof (cases "memchr (CHR 0x0A) (db_content b)")
  case None
  then show ?thesis using DynamicBuffer_View_ok [OF b] memchr_None [of "CHR 0x0A" "db_content b"]
    by (simp add: ReadLineView_def DynamicBuffer_View_def)
next
  case (Some i)
  let ?c = "db_content b"
  have i: "i < length ?c" "?c ! i = CHR 0x0A" "CHR 0x0A \<notin> set (take i ?c)"
    using memchr_Some [OF Some] by auto
  have sp: "?c = take i ?c @ CHR 0x0A # drop (Suc i) ?c"
    using id_take_nth_drop [OF i(1)] i(2) by simp
  have adv: "db_ok (b\<lparr>db_processed := db_processed b + k\<rparr>) \<and>
      db_content (b\<lparr>db_processed := db_processed b + k\<rparr>) = drop k ?c" if "k \<le> Suc i" for k
    using b i(1) that db_content_length [OF b]
    by (simp add: db_ok_def db_content_def UnreadSize_def add.commute)
  have view: "rd_range (db_buf b) (db_processed b) (UnreadSize b) = Inr ?c"
    using DynamicBuffer_View_ok [OF b] by (simp add: DynamicBuffer_View_def)
  show ?thesis
  proof (cases "i > 0 \<and> ?c ! (i - 1) = CHR 0x0D")
    case True
    then have t: "take i ?c = take (i - 1) ?c @ [CHR 0x0D]"
      using i(1) take_Suc_conv_app_nth [of "i - 1" ?c] by simp
    let ?b = "b\<lparr>db_processed := db_processed b + Suc i\<rparr>"
    have "ReadLineView b = Inr (Some (take (i - 1) ?c), ?b)"
      using True Some by (simp add: ReadLineView_def view Let_def)
    moreover have "?c = take (i - 1) ?c @ [CHR 0x0D, CHR 0x0A] @ db_content ?b"
      using sp t adv [of "Suc i"] by simp
    moreover have "CHR 0x0A \<notin> set (take (i - 1) ?c)" using i(3) t by simp
    ultimately show ?thesis using adv [of "Suc i"]
      by (intro disjI2 exI [of _ "take (i - 1) ?c"] exI [of _ ?b] exI [of _ "[CHR 0x0D, CHR 0x0A]"]) simp
  next
    case False
    let ?b = "b\<lparr>db_processed := db_processed b + Suc i\<rparr>"
    have "ReadLineView b = Inr (Some (take i ?c), ?b)"
      using False Some by (auto simp: ReadLineView_def view Let_def)
    moreover have "?c = take i ?c @ [CHR 0x0A] @ db_content ?b" using sp adv [of "Suc i"] by simp
    moreover have "take i ?c = [] \<or> last (take i ?c) \<noteq> CHR 0x0D"
      using False i(1) by (auto simp: last_conv_nth)
    ultimately show ?thesis using adv [of "Suc i"] i(3)
      by (intro disjI2 exI [of _ "take i ?c"] exI [of _ ?b] exI [of _ "[CHR 0x0A]"]) simp
  qed
qed

section \<open>Both are queues\<close>

definition db_room :: "dynamic_buffer \<Rightarrow> string \<Rightarrow> bool" where
  "db_room b s \<longleftrightarrow> db_size b + length s \<le> SIZE_MAX"

interpretation rbuf: byte_fifo rb_ok rb_content "\<lambda>_ _. True"
  "\<lambda>b s. bindE (ReplyBuffer_Append b s) (\<lambda>(_, b'). Inr b')" ReplyBuffer_Consume
proof
  fix b s n
  assume ok: "rb_ok b"
  show "\<exists>b'. bindE (ReplyBuffer_Append b s) (\<lambda>(_, b'). Inr b') = Inr b' \<and> rb_ok b' \<and>
      rb_content b' = rb_content b @ s"
    using ReplyBuffer_Append_ok [OF ok, of s] by auto
  show "rb_ok (ReplyBuffer_Consume b n) \<and> rb_content (ReplyBuffer_Consume b n) = drop n (rb_content b)"
    by (rule ReplyBuffer_Consume_ok [OF ok])
qed

interpretation dbuf: byte_fifo db_ok db_content db_room
  "\<lambda>b s. DynamicBuffer_Append b (Some s) (length s)" DynamicBuffer_Consume
proof
  fix b s n
  assume ok: "db_ok b"
  show "db_ok (DynamicBuffer_Consume b n) \<and> db_content (DynamicBuffer_Consume b n) = drop n (db_content b)"
    by (rule DynamicBuffer_Consume_ok [OF ok])
  assume "db_room b s"
  then show "\<exists>b'. DynamicBuffer_Append b (Some s) (length s) = Inr b' \<and> db_ok b' \<and>
      db_content b' = db_content b @ s"
    using DynamicBuffer_Append_ok [OF ok, of "length s" s] by (simp add: db_room_def)
qed

section \<open>Properties\<close>

text \<open>
  The operations of a connection on its reply buffer, in the order they happen, with the bytes
  that a \<open>Pop\<close> removes because the socket took them.
\<close>

fun ReplyBuffer_run :: "fifo_op list \<Rightarrow> reply_buffer \<Rightarrow> (string \<times> reply_buffer) res" where
  "ReplyBuffer_run [] b = Inr ([], b)"
| "ReplyBuffer_run (Push s # ops) b = bindE (ReplyBuffer_Append b s) (\<lambda>(_, b). ReplyBuffer_run ops b)"
| "ReplyBuffer_run (Pop n # ops) b = bindE (FillBlocks b) (\<lambda>blocks.
     bindE (ReplyBuffer_run ops (ReplyBuffer_Consume b n)) (\<lambda>(out, b).
       Inr (take n (concat blocks) @ out, b)))"

fun pushed_bytes :: "fifo_op list \<Rightarrow> string" where
  "pushed_bytes [] = []"
| "pushed_bytes (Push s # ops) = s @ pushed_bytes ops"
| "pushed_bytes (Pop n # ops) = pushed_bytes ops"

lemma FillBlocks_content:
  assumes "rb_ok b"
  shows "\<exists>bs. FillBlocks b = Inr bs \<and> concat bs = rb_content b \<and> [] \<notin> set bs"
proof (cases "rb_size b > 0")
  case True
  have w: "rb_sent b < rb_size b" "rb_size b \<le> length (rb_buf b)" "\<forall>n\<in>set (rb_nodes b). node_ok n"
    using assms True by (auto simp: rb_ok_def rb_wf_def sent_ok_def)
  have "case rb_nodes b of [] \<Rightarrow> 0 = (0::nat) | n # _ \<Rightarrow> 0 < bn_used n"
    using w(3) by (cases "rb_nodes b") (auto simp: node_ok_def)
  from FillBlocks_nodes_ok [OF w(3) this] obtain bs where
    bs: "FillBlocks_nodes (rb_nodes b) 0 = Inr bs" "concat bs = concat (map node_bytes (rb_nodes b))"
    "[] \<notin> set bs" by auto
  have "rd_range (rb_buf b) (rb_sent b) (rb_size b - rb_sent b)
      = Inr (drop (rb_sent b) (take (rb_size b) (rb_buf b)))"
    using w by (simp add: rd_range_def drop_take)
  then show ?thesis using bs w True by (simp add: FillBlocks_def rb_content_def rb_all_def)
next
  case False
  then have w: "\<forall>n\<in>set (rb_nodes b). node_ok n"
    "case rb_nodes b of [] \<Rightarrow> rb_sent b = 0 | n # _ \<Rightarrow> rb_sent b < bn_used n"
    using assms by (auto simp: rb_ok_def rb_wf_def sent_ok_def)
  from FillBlocks_nodes_ok [OF this] show ?thesis using False
    by (auto simp: FillBlocks_def rb_content_def rb_all_def)
qed

lemma ReplyBuffer_run_fifo:
  "rb_ok b \<Longrightarrow> ReplyBuffer_run ops b = rbuf.run ops b \<and> pushed_bytes ops = rbuf.pushed ops"
proof (induction ops arbitrary: b)
  case (Cons p ops)
  show ?case
  proof (cases p)
    case (Push s)
    then show ?thesis using ReplyBuffer_Append_ok [OF Cons.prems, of s] Cons.IH by auto
  next
    case (Pop n)
    then show ?thesis
      using FillBlocks_content [OF Cons.prems] ReplyBuffer_Consume_ok [OF Cons.prems, of n] Cons.IH
      by auto
  qed
qed simp

text \<open>
  C12: no sequence of appends and partial writes loses, duplicates or reorders a byte of a reply:
  the bytes handed to the socket followed by those still buffered are the bytes that were
  appended, in order, and no operation leaves the buffer's memory.
\<close>

theorem ReplyBuffer_fifo:
  assumes "rb_ok b"
  shows "\<exists>out b'. ReplyBuffer_run ops b = Inr (out, b') \<and> rb_ok b' \<and>
    rb_content b @ pushed_bytes ops = out @ rb_content b'"
  using rbuf.run_order [OF assms, of ops] ReplyBuffer_run_fifo [OF assms, of ops] by simp

theorem ReplyBuffer_fifo_witness:
  "\<exists>out b'. ReplyBuffer_run [Push ''+OK'', Pop 2, Push ''PONG'', Pop 9] ReplyBuffer_new = Inr (out, b') \<and>
    rb_ok b' \<and> ''+OKPONG'' = out @ rb_content b'"
  using ReplyBuffer_fifo [OF rb_ok_new(1), of "[Push ''+OK'', Pop 2, Push ''PONG'', Pop 9]"] rb_ok_new(2)
  by (simp only: pushed_bytes.simps append.simps)

text \<open>
  Moving a whole reply string into the buffer appends it after everything that waits, and
  the count of pending bytes stays exact.
\<close>

theorem ReplyBuffer_Append_string_fifo:
  assumes "rb_ok b" and "length s \<le> cap"
  shows "\<exists>b'. ReplyBuffer_Append_string b s cap = Inr (length s, b') \<and> rb_ok b' \<and>
    rb_content b' = rb_content b @ s \<and> rb_pending b' = rb_pending b + length s"
  using ReplyBuffer_Append_string_ok [OF assms] assms(1) by (auto simp: rb_ok_def)

theorem ReplyBuffer_Append_string_fifo_witness:
  "\<exists>b'. ReplyBuffer_Append_string ReplyBuffer_new ''+OK'' 15 = Inr (3, b') \<and> rb_ok b' \<and>
    rb_content b' = ''+OK'' \<and> rb_pending b' = 3"
  using ReplyBuffer_Append_string_fifo [OF rb_ok_new(1), of "''+OK''" 15] rb_ok_new(2)
  by (simp add: new_sizes numeral_3_eq_3)

text \<open>
  C13: the bytes received from the socket are a queue too: appending grows or compacts the array
  as needed and keeps the unread bytes, consuming drops from the front, the array is never
  overrun; a null pointer is refused and so is a length that would overflow \<open>size_t\<close>.
\<close>

theorem DynamicBuffer_fifo:
  assumes "db_ok b"
  shows "(db_room b s \<longrightarrow> (\<exists>b'. DynamicBuffer_Append b (Some s) (length s) = Inr b' \<and> db_ok b' \<and>
      DynamicBuffer_View b' = Inr (db_content b @ s))) \<and>
    DynamicBuffer_View (DynamicBuffer_Consume b n) = Inr (drop n (db_content b)) \<and>
    (n > 0 \<longrightarrow> DynamicBuffer_Append b None n = Inl Invalid_argument)"
proof (intro conjI impI)
  show "db_room b s \<Longrightarrow> \<exists>b'. DynamicBuffer_Append b (Some s) (length s) = Inr b' \<and> db_ok b' \<and>
      DynamicBuffer_View b' = Inr (db_content b @ s)"
    using dbuf.push_content [OF assms, of s] DynamicBuffer_View_ok by metis
  show "DynamicBuffer_View (DynamicBuffer_Consume b n) = Inr (drop n (db_content b))"
    using dbuf.pop_content [OF assms, of n] DynamicBuffer_View_ok by metis
qed (simp add: DynamicBuffer_Append_def)

theorem DynamicBuffer_fifo_witness:
  "(\<exists>b'. DynamicBuffer_Append DynamicBuffer_new (Some ''PING'') (length ''PING'') = Inr b' \<and> db_ok b' \<and>
      DynamicBuffer_View b' = Inr ''PING'') \<and>
    DynamicBuffer_Append DynamicBuffer_new None 1 = Inl Invalid_argument"
  using DynamicBuffer_fifo [OF db_ok_new(1), of "''PING''" 1] db_ok_new(2)
  by (simp add: db_room_def new_sizes)

text \<open>
  \<open>ReadLineView\<close> splits off the first line of the unread bytes with its \<open>LF\<close> or \<open>CRLF\<close>
  terminator, and takes nothing when no line is complete.
\<close>

theorem ReadLineView_splits:
  assumes "db_ok b"
  shows "(CHR 0x0A \<notin> set (db_content b) \<and> ReadLineView b = Inr (None, b)) \<or>
    (\<exists>line b' eol. ReadLineView b = Inr (Some line, b') \<and> db_ok b' \<and>
       eol \<in> {[CHR 0x0A], [CHR 0x0D, CHR 0x0A]} \<and> db_content b = line @ eol @ db_content b' \<and>
       CHR 0x0A \<notin> set line \<and> (eol = [CHR 0x0A] \<longrightarrow> line = [] \<or> last line \<noteq> CHR 0x0D))"
  by (rule ReadLineView_ok [OF assms])

theorem ReadLineView_splits_witness: "ReadLineView DynamicBuffer_new = Inr (None, DynamicBuffer_new)"
  using ReadLineView_splits [OF db_ok_new(1)] db_ok_new(2) by auto

end
