(* ===== verification/Resp.thy ===== *)
theory Resp
  imports Num_Utils
begin

text \<open>
  The wire protocol: the replies of \<open>src/server/reply.cpp\<close> and the request parser of
  \<open>src/server/request_parser.cpp\<close>.  A position in the input is a \<open>nat\<close>, \<open>npos\<close> is \<open>None\<close>; a
  \<open>substr\<close> that starts behind the end throws, an index outside the view is a fault.
\<close>

section \<open>String views\<close>

text \<open>\<open>find\<close> of a non-empty text, \<open>find_first_not_of\<close> of a character, and \<open>substr\<close>.\<close>

function find_from :: "string \<Rightarrow> string \<Rightarrow> nat \<Rightarrow> nat option" where
  "find_from p s i =
     (if i + length p > length s then None
      else if take (length p) (drop i s) = p then Some i else find_from p s (Suc i))"
  by auto
termination
  by (relation "measure (\<lambda>(p, s, i). Suc (length s) - i)") auto

declare find_from.simps [simp del]

function find_first_not_of :: "char \<Rightarrow> string \<Rightarrow> nat \<Rightarrow> nat option" where
  "find_first_not_of c s i =
     (if i \<ge> length s then None
      else if s ! i \<noteq> c then Some i else find_first_not_of c s (Suc i))"
  by auto
termination
  by (relation "measure (\<lambda>(c, s, i). length s - i)") auto

declare find_first_not_of.simps [simp del]

definition substr :: "string \<Rightarrow> nat \<Rightarrow> nat \<Rightarrow> string res" where
  "substr s pos n = (if pos > length s then Inl Out_of_range else Inr (take n (drop pos s)))"

definition substr_rest :: "string \<Rightarrow> nat \<Rightarrow> string res" where
  "substr_rest s pos = (if pos > length s then Inl Out_of_range else Inr (drop pos s))"

text \<open>
  \<open>std::from_chars\<close> on \<open>size_t\<close>: the value of the longest prefix of digits, if there is one and it
  fits, with the number of characters read.
\<close>

definition from_chars_size :: "string \<Rightarrow> (nat \<times> nat) option" where
  "from_chars_size s =
     (let ds = takeWhile is_digit s; v = foldl dig 0 ds
      in if ds = [] \<or> v > SIZE_MAX then None else Some (v, length ds))"

definition kCrlf :: string where
  "kCrlf = [CHR 0x0D, CHR 0x0A]"

section \<open>Replies\<close>

datatype ProtocolVersion = kResp2 | kResp3

definition AppendInteger :: "int \<Rightarrow> string \<Rightarrow> string" where
  "AppendInteger v out = out @ dec_int v"

definition FromString :: "string \<Rightarrow> string" where
  "FromString s = CHR ''+'' # s @ kCrlf"

definition AppendBulkString :: "string \<Rightarrow> string \<Rightarrow> string" where
  "AppendBulkString s reply = AppendInteger (int (length s)) (reply @ ''$'') @ kCrlf @ s @ kCrlf"

definition FromBulkString :: "string \<Rightarrow> string" where
  "FromBulkString s = AppendBulkString s []"

definition FromInt64 :: "int \<Rightarrow> string" where
  "FromInt64 v = AppendInteger v '':'' @ kCrlf"

definition AppendArrayHeader :: "nat \<Rightarrow> string \<Rightarrow> string" where
  "AppendArrayHeader n reply = AppendInteger (int n) (reply @ ''*'') @ kCrlf"

definition FromArrayHeader :: "nat \<Rightarrow> string" where
  "FromArrayHeader n = AppendArrayHeader n []"

fun FromArray_loop :: "string list \<Rightarrow> string \<Rightarrow> string res" where
  "FromArray_loop [] reply = Inr reply"
| "FromArray_loop (str # rest) reply =
     (if length str < length kCrlf \<or> drop (length str - length kCrlf) str \<noteq> kCrlf
      then Inl Invalid_argument
      else FromArray_loop rest (reply @ str))"

definition FromArray :: "string list \<Rightarrow> string res" where
  "FromArray array = FromArray_loop array (FromArrayHeader (length array))"

definition FromBulkStringArray :: "string list \<Rightarrow> string" where
  "FromBulkStringArray values =
     fold (\<lambda>value reply. AppendBulkString value reply) values (FromArrayHeader (length values))"

text \<open>The text of a double (\<open>utils::FloatToString\<close>) is a parameter.\<close>

definition FromFloat :: "('f \<Rightarrow> string) \<Rightarrow> 'f \<Rightarrow> ProtocolVersion \<Rightarrow> string" where
  "FromFloat FloatToString fl protocol =
     (let value = FloatToString fl in
      if protocol = kResp2 then FromBulkString value else CHR '','' # value @ kCrlf)"

definition FromError :: "string \<Rightarrow> string" where
  "FromError message = CHR ''-'' # message @ kCrlf"

definition WrongNumberOfArguments :: string where
  "WrongNumberOfArguments = FromError ''ERR wrong number of arguments''"

definition UnknownCommand :: "string \<Rightarrow> string" where
  "UnknownCommand command = FromError (''ERR unknown command '' @ [CHR 0x27] @ command @ [CHR 0x27])"

definition SyntaxError :: string where
  "SyntaxError = FromError ''ERR syntax error''"

definition WrongTypeError :: string where
  "WrongTypeError = FromError ''WRONGTYPE Operation against a key holding the wrong kind of value''"

definition Null :: "ProtocolVersion \<Rightarrow> string" where
  "Null protocol = (if protocol = kResp2 then ''$-1'' @ kCrlf else ''_'' @ kCrlf)"

definition FromMapHeader :: "nat \<Rightarrow> ProtocolVersion \<Rightarrow> string res" where
  "FromMapHeader n protocol =
     (if protocol = kResp2 then
        (if n > SIZE_MAX div 2 then Inl Length_error else Inr (FromArrayHeader (n * 2)))
      else Inr (AppendInteger (int n) ''%'' @ kCrlf))"

definition FromSetHeader :: "nat \<Rightarrow> ProtocolVersion \<Rightarrow> string" where
  "FromSetHeader n protocol =
     (if protocol = kResp2 then FromArrayHeader n else AppendInteger (int n) ''~'' @ kCrlf)"

section \<open>Requests\<close>

datatype ParseStatus = kComplete | kIncomplete | kInvalid

type_synonym ParseResult = "ParseStatus \<times> nat"

definition FindCrlf :: "string \<Rightarrow> nat \<Rightarrow> ParseResult" where
  "FindCrlf input start =
     (case find_from kCrlf input start of None \<Rightarrow> (kIncomplete, 0) | Some e \<Rightarrow> (kComplete, e))"

definition ParseSize :: "string \<Rightarrow> nat option" where
  "ParseSize value =
     (if value = [] then None
      else case from_chars_size value of
          None \<Rightarrow> None
        | Some (parsed, used) \<Rightarrow> if used \<noteq> length value then None else Some parsed)"

definition ParseBulkString :: "string \<Rightarrow> nat \<Rightarrow> (ParseResult \<times> string) res" where
  "ParseBulkString input start =
     (if start \<ge> length input then Inr ((kIncomplete, 0), [])
      else bindE (rd input start) (\<lambda>c.
        if c \<noteq> CHR ''$'' then Inr ((kInvalid, 0), [])
        else case FindCrlf input (start + 1) of
          (kComplete, header) \<Rightarrow>
            bindE (substr input (start + 1) (header - start - 1)) (\<lambda>digits.
            case ParseSize digits of
              None \<Rightarrow> Inr ((kInvalid, 0), [])
            | Some len \<Rightarrow>
                let content_start = header + 2 in
                if len > SIZE_MAX - content_start - 2 then Inr ((kInvalid, 0), [])
                else let e = content_start + len in
                  if e + 2 > length input then Inr ((kIncomplete, 0), [])
                  else bindE (substr input e 2) (\<lambda>tail.
                    if tail \<noteq> kCrlf then Inr ((kInvalid, 0), [])
                    else bindE (substr input content_start len) (\<lambda>value.
                      Inr ((kComplete, e + 2 - start), value))))
        | header \<Rightarrow> Inr (header, [])))"

text \<open>The loop over the elements: \<open>n\<close> is the number of elements that are left.\<close>

fun ParseResp_loop :: "string \<Rightarrow> nat \<Rightarrow> nat \<Rightarrow> string list \<Rightarrow> (ParseResult \<times> string list) res" where
  "ParseResp_loop input 0 consumed values = Inr ((kComplete, consumed), values)"
| "ParseResp_loop input (Suc n) consumed values =
     bindE (ParseBulkString input consumed) (\<lambda>(element, value).
       if fst element \<noteq> kComplete then Inr (element, values)
       else ParseResp_loop input n (consumed + snd element) (values @ [value]))"

text \<open>
  The first value is the command and the others its arguments.  \<open>args->reserve\<close> has no effect on
  the contents.
\<close>

definition ParseResp :: "string \<Rightarrow> (ParseResult \<times> string \<times> string list) res" where
  "ParseResp input =
     (case FindCrlf input 1 of
        (kComplete, header) \<Rightarrow>
          bindE (substr input 1 (header - 1)) (\<lambda>digits.
          case ParseSize digits of
            None \<Rightarrow> Inr ((kInvalid, 0), [], [])
          | Some element_count \<Rightarrow>
              if element_count = 0 \<or> element_count > 1024 * 1024 then Inr ((kInvalid, 0), [], [])
              else bindE (ParseResp_loop input element_count (header + 2) []) (\<lambda>(result, values).
                Inr (result, case values of [] \<Rightarrow> ([], []) | v # vs \<Rightarrow> (v, vs))))
      | header \<Rightarrow> Inr (header, [], []))"

text \<open>A word of the line from \<open>start\<close>, up to the blank at \<open>e\<close> or to the end of the line.\<close>

definition line_word :: "string \<Rightarrow> nat \<Rightarrow> nat option \<Rightarrow> string res" where
  "line_word line start e =
     (case e of None \<Rightarrow> substr_rest line start | Some e \<Rightarrow> substr line start (e - start))"

lemma find_from_bounds:
  "find_from p s i = Some j \<Longrightarrow> i \<le> j \<and> j + length p \<le> length s \<and> take (length p) (drop j s) = p"
proof (induction p s i rule: find_from.induct)
  case (1 p s i)
  then show ?case using find_from.simps [of p s i] by (auto split: if_splits)
qed

lemma find_first_not_of_bounds: "find_first_not_of c s i = Some j \<Longrightarrow> i \<le> j \<and> j < length s \<and> s ! j \<noteq> c"
proof (induction c s i rule: find_first_not_of.induct)
  case (1 c s i)
  then show ?case using find_first_not_of.simps [of c s i] by (auto split: if_splits)
qed

lemma find_from_char: "find_from [c] s i = Some j \<Longrightarrow> i \<le> j \<and> j < length s \<and> s ! j = c"
  using find_from_bounds [of "[c]" s i j]
  by (auto simp: take_Suc hd_drop_conv_nth split: if_splits)

function ParseInline_loop :: "string \<Rightarrow> nat option \<Rightarrow> string list \<Rightarrow> string list res" where
  "ParseInline_loop line None args = Inr args"
| "ParseInline_loop line (Some position) args =
     (case find_first_not_of (CHR '' '') line position of
        None \<Rightarrow> Inr args
      | Some start \<Rightarrow>
          let e = find_from '' '' line start in
          bindE (line_word line start e) (\<lambda>arg. ParseInline_loop line e (args @ [arg])))"
  by pat_completeness auto
termination
proof (relation "measure (\<lambda>(line, position, args). case position of None \<Rightarrow> 0 | Some p \<Rightarrow> Suc (length line - p))",
    goal_cases)
  case (2 line position args start e arg)
  have a: "position \<le> start" "start < length line" "line ! start \<noteq> CHR '' ''"
    using find_first_not_of_bounds [OF 2(1)] by auto
  show ?case
  proof (cases e)
    case (Some j)
    then have "start \<le> j" "line ! j = CHR '' ''" "j + 1 \<le> length line"
      using find_from_char [of "CHR '' ''" line start j] 2(2) by auto
    then have "start < j" using a(3) by (metis order_le_imp_less_or_eq)
    then show ?thesis using a Some by simp
  qed simp
qed simp

definition ParseInline :: "string \<Rightarrow> (ParseResult \<times> string \<times> string list) res" where
  "ParseInline input =
     (case find_from [CHR 0x0A] input 0 of
        None \<Rightarrow> Inr ((kIncomplete, 0), [], [])
      | Some newline \<Rightarrow>
          let line_end = (if newline > 0 \<and> input ! (newline - 1) = CHR 0x0D then newline - 1 else newline)
          in bindE (substr input 0 line_end) (\<lambda>line.
            case find_first_not_of (CHR '' '') line 0 of
              None \<Rightarrow> Inr ((kComplete, newline + 1), [], [])
            | Some position \<Rightarrow>
                let command_end = find_from '' '' line position in
                bindE (line_word line position command_end) (\<lambda>command.
                bindE (ParseInline_loop line command_end []) (\<lambda>args.
                  Inr ((kComplete, newline + 1), command, args)))))"

text \<open>\<open>null_out\<close>: one of the two output pointers is null.\<close>

definition Parse :: "bool \<Rightarrow> string \<Rightarrow> (ParseResult \<times> string \<times> string list) res" where
  "Parse null_out input =
     (if null_out then Inr ((kInvalid, 0), [], [])
      else if input = [] then Inr ((kIncomplete, 0), [], [])
      else bindE (if hd input = CHR ''*'' then ParseResp input else ParseInline input) (\<lambda>(result, command, args).
        if fst result \<noteq> kComplete then Inr (result, [], []) else Inr (result, command, args)))"

end
