(* ===== verification/Resp_Correct.thy ===== *)
theory Resp_Correct
  imports Resp
begin

text \<open>
  Correctness of the wire protocol: the request parser is safe on every input, makes progress,
  inverts the encoder, asks for more bytes on every proper prefix of a request, and splits an
  inline request at its blanks.
\<close>

section \<open>Searching\<close>

lemma find_from_hit:
  assumes "p \<noteq> []" "hd p \<notin> set w"
  shows "find_from p (a @ w @ p @ r) (length a) = Some (length a + length w)"
  using assms
proof (induction w arbitrary: a)
  case Nil
  then show ?case by (subst find_from.simps) simp
next
  case (Cons x w)
  have "take (length p) ((x # w) @ p @ r) \<noteq> p"
    using Cons.prems by (cases p) auto
  then have "find_from p (a @ (x # w) @ p @ r) (length a) = find_from p ((a @ [x]) @ w @ p @ r) (length (a @ [x]))"
    by (subst find_from.simps) simp
  then show ?case using Cons.IH [of "a @ [x]"] Cons.prems by simp
qed

lemma find_from_miss:
  assumes "p \<noteq> []" "hd p \<notin> set w"
  shows "find_from p (a @ w) (length a) = None"
  using assms
proof (induction w arbitrary: a)
  case Nil
  then show ?case by (subst find_from.simps) simp
next
  case (Cons x w)
  have "take (length p) (x # w) \<noteq> p"
    using Cons.prems by (cases p) auto
  then have "find_from p (a @ x # w) (length a) = None \<or>
      find_from p (a @ x # w) (length a) = find_from p ((a @ [x]) @ w) (length (a @ [x]))"
    by (subst (1 2) find_from.simps) simp
  then show ?case using Cons.IH [of "a @ [x]"] Cons.prems by auto
qed

section \<open>Encoding\<close>

lemma dec_int_nat [simp]: "dec_int (int n) = dec n"
  by (simp add: dec_int_def)

definition bulk :: "string \<Rightarrow> string" where
  "bulk s = ''$'' @ dec (length s) @ kCrlf @ s @ kCrlf"

lemma AppendBulkString_bulk [simp]: "AppendBulkString s r = r @ bulk s"
  by (simp add: AppendBulkString_def AppendInteger_def bulk_def)

lemma FromArrayHeader_dec: "FromArrayHeader n = ''*'' @ dec n @ kCrlf"
  by (simp add: FromArrayHeader_def AppendArrayHeader_def AppendInteger_def)

lemma FromBulkStringArray_bulk:
  "FromBulkStringArray xs = ''*'' @ dec (length xs) @ kCrlf @ concat (map bulk xs)"
proof -
  have "fold (\<lambda>value reply. reply @ bulk value) xs r = r @ concat (map bulk xs)" for r
    by (induction xs arbitrary: r) simp_all
  then show ?thesis by (simp add: FromBulkStringArray_def FromArrayHeader_dec)
qed

lemma takeWhile_dec [simp]: "takeWhile is_digit (dec n) = dec n"
  using dec_digits by (simp add: takeWhile_eq_all_conv)

lemma ParseSize_dec: "n \<le> SIZE_MAX \<Longrightarrow> ParseSize (dec n) = Some n"
  by (simp add: ParseSize_def from_chars_size_def dec_value)

lemma ParseSize_bound: "ParseSize s = Some n \<Longrightarrow> n \<le> SIZE_MAX"
  by (auto simp: ParseSize_def from_chars_size_def Let_def split: if_splits option.splits)

lemma not_digit_CR: "\<not> is_digit (CHR 0x0D)"
  by (simp add: is_digit_def)

lemma dec_no_CR [simp]: "CHR 0x0D \<notin> set (dec n)"
  using dec_digits not_digit_CR by blast

lemma kCrlf_simps [simp]: "kCrlf \<noteq> []" "hd kCrlf = CHR 0x0D" "length kCrlf = 2"
  by (simp_all add: kCrlf_def)

lemma FindCrlf_dec: "FindCrlf (a @ dec n @ kCrlf @ r) (length a) = (kComplete, length a + length (dec n))"
  using find_from_hit [of kCrlf "dec n" a r] by (simp add: FindCrlf_def)

lemma substr_append: "substr (a @ b @ c) (length a) (length b) = Inr b"
  by (simp add: substr_def)

lemma ParseBulkString_bulk:
  assumes "length (a @ bulk s @ r) \<le> SIZE_MAX"
  shows "ParseBulkString (a @ bulk s @ r) (length a) = Inr ((kComplete, length (bulk s)), s)"
proof -
  define d where "d = dec (length s)"
  define input where "input = a @ bulk s @ r"
  have i1: "input = (a @ ''$'') @ d @ kCrlf @ s @ kCrlf @ r" by (simp add: input_def bulk_def d_def)
  have i2: "input = (a @ ''$'' @ d @ kCrlf) @ s @ kCrlf @ r" by (simp add: i1)
  have i3: "input = (a @ ''$'' @ d @ kCrlf @ s) @ kCrlf @ r" by (simp add: i1)
  have len: "length input = length a + length d + length s + length r + 5" by (simp add: i1)
  have rd: "rd input (length a) = Inr (CHR ''$'')" by (simp add: i1)
  have fc: "FindCrlf input (length a + 1) = (kComplete, length a + 1 + length d)"
    using FindCrlf_dec [of "a @ ''$''" "length s" "s @ kCrlf @ r"] by (simp add: i1 d_def)
  have s1: "substr input (length a + 1) (length a + 1 + length d - length a - 1) = Inr d"
    using substr_append [of "a @ ''$''" d "kCrlf @ s @ kCrlf @ r"] by (simp add: i1)
  have ps: "ParseSize d = Some (length s)"
    unfolding d_def by (rule ParseSize_dec) (use assms len in \<open>simp add: input_def [symmetric]\<close>)
  have s2: "substr input (length a + 1 + length d + 2) (length s) = Inr s"
    using substr_append [of "a @ ''$'' @ d @ kCrlf" s "kCrlf @ r"] by (simp add: i2)
  have s3: "substr input (length a + 1 + length d + 2 + length s) 2 = Inr kCrlf"
    using substr_append [of "a @ ''$'' @ d @ kCrlf @ s" kCrlf r] by (simp add: i3 add.assoc)
  have b1: "\<not> length a \<ge> length input" "\<not> length a + 1 + length d + 2 + length s + 2 > length input"
    using len by simp_all
  have b2: "\<not> length s > SIZE_MAX - (length a + 1 + length d + 2) - 2"
    using assms len unfolding input_def [symmetric] by linarith
  have lb: "length a + 1 + length d + 2 + length s + 2 - length a = length (bulk s)"
    by (simp add: bulk_def d_def)
  have ne: "(CHR ''$'' \<noteq> CHR ''$'') = False" "(kCrlf \<noteq> kCrlf) = False" by simp_all
  have "ParseBulkString input (length a) = Inr ((kComplete, length (bulk s)), s)"
    by (simp only: ParseBulkString_def b1 rd fc s1 ps s2 s3 b2 lb ne if_False bindE_Inr prod.case
        ParseStatus.case option.case Let_def)
  then show ?thesis by (simp add: input_def)
qed

lemma ParseResp_loop_bulks:
  assumes "length (a @ concat (map bulk xs) @ r) \<le> SIZE_MAX"
  shows "ParseResp_loop (a @ concat (map bulk xs) @ r) (length xs) (length a) vs
    = Inr ((kComplete, length a + length (concat (map bulk xs))), vs @ xs)"
  using assms
proof (induction xs arbitrary: a vs)
  case (Cons x xs)
  have "ParseBulkString (a @ bulk x @ concat (map bulk xs) @ r) (length a) = Inr ((kComplete, length (bulk x)), x)"
    by (rule ParseBulkString_bulk) (use Cons.prems in simp)
  then show ?case using Cons.IH [of "a @ bulk x" "vs @ [x]"] Cons.prems by simp
qed simp

lemma Parse_request:
  assumes "length (FromBulkStringArray (c # args) @ r) \<le> SIZE_MAX" "length args < 1024 * 1024"
  shows "Parse False (FromBulkStringArray (c # args) @ r)
    = Inr ((kComplete, length (FromBulkStringArray (c # args))), c, args)"
proof -
  define xs where "xs = c # args"
  define input where "input = FromBulkStringArray xs @ r"
  define d where "d = dec (length xs)"
  have i0: "input = CHR ''*'' # d @ kCrlf @ concat (map bulk xs) @ r"
    by (simp add: input_def FromBulkStringArray_bulk d_def)
  have i1: "input = ''*'' @ d @ kCrlf @ concat (map bulk xs) @ r" by (simp add: i0)
  have fc: "FindCrlf input 1 = (kComplete, 1 + length d)"
    using FindCrlf_dec [of "''*''" "length xs" "concat (map bulk xs) @ r"] by (simp add: i1 d_def)
  have s1: "substr input 1 (1 + length d - 1) = Inr d"
    using substr_append [of "''*''" d] by (simp add: i1)
  have n: "length xs \<le> 1048576" "0 < length xs" using assms(2) by (simp_all add: xs_def)
  have ps: "ParseSize d = Some (length xs)" unfolding d_def by (rule ParseSize_dec) (use n in simp)
  have "ParseResp_loop ((''*'' @ d @ kCrlf) @ concat (map bulk xs) @ r) (length xs) (length (''*'' @ d @ kCrlf)) []
      = Inr ((kComplete, length (''*'' @ d @ kCrlf) + length (concat (map bulk xs))), [] @ xs)"
    by (rule ParseResp_loop_bulks)
      (use assms(1) in \<open>simp add: FromBulkStringArray_bulk xs_def d_def\<close>)
  then have lp: "ParseResp_loop input (length xs) (1 + length d + 2) []
      = Inr ((kComplete, length (FromBulkStringArray xs)), xs)"
    by (simp add: i1 FromBulkStringArray_bulk d_def)
  have cnt: "\<not> (length xs = 0 \<or> length xs > 1024 * 1024)" using n by simp
  have "ParseResp input = Inr ((kComplete, length (FromBulkStringArray xs)), c, args)"
    by (simp only: ParseResp_def fc s1 ps lp cnt if_False bindE_Inr prod.case ParseStatus.case option.case)
      (simp add: xs_def)
  moreover have "input \<noteq> []" "hd input = CHR ''*''" by (simp_all add: i0)
  ultimately have "Parse False input = Inr ((kComplete, length (FromBulkStringArray xs)), c, args)"
    by (simp add: Parse_def)
  then show ?thesis by (simp add: input_def xs_def)
qed

section \<open>Safety and progress\<close>

lemma FindCrlf_Complete:
  "FindCrlf s i = (kComplete, e) \<Longrightarrow> i \<le> e \<and> e + 2 \<le> length s"
  "FindCrlf s i = (st, e) \<Longrightarrow> st \<noteq> kComplete \<Longrightarrow> st = kIncomplete \<and> e = 0"
  using find_from_bounds [of kCrlf s i e] by (auto simp: FindCrlf_def split: option.splits)

lemma substr_safe: "i \<le> length s \<Longrightarrow> substr s i n = Inr (take n (drop i s))"
  by (simp add: substr_def)

lemma ParseBulkString_safe:
  assumes "i \<le> length input"
  shows "\<exists>st k v. ParseBulkString input i = Inr ((st, k), v) \<and> i + k \<le> length input \<and>
    (st = kComplete \<longrightarrow> 0 < k)"
proof (cases "i < length input \<and> input ! i = CHR ''$''")
  case False
  then show ?thesis using assms by (auto simp: ParseBulkString_def rd_def)
next
  case True
  show ?thesis
  proof (cases "fst (FindCrlf input (i + 1))")
    case kComplete
    then obtain h where h: "FindCrlf input (i + 1) = (kComplete, h)" by (metis prod.collapse)
    note hb = FindCrlf_Complete(1) [OF h]
    have sub: "substr input (i + 1) (h - i - 1) = Inr (take (h - i - 1) (drop (i + 1) input))"
      by (rule substr_safe) (use hb in simp)
    show ?thesis
    proof (cases "ParseSize (take (h - i - 1) (drop (i + 1) input))")
      case None
      then show ?thesis using True h sub by (simp add: ParseBulkString_def rd_def)
    next
      case (Some len)
      consider "len > SIZE_MAX - (h + 2) - 2" | "h + 2 + len + 2 > length input"
        | "\<not> len > SIZE_MAX - (h + 2) - 2" "h + 2 + len + 2 \<le> length input" by linarith
      then show ?thesis
      proof cases
        case 3
        then have "substr input (h + 2 + len) 2 = Inr (take 2 (drop (h + 2 + len) input))"
          "substr input (h + 2) len = Inr (take len (drop (h + 2) input))"
          by (simp_all add: substr_safe)
        then show ?thesis using True h sub Some 3 hb by (simp add: ParseBulkString_def rd_def Let_def)
      qed (use True h sub Some hb in \<open>simp_all add: ParseBulkString_def rd_def Let_def\<close>)
    qed
  next
    case kIncomplete
    then have "FindCrlf input (i + 1) = (kIncomplete, 0)" using FindCrlf_Complete(2) by (metis prod.collapse ParseStatus.distinct(1))
    then show ?thesis using True by (simp add: ParseBulkString_def rd_def)
  next
    case kInvalid
    then show ?thesis using FindCrlf_Complete(2) [of input "i + 1"] by (metis prod.collapse ParseStatus.distinct(3) ParseStatus.distinct(5))
  qed
qed

lemma ParseResp_loop_safe:
  "i \<le> length input \<Longrightarrow> \<exists>st k vs'. ParseResp_loop input n i vs = Inr ((st, k), vs') \<and> k \<le> length input \<and>
    (st = kComplete \<longrightarrow> i \<le> k)"
proof (induction n arbitrary: i vs)
  case (Suc n)
  obtain st k v where b: "ParseBulkString input i = Inr ((st, k), v)" "i + k \<le> length input"
    using ParseBulkString_safe [OF Suc.prems] by auto
  show ?case
  proof (cases "st = kComplete")
    case True
    then show ?thesis using Suc.IH [OF b(2), of "vs @ [v]"] b(1) by auto
  next
    case False
    then show ?thesis using b by auto
  qed
qed auto

lemma ParseResp_safe:
  assumes "input \<noteq> []"
  shows "\<exists>st k r. ParseResp input = Inr ((st, k), r) \<and> k \<le> length input \<and> (st = kComplete \<longrightarrow> 0 < k)"
proof (cases "find_from kCrlf input 1")
  case None
  then have "FindCrlf input 1 = (kIncomplete, 0)" by (simp add: FindCrlf_def)
  then show ?thesis by (simp add: ParseResp_def)
next
  case (Some h)
  then have fc: "FindCrlf input 1 = (kComplete, h)" by (simp add: FindCrlf_def)
  note hb = FindCrlf_Complete(1) [OF fc]
  have sub: "substr input 1 (h - 1) = Inr (take (h - 1) (drop 1 input))"
    by (rule substr_safe) (use hb in simp)
  show ?thesis
  proof (cases "ParseSize (take (h - 1) (drop 1 input))")
    case None
    then show ?thesis using fc sub by (simp add: ParseResp_def)
  next
    case (Some n)
    obtain st k vs where lp: "ParseResp_loop input n (h + 2) [] = Inr ((st, k), vs)" "k \<le> length input"
      "st = kComplete \<longrightarrow> h + 2 \<le> k"
      using ParseResp_loop_safe [of "h + 2" input n "[]"] hb by auto
    show ?thesis
    proof (cases "n = 0 \<or> n > 1024 * 1024")
      case True
      then show ?thesis using fc sub Some by (auto simp: ParseResp_def)
    next
      case False
      then have "ParseResp input = Inr ((st, k), case vs of [] \<Rightarrow> ([], []) | v # vs \<Rightarrow> (v, vs))"
        using fc sub Some lp(1) by (simp add: ParseResp_def)
      then show ?thesis using lp(2,3) by (metis add_2_eq_Suc' less_Suc_eq_0_disj less_le_trans zero_less_Suc)
    qed
  qed
qed

section \<open>Inline requests\<close>

function words_of :: "string \<Rightarrow> string list" where
  "words_of s = (case dropWhile (\<lambda>c. c = CHR '' '') s of
     [] \<Rightarrow> []
   | c # t \<Rightarrow> takeWhile (\<lambda>c. c \<noteq> CHR '' '') (c # t) # words_of (dropWhile (\<lambda>c. c \<noteq> CHR '' '') t))"
  by auto
termination
proof (relation "measure length", goal_cases)
  case (2 s c t)
  have "length (dropWhile (\<lambda>c. c \<noteq> CHR '' '') t) \<le> length t" by (rule length_dropWhile_le)
  moreover have "length (c # t) \<le> length s" using 2 length_dropWhile_le by metis
  ultimately show ?case by simp
qed simp

declare words_of.simps [simp del]

lemma find_first_not_of_drop:
  "i \<le> length s \<Longrightarrow> find_first_not_of c s i = (case dropWhile (\<lambda>x. x = c) (drop i s) of
     [] \<Rightarrow> None | t \<Rightarrow> Some (length s - length t))"
proof (induction c s i rule: find_first_not_of.induct)
  case (1 c s i)
  show ?case
  proof (cases "i < length s")
    case True
    then have "drop i s = s ! i # drop (Suc i) s" by (simp add: Cons_nth_drop_Suc)
    then show ?thesis using 1 True
      by (subst find_first_not_of.simps) (auto simp: length_drop split: list.splits)
  qed (simp add: find_first_not_of.simps)
qed

lemma find_from_char_drop:
  "i \<le> length s \<Longrightarrow> find_from [c] s i = (case dropWhile (\<lambda>x. x \<noteq> c) (drop i s) of
     [] \<Rightarrow> None | t \<Rightarrow> Some (length s - length t))"
proof (induction "[c]" s i rule: find_from.induct)
  case (1 s i)
  show ?case
  proof (cases "i < length s")
    case True
    then have "drop i s = s ! i # drop (Suc i) s" by (simp add: Cons_nth_drop_Suc)
    then show ?thesis using 1 True by (subst find_from.simps) (auto split: list.splits)
  qed (simp add: find_from.simps)
qed

lemma find_from_char_first:
  assumes "find_from [c] s 0 = Some n"
  shows "c \<notin> set (take n s)"
proof -
  define a where "a = takeWhile (\<lambda>x. x \<noteq> c) s"
  define t where "t = dropWhile (\<lambda>x. x \<noteq> c) s"
  have s: "s = a @ t" by (simp add: a_def t_def)
  have "find_from [c] s 0 = (case t of [] \<Rightarrow> None | u \<Rightarrow> Some (length s - length u))"
    using find_from_char_drop [of 0 s c] by (simp only: drop_0 le0 t_def)
  then have "n = length s - length t" using assms by (cases t) simp_all
  then have "take n s = a" by (simp add: s)
  then show ?thesis by (auto simp: a_def dest: set_takeWhileD)
qed

lemma suffix_at: "drop i s = a @ t \<Longrightarrow> i \<le> length s \<Longrightarrow>
    length s - length t = i + length a \<and> drop (i + length a) s = t"
proof -
  assume d: "drop i s = a @ t" and "i \<le> length s"
  then have "length s = i + length a + length t" by (metis add.assoc le_add_diff_inverse length_append length_drop)
  moreover have "drop (i + length a) s = t" using d by (metis add.commute append_eq_conv_conj drop_drop)
  ultimately show ?thesis by simp
qed

text \<open>One word: where it starts, its text and what is left of the line.\<close>

lemma next_word:
  assumes "i \<le> length line"
  shows "(find_first_not_of (CHR '' '') line i = None \<and> words_of (drop i line) = []) \<or>
    (\<exists>start w. find_first_not_of (CHR '' '') line i = Some start \<and> start < length line \<and>
      line_word line start (find_from '' '' line start) = Inr w \<and>
      words_of (drop i line) = w # (case find_from '' '' line start of None \<Rightarrow> []
         | Some e \<Rightarrow> words_of (drop e line)) \<and>
      (case find_from '' '' line start of None \<Rightarrow> True | Some e \<Rightarrow> e \<le> length line))"
proof (cases "dropWhile (\<lambda>x. x = CHR '' '') (drop i line)")
  case Nil
  have "find_first_not_of (CHR '' '') line i = None"
    by (simp only: find_first_not_of_drop [OF assms] Nil list.case)
  moreover have "words_of (drop i line) = []" by (subst words_of.simps) (simp only: Nil list.case)
  ultimately show ?thesis by simp
next
  case (Cons c t)
  define bl where "bl = takeWhile (\<lambda>x. x = CHR '' '') (drop i line)"
  have "drop i line = bl @ c # t" by (simp only: bl_def Cons [symmetric] takeWhile_dropWhile_id)
  note st = suffix_at [OF this assms]
  define start where "start = i + length bl"
  have ff: "find_first_not_of (CHR '' '') line i = Some start"
    using find_first_not_of_drop [OF assms] Cons st by (simp add: start_def)
  have ds: "drop start line = c # t" using st by (simp add: start_def)
  have c: "c \<noteq> CHR '' ''" using hd_dropWhile [of "\<lambda>x. x = CHR '' ''" "drop i line"] unfolding Cons by simp
  have sl: "start < length line" using ds by (cases "start < length line") simp_all
  define w where "w = takeWhile (\<lambda>x. x \<noteq> CHR '' '') (c # t)"
  define r where "r = dropWhile (\<lambda>x. x \<noteq> CHR '' '') (c # t)"
  have wr: "drop start line = w @ r" by (simp only: ds w_def r_def takeWhile_dropWhile_id)
  have "words_of (drop i line) = w # words_of (dropWhile (\<lambda>x. x \<noteq> CHR '' '') t)"
    unfolding w_def by (subst words_of.simps) (simp only: Cons list.case)
  moreover have "r = dropWhile (\<lambda>x. x \<noteq> CHR '' '') t" using c by (simp add: r_def)
  ultimately have wo: "words_of (drop i line) = w # words_of r" by simp
  have fs: "find_from '' '' line start = (case r of [] \<Rightarrow> None | u \<Rightarrow> Some (length line - length u))"
    using find_from_char_drop [OF less_imp_le [OF sl], of "CHR '' ''"] by (simp only: ds r_def)
  have rr: "length line - length r = start + length w" "drop (start + length w) line = r"
    using suffix_at [OF wr less_imp_le [OF sl]] by simp_all
  show ?thesis
  proof (cases r)
    case Nil
    then have e: "find_from '' '' line start = None" using fs by simp
    have "line_word line start None = Inr w" using wr sl Nil by (simp add: line_word_def substr_rest_def)
    moreover have "words_of r = []" unfolding Nil by (subst words_of.simps) simp
    ultimately show ?thesis using ff wo sl e
      by (intro disjI2 exI [of _ start] exI [of _ w]) simp
  next
    case (Cons u v)
    then have e: "find_from '' '' line start = Some (start + length w)" using fs rr(1) by simp
    have "line_word line start (Some (start + length w)) = Inr w"
      using wr sl by (simp add: line_word_def substr_def)
    moreover have "start + length w \<le> length line" using rr(1) by (metis diff_le_self)
    ultimately show ?thesis using ff wo sl rr(2) e
      by (intro disjI2 exI [of _ start] exI [of _ w]) simp
  qed
qed

lemma ParseInline_loop_words:
  "(case p of None \<Rightarrow> True | Some i \<Rightarrow> i \<le> length line) \<Longrightarrow> ParseInline_loop line p args =
     Inr (args @ (case p of None \<Rightarrow> [] | Some i \<Rightarrow> words_of (drop i line)))"
proof (induction line p args rule: ParseInline_loop.induct)
  case (2 line i args)
  then have i: "i \<le> length line" by simp
  show ?case
  proof (cases "find_first_not_of (CHR '' '') line i")
    case None
    then show ?thesis using next_word [OF i] by auto
  next
    case (Some start)
    then obtain w where w: "line_word line start (find_from '' '' line start) = Inr w"
      "words_of (drop i line) = w # (case find_from '' '' line start of None \<Rightarrow> []
         | Some e \<Rightarrow> words_of (drop e line))"
      "case find_from '' '' line start of None \<Rightarrow> True | Some e \<Rightarrow> e \<le> length line"
      using next_word [OF i] by auto
    show ?thesis using "2.IH" [OF Some refl w(1) w(3)] Some w(1,2) by (simp add: Let_def)
  qed
qed simp

lemma ParseInline_words:
  assumes "CHR 0x0A \<notin> set line"
  shows "ParseInline (line @ CHR 0x0A # rest) = Inr ((kComplete, length line + 1),
    case words_of (if line \<noteq> [] \<and> last line = CHR 0x0D then butlast line else line) of
      [] \<Rightarrow> ([], []) | w # ws \<Rightarrow> (w, ws))"
proof -
  let ?in = "line @ CHR 0x0A # rest"
  let ?l = "if line \<noteq> [] \<and> last line = CHR 0x0D then butlast line else line"
  have nl: "find_from [CHR 0x0A] ?in 0 = Some (length line)"
    using find_from_hit [of "[CHR 0x0A]" line "[]" rest] assms by simp
  have sub: "substr ?in 0 (if length line > 0 \<and> ?in ! (length line - 1) = CHR 0x0D
      then length line - 1 else length line) = Inr ?l"
    by (cases line rule: rev_cases) (auto simp: substr_def nth_append)
  show ?thesis
  proof (cases "find_first_not_of (CHR '' '') ?l 0")
    case None
    then have "words_of ?l = []" using next_word [of 0 ?l] by (metis drop0 le0 option.distinct(1))
    then show ?thesis using nl sub None by (simp add: ParseInline_def Let_def)
  next
    case (Some start)
    then obtain w where w: "line_word ?l start (find_from '' '' ?l start) = Inr w"
      "words_of ?l = w # (case find_from '' '' ?l start of None \<Rightarrow> [] | Some e \<Rightarrow> words_of (drop e ?l))"
      "case find_from '' '' ?l start of None \<Rightarrow> True | Some e \<Rightarrow> e \<le> length ?l"
      using next_word [of 0 ?l] by (metis drop0 le0 option.distinct(1) option.inject)
    have lp: "ParseInline_loop ?l (find_from '' '' ?l start) [] =
        Inr (case find_from '' '' ?l start of None \<Rightarrow> [] | Some e \<Rightarrow> words_of (drop e ?l))"
      using ParseInline_loop_words [OF w(3), of "[]"] by simp
    show ?thesis unfolding ParseInline_def nl w(2)
      by (simp only: option.case Let_def sub bindE_Inr Some w(1) lp list.case)
  qed
qed

lemma Parse_safe_all:
  "\<exists>st k c args. Parse null_out input = Inr ((st, k), c, args) \<and> k \<le> length input \<and>
    (st = kComplete \<longrightarrow> 0 < k) \<and> (st \<noteq> kComplete \<longrightarrow> c = [] \<and> args = [])"
proof (cases "null_out \<or> input = []")
  case True
  then show ?thesis by (auto simp: Parse_def)
next
  case False
  have "\<exists>st k c args. (if hd input = CHR ''*'' then ParseResp input else ParseInline input) = Inr ((st, k), c, args) \<and>
      k \<le> length input \<and> (st = kComplete \<longrightarrow> 0 < k)"
  proof (cases "hd input = CHR ''*''")
    case True
    then show ?thesis using ParseResp_safe [of input] False by auto
  next
    case inl: False
    show ?thesis
    proof (cases "find_from [CHR 0x0A] input 0")
      case None
      then show ?thesis using inl by (simp add: ParseInline_def)
    next
      case (Some n)
      then have n: "n < length input" "input ! n = CHR 0x0A" using find_from_char by auto
      have nf: "CHR 0x0A \<notin> set (take n input)" by (rule find_from_char_first [OF Some])
      have sp: "input = take n input @ CHR 0x0A # drop (Suc n) input"
        using id_take_nth_drop [OF n(1)] n(2) by simp
      have ln: "length (take n input) = n" using n(1) by simp
      obtain c args where "ParseInline input = Inr ((kComplete, n + 1), c, args)"
        using ParseInline_words [OF nf, of "drop (Suc n) input"] unfolding sp [symmetric] ln
        by (metis prod.collapse)
      then show ?thesis using inl n(1)
        by (intro exI [of _ kComplete] exI [of _ "n + 1"] exI [of _ c] exI [of _ args]) simp
    qed
  qed
  then obtain st k c args where
    "(if hd input = CHR ''*'' then ParseResp input else ParseInline input) = Inr ((st, k), c, args)"
    "k \<le> length input" "st = kComplete \<longrightarrow> 0 < k" by blast
  then show ?thesis using False
    by (cases "st = kComplete") (simp_all only: Parse_def bindE_Inr, simp_all)
qed

section \<open>Incomplete requests\<close>

lemma find_from_take:
  "find_from p (take m s) i = Some j \<Longrightarrow> find_from p s i = Some j"
proof (induction p "take m s" i rule: find_from.induct)
  case (1 p i)
  then show ?case using find_from.simps [of p "take m s" i] find_from.simps [of p s i]
    by (auto simp: take_drop [symmetric] drop_take min_def split: if_splits)
qed

lemma FindCrlf_take:
  assumes "FindCrlf s i = (kComplete, h)"
  shows "FindCrlf (take m s) i = (if h + 2 \<le> min m (length s) \<and> FindCrlf (take m s) i \<noteq> (kIncomplete, 0)
    then (kComplete, h) else (kIncomplete, 0))"
proof (cases "find_from kCrlf (take m s) i")
  case None
  then show ?thesis by (simp add: FindCrlf_def)
next
  case (Some j)
  then have "j = h" using find_from_take [OF Some] assms by (simp add: FindCrlf_def)
  then show ?thesis using Some find_from_bounds [OF Some] by (simp add: FindCrlf_def min.commute)
qed

lemma ParseBulkString_prefix:
  assumes len: "length (a @ bulk s @ r) \<le> SIZE_MAX" and m: "m < length a + length (bulk s)" "length a \<le> m"
  shows "\<exists>v. ParseBulkString (take m (a @ bulk s @ r)) (length a) = Inr ((kIncomplete, 0), v)"
proof -
  define d where "d = dec (length s)"
  define input where "input = a @ bulk s @ r"
  have i1: "input = (a @ ''$'') @ d @ kCrlf @ s @ kCrlf @ r" by (simp add: input_def bulk_def d_def)
  have bl: "length (bulk s) = length d + length s + 5" by (simp add: bulk_def d_def)
  have li: "length input = length a + length d + length s + length r + 5" by (simp add: i1)
  show ?thesis
  proof (cases "length a = m")
    case True
    then show ?thesis by (auto simp: ParseBulkString_def)
  next
    case False
    then have la: "length a < m" using m(2) by simp
    have lt: "length (take m input) = m" using m(1) li bl by simp
    have rd: "rd (take m input) (length a) = Inr (CHR ''$'')"
      using la lt by (simp add: rd_def i1 nth_append)
    have fc: "FindCrlf input (length a + 1) = (kComplete, length a + 1 + length d)"
      using FindCrlf_dec [of "a @ ''$''" "length s" "s @ kCrlf @ r"] by (simp add: i1 d_def)
    show ?thesis
    proof (cases "FindCrlf (take m input) (length a + 1) = (kIncomplete, 0)")
      case True
      then show ?thesis using la lt rd by (simp add: ParseBulkString_def input_def)
    next
      case False
      then have fm: "FindCrlf (take m input) (length a + 1) = (kComplete, length a + 1 + length d)"
        and hm: "length a + 1 + length d + 2 \<le> m"
        using FindCrlf_take [OF fc, of m] by (auto split: if_splits)
      have s1: "substr (take m input) (length a + 1) (length a + 1 + length d - length a - 1) = Inr d"
        using hm lt by (simp add: substr_def i1 take_drop [symmetric] min_def) (simp add: drop_take)
      have ps: "ParseSize d = Some (length s)"
        unfolding d_def by (rule ParseSize_dec) (use len li in \<open>simp add: input_def [symmetric]\<close>)
      have b2: "\<not> length s > SIZE_MAX - (length a + 1 + length d + 2) - 2"
        using len li unfolding input_def [symmetric] by linarith
      have b3: "length a + 1 + length d + 2 + length s + 2 > length (take m input)"
        using m(1) lt bl by simp
      have b1: "\<not> length a \<ge> length (take m input)" using la lt by simp
      have ne: "(CHR ''$'' \<noteq> CHR ''$'') = False" by simp
      have "ParseBulkString (take m input) (length a) = Inr ((kIncomplete, 0), [])"
        by (simp only: ParseBulkString_def b1 rd fm s1 ps b2 b3 ne if_False if_True bindE_Inr prod.case
            ParseStatus.case option.case Let_def)
      then show ?thesis by (simp add: input_def)
    qed
  qed
qed

lemma ParseResp_loop_prefix:
  assumes "length (a @ concat (map bulk xs) @ r) \<le> SIZE_MAX"
    "m < length a + length (concat (map bulk xs))" "length a \<le> m"
  shows "\<exists>vs'. ParseResp_loop (take m (a @ concat (map bulk xs) @ r)) (length xs) (length a) vs
    = Inr ((kIncomplete, 0), vs')"
  using assms
proof (induction xs arbitrary: a vs)
  case (Cons x xs)
  let ?rest = "concat (map bulk xs) @ r"
  show ?case
  proof (cases "m < length a + length (bulk x)")
    case True
    obtain v where "ParseBulkString (take m (a @ bulk x @ ?rest)) (length a) = Inr ((kIncomplete, 0), v)"
      using ParseBulkString_prefix [of a x ?rest m] True Cons.prems by auto
    then show ?thesis by simp
  next
    case False
    then have tk: "take m (a @ bulk x @ ?rest) = a @ bulk x @ take (m - (length a + length (bulk x))) ?rest"
      by simp
    have "ParseBulkString (take m (a @ bulk x @ ?rest)) (length a) = Inr ((kComplete, length (bulk x)), x)"
      unfolding tk by (rule ParseBulkString_bulk) (use Cons.prems(1) in simp)
    then show ?thesis using Cons.IH [of "a @ bulk x" "vs @ [x]"] Cons.prems False by simp
  qed
qed simp

lemma Parse_prefix_incomplete:
  assumes "length (FromBulkStringArray (c # args)) \<le> SIZE_MAX" "length args < 1024 * 1024"
    and m: "m < length (FromBulkStringArray (c # args))"
  shows "Parse False (take m (FromBulkStringArray (c # args))) = Inr ((kIncomplete, 0), [], [])"
proof (cases "m = 0")
  case True
  then show ?thesis by (simp add: Parse_def)
next
  case False
  define xs where "xs = c # args"
  define input where "input = FromBulkStringArray xs"
  define d where "d = dec (length xs)"
  have i1: "input = ''*'' @ d @ kCrlf @ concat (map bulk xs)"
    by (simp add: input_def FromBulkStringArray_bulk d_def)
  have lm: "m < length input" using m by (simp add: input_def xs_def)
  have hd: "take m input \<noteq> []" "hd (take m input) = CHR ''*''"
    using False by (simp_all add: i1 take_Cons')
  have fc: "FindCrlf input 1 = (kComplete, 1 + length d)"
    using FindCrlf_dec [of "''*''" "length xs" "concat (map bulk xs)"] by (simp add: i1 d_def)
  have "\<exists>r. ParseResp (take m input) = Inr ((kIncomplete, 0), r)"
  proof (cases "FindCrlf (take m input) 1 = (kIncomplete, 0)")
    case True
    then show ?thesis by (simp add: ParseResp_def)
  next
    case False
    then have fm: "FindCrlf (take m input) 1 = (kComplete, 1 + length d)" and hm: "1 + length d + 2 \<le> m"
      using FindCrlf_take [OF fc, of m] by (auto split: if_splits)
    have tk: "take m input = ''*'' @ d @ kCrlf @ take (m - (1 + length d + 2)) (concat (map bulk xs))"
      using hm by (simp add: i1 take_Cons')
    have s1: "substr (take m input) 1 (1 + length d - 1) = Inr d"
      unfolding tk using substr_append [of "''*''" d] by simp
    have n: "length xs \<le> 1048576" "0 < length xs" using assms(2) by (simp_all add: xs_def)
    have ps: "ParseSize d = Some (length xs)" unfolding d_def by (rule ParseSize_dec) (use n in simp)
    have cnt: "\<not> (length xs = 0 \<or> length xs > 1024 * 1024)" using n by simp
    have "\<exists>vs'. ParseResp_loop (take m ((''*'' @ d @ kCrlf) @ concat (map bulk xs) @ [])) (length xs)
        (length (''*'' @ d @ kCrlf)) [] = Inr ((kIncomplete, 0), vs')"
      by (rule ParseResp_loop_prefix)
        (use assms(1) lm hm in \<open>simp_all add: i1 FromBulkStringArray_bulk xs_def d_def\<close>)
    then obtain vs' where lp: "ParseResp_loop (take m input) (length xs) (1 + length d + 2) []
        = Inr ((kIncomplete, 0), vs')" by (auto simp: i1)
    show ?thesis
      by (simp only: ParseResp_def fm s1 ps lp cnt if_False bindE_Inr prod.case ParseStatus.case
          option.case) simp
  qed
  then show ?thesis using hd by (auto simp: Parse_def input_def xs_def)
qed

section \<open>Properties\<close>

text \<open>
  C9: parsing the encoding of a command gives the command and its arguments back, whatever bytes
  they contain and whatever follows, and consumes exactly the encoding.
\<close>

theorem Parse_FromBulkStringArray:
  assumes "length (FromBulkStringArray (c # args) @ r) \<le> SIZE_MAX" and "length args < 1024 * 1024"
  shows "Parse False (FromBulkStringArray (c # args) @ r)
    = Inr ((kComplete, length (FromBulkStringArray (c # args))), c, args)"
  by (rule Parse_request [OF assms])

theorem Parse_FromBulkStringArray_witness:
  "Parse False (FromBulkStringArray [''GET'', ''k''] @ ''*'')
    = Inr ((kComplete, length (FromBulkStringArray [''GET'', ''k''])), ''GET'', [''k''])"
  by (rule Parse_FromBulkStringArray)
    (simp_all add: FromBulkStringArray_bulk bulk_def dec.simps)

text \<open>
  C10: on every proper prefix of an encoded command the parser asks for more bytes; it never
  rejects a request or executes a part of it because the socket delivered it in pieces.
\<close>

theorem Parse_prefix:
  assumes "length (FromBulkStringArray (c # args)) \<le> SIZE_MAX" and "length args < 1024 * 1024"
    and "m < length (FromBulkStringArray (c # args))"
  shows "Parse False (take m (FromBulkStringArray (c # args))) = Inr ((kIncomplete, 0), [], [])"
  by (rule Parse_prefix_incomplete [OF assms])

theorem Parse_prefix_witness:
  "Parse False (take 7 (FromBulkStringArray [''GET'', ''k''])) = Inr ((kIncomplete, 0), [], [])"
  by (rule Parse_prefix) (simp_all add: FromBulkStringArray_bulk bulk_def dec.simps)

text \<open>
  C11: on every input the parser returns without reading outside it or throwing, claims to have
  consumed no more than the input, and consumes at least a byte of a complete request.
\<close>

theorem Parse_safe:
  "\<exists>st k c args. Parse null_out input = Inr ((st, k), c, args) \<and> k \<le> length input \<and>
    (st = kComplete \<longrightarrow> 0 < k) \<and> (st \<noteq> kComplete \<longrightarrow> c = [] \<and> args = [])"
  by (rule Parse_safe_all)

theorem Parse_safe_witness:
  "\<exists>st k c args. Parse False ''*1'' = Inr ((st, k), c, args) \<and> k \<le> 2"
  using Parse_safe [of False "''*1''"] by auto

text \<open>
  C16: an inline request is the words of its line: blanks in front, between and behind them do
  not matter, and the line ends at \<open>LF\<close> or \<open>CRLF\<close>.
\<close>

theorem Parse_inline:
  assumes "CHR 0x0A \<notin> set line" and "line = [] \<or> hd line \<noteq> CHR ''*''"
  shows "Parse False (line @ CHR 0x0A # rest) = Inr ((kComplete, length line + 1),
    case words_of (if line \<noteq> [] \<and> last line = CHR 0x0D then butlast line else line) of
      [] \<Rightarrow> ([], []) | w # ws \<Rightarrow> (w, ws))"
  using ParseInline_words [OF assms(1), of rest] assms(2)
  by (cases line) (auto simp: Parse_def split: prod.splits)

theorem Parse_inline_witness:
  "Parse False ('' PING  a'' @ [CHR 0x0D] @ CHR 0x0A # ''x'') = Inr ((kComplete, 10), ''PING'', [''a''])"
  using Parse_inline [of "'' PING  a'' @ [CHR 0x0D]" "''x''"] by (simp add: words_of.simps)

end
