(* ===== verification/Db.thy ===== *)
theory Db
  imports Dict
begin

text \<open>
  The key space (\<open>src/server/db/db.cpp\<close>, \<open>db.h\<close>) and the objects in it
  (\<open>src/server/db/redis_obj.cpp\<close>, \<open>redis_obj.h\<close>).  The dicts are those of \<open>Dict\<close>, so that each
  lookup takes its step of a running rehash; \<open>hf\<close> is the hash of a key.

  The clock is outside the program: an operation that reads it gets the time as an argument, one
  argument for each place where the code reads it (\<open>now\<close> in \<open>IsKeyExpired\<close>, \<open>later\<close> for a second
  reading in the same operation).
\<close>

section \<open>Objects\<close>

text \<open>The variant of the object, over the types of the containers.\<close>

datatype ('s, 'l, 'z, 'h) redis_object =
    String_value string
  | Set_value 's
  | List_value 'l
  | ZSet_value 'z
  | Hash_value 'h

datatype ObjectType = kString | kSet | kList | kZSet | kHash

definition RedisObject_Type :: "('s, 'l, 'z, 'h) redis_object \<Rightarrow> ObjectType" where
  "RedisObject_Type ob = (case ob of
     String_value _ \<Rightarrow> kString | Set_value _ \<Rightarrow> kSet | List_value _ \<Rightarrow> kList
   | ZSet_value _ \<Rightarrow> kZSet | Hash_value _ \<Rightarrow> kHash)"

definition RedisObject_String :: "('s, 'l, 'z, 'h) redis_object \<Rightarrow> string res" where
  "RedisObject_String ob = (case ob of String_value v \<Rightarrow> Inr v | _ \<Rightarrow> Inl Invalid_argument)"

definition RedisObject_Set :: "('s, 'l, 'z, 'h) redis_object \<Rightarrow> 's res" where
  "RedisObject_Set ob = (case ob of Set_value v \<Rightarrow> Inr v | _ \<Rightarrow> Inl Invalid_argument)"

definition RedisObject_List :: "('s, 'l, 'z, 'h) redis_object \<Rightarrow> 'l res" where
  "RedisObject_List ob = (case ob of List_value v \<Rightarrow> Inr v | _ \<Rightarrow> Inl Invalid_argument)"

definition RedisObject_ZSet :: "('s, 'l, 'z, 'h) redis_object \<Rightarrow> 'z res" where
  "RedisObject_ZSet ob = (case ob of ZSet_value v \<Rightarrow> Inr v | _ \<Rightarrow> Inl Invalid_argument)"

definition RedisObject_Hash :: "('s, 'l, 'z, 'h) redis_object \<Rightarrow> 'h res" where
  "RedisObject_Hash ob = (case ob of Hash_value v \<Rightarrow> Inr v | _ \<Rightarrow> Inl Invalid_argument)"

section \<open>The database\<close>

datatype DbStatus = kOk | kError

datatype TtlResolution = kSeconds | kMilliseconds

text \<open>
  \<open>reclaiming\<close> holds the objects handed to the thread that frees them and \<open>stopping\<close> is its flag;
  the objects are values of any type.
\<close>

record 'o redis_db =
  db_dict :: "(string, 'o) dict"
  db_expires :: "(string, int) dict"
  reclaiming :: "'o list"
  stopping :: bool
  expire_cursor :: nat
  loading :: bool

definition RedisDb_Create :: "'o redis_db option" where
  "RedisDb_Create = (case (Dict_Create 2, Dict_Create 2) of
     (Some d, Some e) \<Rightarrow> Some \<lparr>db_dict = d, db_expires = e, reclaiming = [], stopping = False,
        expire_cursor = 0, loading = False\<rparr>
   | _ \<Rightarrow> None)"

definition IsKeyExpired :: "(string \<Rightarrow> nat) \<Rightarrow> int \<Rightarrow> 'o redis_db \<Rightarrow> string \<Rightarrow> bool \<times> 'o redis_db" where
  "IsKeyExpired hf now db key =
     (if loading db \<or> Dict_Size (db_expires db) = 0 then (False, db)
      else case Dict_Get hf (db_expires db) key of
          (None, e) \<Rightarrow> (False, db\<lparr>db_expires := e\<rparr>)
        | (Some t, e) \<Rightarrow> (t \<le> now, db\<lparr>db_expires := e\<rparr>))"

definition DeleteKey :: "(string \<Rightarrow> nat) \<Rightarrow> 'o redis_db \<Rightarrow> string \<Rightarrow> DbStatus \<times> 'o redis_db" where
  "DeleteKey hf db key =
     (case Dict_Delete hf (db_dict db) key of
        (False, d) \<Rightarrow> (kError, db\<lparr>db_dict := d\<rparr>)
      | (True, d) \<Rightarrow>
          let db = db\<lparr>db_dict := d\<rparr> in
          if Dict_Size (db_expires db) > 0
          then (kOk, db\<lparr>db_expires := snd (Dict_Delete hf (db_expires db) key)\<rparr>)
          else (kOk, db))"

definition LookupKey :: "(string \<Rightarrow> nat) \<Rightarrow> int \<Rightarrow> 'o redis_db \<Rightarrow> string \<Rightarrow> 'o option \<times> 'o redis_db" where
  "LookupKey hf now db key =
     (case Dict_Get hf (db_dict db) key of
        (None, d) \<Rightarrow> (None, db\<lparr>db_dict := d\<rparr>)
      | (Some ob, d) \<Rightarrow>
          case IsKeyExpired hf now (db\<lparr>db_dict := d\<rparr>) key of
            (True, db) \<Rightarrow> (None, snd (DeleteKey hf db key))
          | (False, db) \<Rightarrow> (Some ob, db))"

text \<open>A null object is \<open>None\<close>; \<open>keep_ttl\<close> is the flag \<open>kKeepTtl\<close>.\<close>

definition SetKey :: "(string \<Rightarrow> nat) \<Rightarrow> 'o redis_db \<Rightarrow> string \<Rightarrow> 'o option \<Rightarrow> int \<Rightarrow> bool
    \<Rightarrow> DbStatus \<times> 'o redis_db" where
  "SetKey hf db key object expire keep_ttl =
     (case object of
        None \<Rightarrow> (kError, db)
      | Some ob \<Rightarrow>
          let db = db\<lparr>db_dict := Dict_Set hf (db_dict db) key ob\<rparr>;
              db = (if \<not> keep_ttl \<and> expire = 0
                    then db\<lparr>db_expires := snd (Dict_Delete hf (db_expires db) key)\<rparr> else db);
              db = (if expire > 0
                    then db\<lparr>db_expires := Dict_Set hf (db_expires db) key expire\<rparr> else db)
          in (kOk, db))"

definition Reclaim :: "'o redis_db \<Rightarrow> 'o \<Rightarrow> bool \<times> 'o redis_db" where
  "Reclaim db ob = (if stopping db then (False, db) else (True, db\<lparr>reclaiming := reclaiming db @ [ob]\<rparr>))"

definition UnlinkKey :: "(string \<Rightarrow> nat) \<Rightarrow> int \<Rightarrow> 'o redis_db \<Rightarrow> string \<Rightarrow> DbStatus \<times> 'o redis_db" where
  "UnlinkKey hf now db key =
     (case IsKeyExpired hf now db key of
        (True, db) \<Rightarrow> (kError, snd (DeleteKey hf db key))
      | (False, db) \<Rightarrow>
          case Dict_Extract hf (db_dict db) key of
            (None, d) \<Rightarrow> (kError, db\<lparr>db_dict := d\<rparr>)
          | (Some ob, d) \<Rightarrow>
              let db = db\<lparr>db_dict := d, db_expires := snd (Dict_Delete hf (db_expires db) key)\<rparr>
              in case Reclaim db ob of (b, db) \<Rightarrow> (if b then kOk else kError, db))"

definition ExpireKeyAt :: "(string \<Rightarrow> nat) \<Rightarrow> int \<Rightarrow> int \<Rightarrow> 'o redis_db \<Rightarrow> string \<Rightarrow> int
    \<Rightarrow> DbStatus \<times> 'o redis_db" where
  "ExpireKeyAt hf now later db key expire =
     (case LookupKey hf now db key of
        (None, db) \<Rightarrow> (kError, db)
      | (Some _, db) \<Rightarrow>
          if \<not> loading db \<and> expire \<le> later then DeleteKey hf db key
          else (kOk, db\<lparr>db_expires := Dict_Set hf (db_expires db) key expire\<rparr>))"

definition Expiration :: "(string \<Rightarrow> nat) \<Rightarrow> 'o redis_db \<Rightarrow> string \<Rightarrow> int option \<times> 'o redis_db" where
  "Expiration hf db key = (case Dict_Get hf (db_expires db) key of
     (t, e) \<Rightarrow> (t, db\<lparr>db_expires := e\<rparr>))"

definition PersistKey :: "(string \<Rightarrow> nat) \<Rightarrow> int \<Rightarrow> 'o redis_db \<Rightarrow> string \<Rightarrow> DbStatus \<times> 'o redis_db" where
  "PersistKey hf now db key =
     (case LookupKey hf now db key of
        (None, db) \<Rightarrow> (kError, db)
      | (Some _, db) \<Rightarrow>
          case Expiration hf db key of
            (None, db) \<Rightarrow> (kError, db)
          | (Some _, db) \<Rightarrow>
              case Dict_Delete hf (db_expires db) key of
                (b, e) \<Rightarrow> (if b then kOk else kError, db\<lparr>db_expires := e\<rparr>))"

definition RenameKey :: "(string \<Rightarrow> nat) \<Rightarrow> int \<Rightarrow> 'o redis_db \<Rightarrow> string \<Rightarrow> string
    \<Rightarrow> DbStatus \<times> 'o redis_db" where
  "RenameKey hf now db old_key new_key =
     (case LookupKey hf now db old_key of
        (None, db) \<Rightarrow> (kError, db)
      | (Some _, db) \<Rightarrow>
          if old_key = new_key then (kOk, db)
          else case Dict_Get hf (db_dict db) old_key of
            (None, d) \<Rightarrow> (kError, db\<lparr>db_dict := d\<rparr>)
          | (Some moved_object, d) \<Rightarrow>
              case Expiration hf (db\<lparr>db_dict := d\<rparr>) old_key of
                (expire_value, db) \<Rightarrow>
                  let d = snd (Dict_Delete hf (db_dict db) old_key);
                      d = Dict_Set hf d new_key moved_object;
                      e = snd (Dict_Delete hf (db_expires db) old_key);
                      e = (case expire_value of
                             Some t \<Rightarrow> Dict_Set hf e new_key t
                           | None \<Rightarrow> snd (Dict_Delete hf e new_key))
                  in (kOk, db\<lparr>db_dict := d, db_expires := e\<rparr>))"

definition TimeToLive :: "(string \<Rightarrow> nat) \<Rightarrow> int \<Rightarrow> int \<Rightarrow> 'o redis_db \<Rightarrow> string \<Rightarrow> TtlResolution
    \<Rightarrow> int \<times> 'o redis_db" where
  "TimeToLive hf now later db key resolution =
     (case LookupKey hf now db key of
        (None, db) \<Rightarrow> (-2, db)
      | (Some _, db) \<Rightarrow>
          case Expiration hf db key of
            (None, db) \<Rightarrow> (-1, db)
          | (Some expire, db) \<Rightarrow>
              let ttl = max (expire - later) 0 in
              (if resolution = kMilliseconds then ttl
               else ttl div 1000 + (if ttl mod 1000 \<ge> 500 then 1 else 0), db))"

definition KeyCount :: "'o redis_db \<Rightarrow> nat" where
  "KeyCount db = Dict_Size (db_dict db)"

definition Flush :: "'o redis_db \<Rightarrow> 'o redis_db" where
  "Flush db = db\<lparr>db_dict := Dict_Clear (db_dict db), db_expires := Dict_Clear (db_expires db),
     expire_cursor := 0\<rparr>"

section \<open>Active expiry and scanning\<close>

text \<open>
  \<open>ExpireSome\<close>: the visitor counts the sampled entries and collects the expired keys.  The loop
  ends because each scan of the dict, which the loop does not change, advances the cursor.
\<close>

fun ExpireSome_visit :: "nat \<Rightarrow> int \<Rightarrow> (string, int) dict_entry list \<Rightarrow> nat \<times> string list \<Rightarrow> nat \<times> string list" where
  "ExpireSome_visit max_samples now [] acc = acc"
| "ExpireSome_visit max_samples now (e # es) (sampled, expired_keys) =
     ExpireSome_visit max_samples now es
       (if sampled \<ge> max_samples then (sampled, expired_keys)
        else (sampled + 1, if de_val e \<le> now then expired_keys @ [de_key e] else expired_keys))"

function ExpireSome_loop :: "nat \<Rightarrow> int \<Rightarrow> (string, int) dict \<Rightarrow> nat \<Rightarrow> nat \<times> string list
    \<Rightarrow> nat \<times> nat \<times> string list" where
  "ExpireSome_loop max_samples now e cursor acc =
     (if fst acc < max_samples then
        let (visited, next_cursor) = Dict_Scan e cursor;
            acc = ExpireSome_visit max_samples now visited acc
        in case next_cursor of
             None \<Rightarrow> (0, acc)
           | Some cursor \<Rightarrow> ExpireSome_loop max_samples now e cursor acc
      else (cursor, acc))"
  by pat_completeness auto
termination
  by (relation "measure (\<lambda>(m, now, e, cursor, acc).
        max (length (buckets (ht0 e))) (length (buckets (ht1 e))) - cursor)")
    (auto simp: Dict_Scan_def Let_def split: if_splits)

declare ExpireSome_loop.simps [simp del]

fun DeleteKeys :: "(string \<Rightarrow> nat) \<Rightarrow> string list \<Rightarrow> nat \<Rightarrow> 'o redis_db \<Rightarrow> nat \<times> 'o redis_db" where
  "DeleteKeys hf [] expired db = (expired, db)"
| "DeleteKeys hf (key # keys) expired db =
     (case DeleteKey hf db key of
        (st, db) \<Rightarrow> DeleteKeys hf keys (if st = kOk then expired + 1 else expired) db)"

text \<open>The result is the numbers of sampled and of expired keys.\<close>

definition ExpireSome :: "(string \<Rightarrow> nat) \<Rightarrow> nat \<Rightarrow> int \<Rightarrow> 'o redis_db \<Rightarrow> (nat \<times> nat) \<times> 'o redis_db" where
  "ExpireSome hf max_samples now db =
     (if max_samples = 0 \<or> Dict_Size (db_expires db) = 0 then ((0, 0), db)
      else case ExpireSome_loop max_samples now (db_expires db) (expire_cursor db) (0, []) of
        (cursor, sampled, expired_keys) \<Rightarrow>
          case DeleteKeys hf expired_keys 0 (db\<lparr>expire_cursor := cursor\<rparr>) of
            (expired, db) \<Rightarrow> ((sampled, expired), db))"

text \<open>
  \<open>ScanKeys\<close> and \<open>ForEachObject\<close>: the visitor of the dict tests the expiry of each entry it is
  given, in order.  \<open>ScanKeys\<close> returns the keys it hands out.
\<close>

fun visible_keys :: "(string \<Rightarrow> nat) \<Rightarrow> int \<Rightarrow> (string, 'o) dict_entry list \<Rightarrow> 'o redis_db
    \<Rightarrow> (string \<times> 'o) list \<times> 'o redis_db" where
  "visible_keys hf now [] db = ([], db)"
| "visible_keys hf now (e # es) db =
     (case IsKeyExpired hf now db (de_key e) of (b, db) \<Rightarrow>
      case visible_keys hf now es db of (ks, db) \<Rightarrow>
        (if b then ks else (de_key e, de_val e) # ks, db))"

fun ScanKeys_loop :: "(string \<Rightarrow> nat) \<Rightarrow> int \<Rightarrow> nat \<Rightarrow> nat option \<Rightarrow> 'o redis_db
    \<Rightarrow> nat option \<times> string list \<times> 'o redis_db" where
  "ScanKeys_loop hf now (Suc n) (Some cursor) db =
     (case Dict_Scan (db_dict db) cursor of (es, next_cursor) \<Rightarrow>
      case visible_keys hf now es db of (ks, db) \<Rightarrow>
      case ScanKeys_loop hf now n next_cursor db of (c, ks', db) \<Rightarrow> (c, map fst ks @ ks', db))"
| "ScanKeys_loop hf now n next_cursor db = (next_cursor, [], db)"

definition ScanKeys :: "(string \<Rightarrow> nat) \<Rightarrow> int \<Rightarrow> 'o redis_db \<Rightarrow> nat \<Rightarrow> nat
    \<Rightarrow> nat \<times> string list \<times> 'o redis_db" where
  "ScanKeys hf now db cursor bucket_count =
     (if bucket_count = 0 \<or> Dict_Size (db_dict db) = 0 then (0, [], db)
      else case ScanKeys_loop hf now bucket_count (Some cursor) db of
        (c, ks, db) \<Rightarrow> (case c of None \<Rightarrow> 0 | Some c \<Rightarrow> c, ks, db))"

lemma IsKeyExpired_dict: "db_dict (snd (IsKeyExpired hf now db key)) = db_dict db"
  by (auto simp: IsKeyExpired_def split: prod.splits option.splits)

fun ForEachObject_visit :: "(string \<Rightarrow> nat) \<Rightarrow> int \<Rightarrow> (string \<Rightarrow> 'o \<Rightarrow> 's \<Rightarrow> bool \<times> 's)
    \<Rightarrow> (string, 'o) dict_entry list \<Rightarrow> bool \<Rightarrow> 's \<Rightarrow> 'o redis_db \<Rightarrow> bool \<times> 's \<times> 'o redis_db" where
  "ForEachObject_visit hf now visitor [] keep_visiting s db = (keep_visiting, s, db)"
| "ForEachObject_visit hf now visitor (e # es) keep_visiting s db =
     (if keep_visiting then
        case IsKeyExpired hf now db (de_key e) of
          (True, db) \<Rightarrow> ForEachObject_visit hf now visitor es keep_visiting s db
        | (False, db) \<Rightarrow>
            case visitor (de_key e) (de_val e) s of
              (keep_visiting, s) \<Rightarrow> ForEachObject_visit hf now visitor es keep_visiting s db
      else ForEachObject_visit hf now visitor es keep_visiting s db)"

lemma ForEachObject_visit_dict:
  "ForEachObject_visit hf now visitor es keep s db = (keep', s', db') \<Longrightarrow> db_dict db' = db_dict db"
proof (induction es arbitrary: keep s db)
  case (Cons e es)
  obtain b db1 where i: "IsKeyExpired hf now db (de_key e) = (b, db1)" by fastforce
  obtain k1 s1 where v: "visitor (de_key e) (de_val e) s = (k1, s1)" by fastforce
  have d: "db_dict db1 = db_dict db" using IsKeyExpired_dict [of hf now db "de_key e"] i by simp
  show ?case
  proof (cases keep)
    case True
    then show ?thesis using Cons.IH [of _ _ db1] Cons.prems i v d by (cases b) simp_all
  next
    case False
    then show ?thesis using Cons.IH [of keep s db] Cons.prems by simp
  qed
qed simp

function ForEachObject_loop :: "(string \<Rightarrow> nat) \<Rightarrow> int \<Rightarrow> (string \<Rightarrow> 'o \<Rightarrow> 's \<Rightarrow> bool \<times> 's)
    \<Rightarrow> nat \<Rightarrow> 's \<Rightarrow> 'o redis_db \<Rightarrow> bool \<times> 's \<times> 'o redis_db" where
  "ForEachObject_loop hf now visitor cursor s db =
     (case Dict_Scan (db_dict db) cursor of (es, next_cursor) \<Rightarrow>
      case ForEachObject_visit hf now visitor es True s db of (keep_visiting, s, db) \<Rightarrow>
        if \<not> keep_visiting then (False, s, db)
        else case next_cursor of
            None \<Rightarrow> (True, s, db)
          | Some cursor \<Rightarrow> ForEachObject_loop hf now visitor cursor s db)"
  by pat_completeness auto
termination
  by (relation "measure (\<lambda>(hf, now, visitor, cursor, s, db).
        max (length (buckets (ht0 (db_dict db)))) (length (buckets (ht1 (db_dict db)))) - cursor)")
    (auto simp: Dict_Scan_def Let_def split: if_splits dest!: sym [THEN ForEachObject_visit_dict])

declare ForEachObject_loop.simps [simp del]

definition ForEachObject :: "(string \<Rightarrow> nat) \<Rightarrow> int \<Rightarrow> (string \<Rightarrow> 'o \<Rightarrow> 's \<Rightarrow> bool \<times> 's) \<Rightarrow> 's \<Rightarrow> 'o redis_db
    \<Rightarrow> bool \<times> 's \<times> 'o redis_db" where
  "ForEachObject hf now visitor s db =
     (if Dict_Size (db_dict db) = 0 then (True, s, db)
      else ForEachObject_loop hf now visitor 0 s db)"

end
