(* ===== verification/Db_Refinement.thy ===== *)
theory Db_Refinement
  imports Db Dict_Refinement
begin

text \<open>
  The key space as a finite map from keys to objects with an optional expiry time.  Every
  operation is proved over the contract \<open>kv_map\<close> of the two dicts; the invariant is that only
  keys that exist have an expiry time.
\<close>

section \<open>The maps of a database\<close>

abbreviation objects :: "'o redis_db \<Rightarrow> string \<rightharpoonup> 'o" where
  "objects db \<equiv> dict_map (db_dict db)"

abbreviation expiries :: "'o redis_db \<Rightarrow> string \<rightharpoonup> int" where
  "expiries db \<equiv> dict_map (db_expires db)"

definition db_ok :: "(string \<Rightarrow> nat) \<Rightarrow> 'o redis_db \<Rightarrow> bool" where
  "db_ok hf db \<longleftrightarrow> dict_ok hf (db_dict db) \<and> dict_ok hf (db_expires db) \<and>
     dom (expiries db) \<subseteq> dom (objects db)"

definition expired :: "int \<Rightarrow> 'o redis_db \<Rightarrow> string \<Rightarrow> bool" where
  "expired now db key \<longleftrightarrow> \<not> loading db \<and> (\<exists>t. expiries db key = Some t \<and> t \<le> now)"

text \<open>What a client sees at a time: the objects that have not expired.\<close>

definition visible :: "int \<Rightarrow> 'o redis_db \<Rightarrow> string \<rightharpoonup> 'o" where
  "visible now db key = (if expired now db key then None else objects db key)"

text \<open>\<open>db_to hf db db' m x\<close>: \<open>db'\<close> is well-formed, has the maps \<open>m\<close> and \<open>x\<close> and the flags of \<open>db\<close>.\<close>

definition db_to :: "(string \<Rightarrow> nat) \<Rightarrow> 'o redis_db \<Rightarrow> 'o redis_db \<Rightarrow> (string \<rightharpoonup> 'o) \<Rightarrow> (string \<rightharpoonup> int) \<Rightarrow> bool" where
  "db_to hf db db' m x \<longleftrightarrow> db_ok hf db' \<and> objects db' = m \<and> expiries db' = x \<and>
     loading db' = loading db \<and> stopping db' = stopping db"

lemma dom_sub:
  "dom x \<subseteq> dom m \<Longrightarrow> dom (x(k := None)) \<subseteq> dom (m(k := None))"
  "dom x \<subseteq> dom m \<Longrightarrow> dom (x(k := None)) \<subseteq> dom m"
  "dom x \<subseteq> dom m \<Longrightarrow> dom (x(k := None)) \<subseteq> dom (m(k \<mapsto> v))"
  "dom x \<subseteq> dom m \<Longrightarrow> dom x \<subseteq> dom (m(k \<mapsto> v))"
  "dom x \<subseteq> dom m \<Longrightarrow> dom (x(k \<mapsto> t)) \<subseteq> dom (m(k \<mapsto> v))"
  "dom x \<subseteq> dom m \<Longrightarrow> m k \<noteq> None \<Longrightarrow> dom (x(k \<mapsto> t)) \<subseteq> dom m"
  by auto

lemma dom_sub_None: "dom x \<subseteq> dom m \<Longrightarrow> m k = None \<Longrightarrow> x k = None"
  by auto

lemma dom_sub_ex: "dom x \<subseteq> dom m \<Longrightarrow> x k = Some t \<Longrightarrow> \<exists>v. m k = Some v"
  by blast

lemma db_to_trans: "db_to hf db db' m x \<Longrightarrow> db_to hf db' db'' m' x' \<Longrightarrow> db_to hf db db'' m' x'"
  by (simp add: db_to_def)

lemma db_to_self: "db_ok hf db \<Longrightarrow> db_to hf db db (objects db) (expiries db)"
  by (simp add: db_to_def)

lemma db_okD:
  assumes "db_ok hf db"
  shows "dict_ok hf (db_dict db)" "dict_ok hf (db_expires db)" "dom (expiries db) \<subseteq> dom (objects db)"
  using assms by (simp_all add: db_ok_def)

lemma del_map_ok:
  assumes "dict_ok hf d"
  shows "dict_ok hf (snd (Dict_Delete hf d k))" "dict_map (snd (Dict_Delete hf d k)) = (dict_map d)(k := None)"
    "fst (Dict_Delete hf d k) = (dict_map d k \<noteq> None)"
  using dict.del_snd [OF assms, of k] by simp_all

section \<open>Operations\<close>

lemma IsKeyExpired_ok:
  assumes ok: "db_ok hf db" and r: "IsKeyExpired hf now db k = (b, db')"
  shows "b = expired now db k \<and> db_to hf db db' (objects db) (expiries db)"
proof (cases "loading db \<or> Dict_Size (db_expires db) = 0")
  case True
  have "Dict_Size (db_expires db) = 0 \<Longrightarrow> expiries db k = None"
    using dict.card_of [OF db_okD(2) [OF ok]] by (auto simp: domIff)
  then show ?thesis using True r db_to_self [OF ok] by (auto simp: IsKeyExpired_def expired_def)
next
  case False
  obtain v e where g: "Dict_Get hf (db_expires db) k = (v, e)" by fastforce
  note ge = dict.get [OF db_okD(2) [OF ok] g]
  have "b = (case v of None \<Rightarrow> False | Some t \<Rightarrow> t \<le> now)" "db' = db\<lparr>db_expires := e\<rparr>"
    using r False g by (auto simp: IsKeyExpired_def split: option.splits)
  then show ?thesis using ge db_okD [OF ok] False
    by (auto simp: expired_def db_to_def db_ok_def split: option.splits)
qed

lemma DeleteKey_ok:
  assumes ok: "db_ok hf db" and r: "DeleteKey hf db k = (st, db')"
  shows "st = (if objects db k = None then kError else kOk) \<and>
    db_to hf db db' ((objects db)(k := None)) ((expiries db)(k := None))"
proof -
  note o = db_okD [OF ok]
  obtain b d where d: "Dict_Delete hf (db_dict db) k = (b, d)" by fastforce
  have dd: "dict_ok hf d" "dict_map d = (objects db)(k := None)" "b = (objects db k \<noteq> None)"
    using del_map_ok [OF o(1), of k] d by simp_all
  have none: "expiries db k = None \<Longrightarrow> (expiries db)(k := None) = expiries db" by auto
  show ?thesis
  proof (cases b)
    case False
    then have "expiries db k = None" using dom_sub_None [OF o(3)] dd(3) by simp
    then show ?thesis using r d False dd o none dom_sub(1) [OF o(3), of k]
      by (simp add: DeleteKey_def db_to_def db_ok_def) (auto dest: dom_sub_ex)
  next
    case True
    show ?thesis
    proof (cases "Dict_Size (db_expires db) > 0")
      case sz: True
      then have "st = kOk" "db' = db\<lparr>db_dict := d, db_expires := snd (Dict_Delete hf (db_expires db) k)\<rparr>"
        using r d True by (simp_all add: DeleteKey_def Let_def)
      moreover have "objects db k \<noteq> None" using dd(3) True by simp
      ultimately show ?thesis
        using dd(1,2) del_map_ok(1,2) [OF o(2), of k] dom_sub(1) [OF o(3), of k]
        by (simp add: db_to_def db_ok_def)
    next
      case sz: False
      then have "expiries db k = None" using dict.card_of [OF o(2)] by (auto simp: domIff)
      moreover have "st = kOk" "db' = db\<lparr>db_dict := d\<rparr>"
        using r d True sz by (simp_all add: DeleteKey_def Let_def)
      moreover have "objects db k \<noteq> None" using dd(3) True by simp
      ultimately show ?thesis
        using dd(1,2) o(2) none dom_sub(1) [OF o(3), of k] by (simp add: db_to_def db_ok_def)
    qed
  qed
qed

definition drop_expired :: "int \<Rightarrow> 'o redis_db \<Rightarrow> string \<Rightarrow> (string \<rightharpoonup> 'v) \<Rightarrow> string \<rightharpoonup> 'v" where
  "drop_expired now db k m = (if expired now db k then m(k := None) else m)"

lemma drop_expired_simps [simp]:
  "expired now db k \<Longrightarrow> drop_expired now db k m = m(k := None)"
  "\<not> expired now db k \<Longrightarrow> drop_expired now db k m = m"
  by (simp_all add: drop_expired_def)

lemma LookupKey_ok:
  assumes ok: "db_ok hf db" and r: "LookupKey hf now db k = (ob, db')"
  shows "ob = visible now db k \<and>
    db_to hf db db' (drop_expired now db k (objects db)) (drop_expired now db k (expiries db))"
proof -
  note o = db_okD [OF ok]
  obtain v d where g: "Dict_Get hf (db_dict db) k = (v, d)" by fastforce
  note ge = dict.get [OF o(1) g]
  let ?db = "db\<lparr>db_dict := d\<rparr>"
  have ok1: "db_ok hf ?db" using ge o by (auto simp: db_ok_def)
  have ex: "expired now ?db k = expired now db k" by (simp add: expired_def)
  show ?thesis
  proof (cases v)
    case None
    then have "\<not> expired now db k" using dom_sub_None [OF o(3), of k] ge by (simp add: expired_def)
    then show ?thesis using r g None ge o by (auto simp: LookupKey_def visible_def db_to_def db_ok_def dest: dom_sub_ex)
  next
    case (Some x)
    obtain b db1 where i: "IsKeyExpired hf now ?db k = (b, db1)" by fastforce
    have b: "b = expired now db k" and t1: "db_to hf ?db db1 (objects db) (expiries db)"
      using IsKeyExpired_ok [OF ok1 i] ex ge by simp_all
    have t2: "db_to hf db db1 (objects db) (expiries db)" using t1 by (simp add: db_to_def)
    show ?thesis
    proof (cases b)
      case False
      then show ?thesis using r g Some i t2 b ge by (simp add: LookupKey_def visible_def)
    next
      case True
      obtain st db2 where dl: "DeleteKey hf db1 k = (st, db2)" by fastforce
      have ok2: "db_ok hf db1" using t2 by (simp add: db_to_def)
      have "db_to hf db1 db2 ((objects db)(k := None)) ((expiries db)(k := None))"
        using DeleteKey_ok [OF ok2 dl] t2 by (simp add: db_to_def)
      then have "db_to hf db db2 ((objects db)(k := None)) ((expiries db)(k := None))"
        by (rule db_to_trans [OF t2])
      moreover have "ob = None" "db' = db2" using r g Some i True dl by (simp_all add: LookupKey_def)
      ultimately show ?thesis using b True by (simp add: visible_def)
    qed
  qed
qed

lemma SetKey_ok:
  assumes ok: "db_ok hf db" and r: "SetKey hf db k (Some ob) t keep = (st, db')"
  shows "st = kOk \<and> db_to hf db db' ((objects db)(k \<mapsto> ob))
    (if t > 0 then (expiries db)(k \<mapsto> t) else if t = 0 \<and> \<not> keep then (expiries db)(k := None) else expiries db)"
proof -
  note o = db_okD [OF ok]
  let ?d = "Dict_Set hf (db_dict db) k ob"
  let ?e = "if \<not> keep \<and> t = 0 then snd (Dict_Delete hf (db_expires db) k) else db_expires db"
  let ?f = "if t > 0 then Dict_Set hf ?e k t else ?e"
  have d: "dict_ok hf ?d" "dict_map ?d = (objects db)(k \<mapsto> ob)" using dict.put [OF o(1)] by blast+
  have e: "dict_ok hf ?e" "dict_map ?e = (if \<not> keep \<and> t = 0 then (expiries db)(k := None) else expiries db)"
    using o(2) del_map_ok [OF o(2), of k] by simp_all
  have f: "dict_ok hf ?f" "dict_map ?f = (if t > 0 then (expiries db)(k \<mapsto> t)
      else if t = 0 \<and> \<not> keep then (expiries db)(k := None) else expiries db)"
    using e dict.put [OF e(1), of k t] by auto
  have db': "db_dict db' = ?d" "db_expires db' = ?f" "loading db' = loading db" "stopping db' = stopping db"
    and st: "st = kOk" using r by (auto simp: SetKey_def Let_def split: if_splits)
  have "dom (dict_map ?f) \<subseteq> dom (dict_map ?d)"
    unfolding d(2) f(2) using dom_sub [OF o(3)] by simp
  then show ?thesis using st d f db' unfolding db_to_def db_ok_def by simp
qed

lemma ExpireKeyAt_ok:
  assumes ok: "db_ok hf db" and r: "ExpireKeyAt hf now later db k t = (st, db')"
  shows "if visible now db k = None
    then st = kError \<and> db_to hf db db' (drop_expired now db k (objects db)) (drop_expired now db k (expiries db))
    else st = kOk \<and> (if \<not> loading db \<and> t \<le> later
      then db_to hf db db' ((objects db)(k := None)) ((expiries db)(k := None))
      else db_to hf db db' (objects db) ((expiries db)(k \<mapsto> t)))"
proof -
  obtain ob db1 where l: "LookupKey hf now db k = (ob, db1)" by fastforce
  note lk = LookupKey_ok [OF ok l]
  show ?thesis
  proof (cases ob)
    case None
    then show ?thesis using lk r l by (simp add: ExpireKeyAt_def)
  next
    case (Some x)
    then have nx: "\<not> expired now db k" and ob: "objects db k = Some x"
      using lk by (auto simp: visible_def split: if_splits)
    have t1: "db_to hf db db1 (objects db) (expiries db)" using lk nx by simp
    then have ok1: "db_ok hf db1" and ld: "loading db1 = loading db" and
      m: "objects db1 = objects db" "expiries db1 = expiries db" by (simp_all add: db_to_def)
    show ?thesis
    proof (cases "\<not> loading db \<and> t \<le> later")
      case True
      then have "DeleteKey hf db1 k = (st, db')" using r l Some ld by (simp add: ExpireKeyAt_def)
      then show ?thesis using DeleteKey_ok [OF ok1] db_to_trans [OF t1] True lk Some ob m
        by (metis option.distinct(1))
    next
      case False
      then have "st = kOk" "db' = db1\<lparr>db_expires := Dict_Set hf (db_expires db1) k t\<rparr>"
        using r l Some ld by (auto simp: ExpireKeyAt_def)
      moreover have "db_to hf db1 (db1\<lparr>db_expires := Dict_Set hf (db_expires db1) k t\<rparr>)
          (objects db) ((expiries db)(k \<mapsto> t))"
        using dict.put [OF db_okD(2) [OF ok1], of k t] db_okD [OF ok1] m ob
          dom_sub(6) [OF db_okD(3) [OF ok1], of k t]
        by (simp add: db_to_def db_ok_def)
      moreover have "visible now db k \<noteq> None" using lk Some by (metis option.distinct(1))
      ultimately show ?thesis using db_to_trans [OF t1] False by auto
    qed
  qed
qed

lemma Expiration_ok:
  assumes ok: "db_ok hf db" and r: "Expiration hf db k = (t, db')"
  shows "t = expiries db k \<and> db_to hf db db' (objects db) (expiries db)"
proof -
  obtain v e where g: "Dict_Get hf (db_expires db) k = (v, e)" by fastforce
  show ?thesis using dict.get [OF db_okD(2) [OF ok] g] r g db_okD [OF ok]
    by (auto simp: Expiration_def db_to_def db_ok_def dest: dom_sub_ex)
qed

lemma visible_SomeD:
  "visible now db k = Some ob \<Longrightarrow> \<not> expired now db k \<and> objects db k = Some ob"
  by (auto simp: visible_def split: if_splits)

text \<open>What \<open>LookupKey\<close> leaves when it finds the key, the case the other operations go on with.\<close>

lemma LookupKey_found:
  assumes ok: "db_ok hf db" and r: "LookupKey hf now db k = (Some ob, db')"
  shows "visible now db k = Some ob" "objects db k = Some ob" "\<not> expired now db k"
    "db_to hf db db' (objects db) (expiries db)" "db_ok hf db'" "objects db' = objects db"
    "expiries db' = expiries db" "loading db' = loading db" "stopping db' = stopping db"
proof -
  have v: "visible now db k = Some ob" using LookupKey_ok [OF ok r] by simp
  note vd = visible_SomeD [OF v]
  show "visible now db k = Some ob" by (rule v)
  show "objects db k = Some ob" "\<not> expired now db k" using vd by auto
  show t: "db_to hf db db' (objects db) (expiries db)" using LookupKey_ok [OF ok r] vd by simp
  show "db_ok hf db'" "objects db' = objects db" "expiries db' = expiries db" "loading db' = loading db"
    "stopping db' = stopping db" using t by (simp_all add: db_to_def)
qed

lemma PersistKey_ok:
  assumes ok: "db_ok hf db" and r: "PersistKey hf now db k = (st, db')"
  shows "if visible now db k = None \<or> expiries db k = None
    then st = kError \<and> db_to hf db db' (drop_expired now db k (objects db)) (drop_expired now db k (expiries db))
    else st = kOk \<and> db_to hf db db' (objects db) ((expiries db)(k := None))"
proof -
  obtain ob db1 where l: "LookupKey hf now db k = (ob, db1)" by fastforce
  show ?thesis
  proof (cases ob)
    case None
    then have "st = kError" "db' = db1" using r l by (simp_all add: PersistKey_def)
    then show ?thesis using LookupKey_ok [OF ok l] None by auto
  next
    case (Some x)
    note f = LookupKey_found [OF ok l [unfolded Some]]
    obtain t db2 where e: "Expiration hf db1 k = (t, db2)" by fastforce
    have t: "t = expiries db k" and t2: "db_to hf db1 db2 (objects db) (expiries db)"
      using Expiration_ok [OF f(5) e] f by auto
    have t3: "db_to hf db db2 (objects db) (expiries db)" by (rule db_to_trans [OF f(4) t2])
    have ok2: "db_ok hf db2" "objects db2 = objects db" "expiries db2 = expiries db"
      using t2 by (auto simp: db_to_def)
    show ?thesis
    proof (cases t)
      case None
      then have "st = kError" "db' = db2" using r l Some e by (simp_all add: PersistKey_def)
      then show ?thesis using t3 t None f(3) by simp
    next
      case (Some u)
      obtain b d where d: "Dict_Delete hf (db_expires db2) k = (b, d)" by fastforce
      have ek: "expiries db k = Some u" using t Some by simp
      have dd: "b" "dict_ok hf d" "dict_map d = (expiries db)(k := None)"
        using del_map_ok [OF db_okD(2) [OF ok2(1)], of k] d ok2 ek by simp_all
      have "st = kOk" "db' = db2\<lparr>db_expires := d\<rparr>"
        using r l \<open>ob = Some x\<close> e Some d dd(1) by (simp_all add: PersistKey_def)
      moreover have "db_to hf db2 (db2\<lparr>db_expires := d\<rparr>) (objects db) ((expiries db)(k := None))"
        using dd ok2 db_okD [OF ok2(1)] dom_sub(2) [OF db_okD(3) [OF ok2(1)], of k]
        by (simp add: db_to_def db_ok_def)
      ultimately show ?thesis using db_to_trans [OF t3] f(1) ek by auto
    qed
  qed
qed

lemma round_half: "m div 1000 + (if m mod 1000 \<ge> 500 then 1 else 0) = (m + 500) div (1000 :: int)"
proof -
  define q r where "q = m div 1000" and "r = m mod 1000"
  have m: "m = r + q * 1000" and r: "0 \<le> r" "r < 1000" by (simp_all add: q_def r_def)
  have "m + 500 = (r + 500) + q * 1000" using m by simp
  then have "(m + 500) div 1000 = (r + 500) div 1000 + q" by (simp only: div_mult_self1)
  moreover have "(r + 500) div 1000 = (if r \<ge> 500 then 1 else 0)"
    using r by (cases "r \<ge> 500") (simp_all add: div_pos_geq div_pos_pos_trivial)
  ultimately show ?thesis by (simp add: q_def r_def)
qed

lemma TimeToLive_ok:
  assumes ok: "db_ok hf db" and r: "TimeToLive hf now later db k res = (ttl, db')"
  shows "db_to hf db db' (drop_expired now db k (objects db)) (drop_expired now db k (expiries db)) \<and>
    ttl = (if visible now db k = None then -2
      else case expiries db k of None \<Rightarrow> -1
        | Some t \<Rightarrow> if res = kMilliseconds then max (t - later) 0 else (max (t - later) 0 + 500) div 1000)"
proof -
  obtain ob db1 where l: "LookupKey hf now db k = (ob, db1)" by fastforce
  show ?thesis
  proof (cases ob)
    case None
    then have "ttl = -2" "db' = db1" using r l by (simp_all add: TimeToLive_def)
    then show ?thesis using LookupKey_ok [OF ok l] None by auto
  next
    case (Some x)
    note f = LookupKey_found [OF ok l [unfolded Some]]
    obtain t db2 where e: "Expiration hf db1 k = (t, db2)" by fastforce
    have t: "t = expiries db k" and t2: "db_to hf db1 db2 (objects db) (expiries db)"
      using Expiration_ok [OF f(5) e] f by auto
    have t3: "db_to hf db db2 (objects db) (expiries db)" by (rule db_to_trans [OF f(4) t2])
    have "db' = db2" "ttl = (case t of None \<Rightarrow> -1
        | Some t \<Rightarrow> if res = kMilliseconds then max (t - later) 0 else (max (t - later) 0 + 500) div 1000)"
      using r l Some e by (simp_all add: TimeToLive_def Let_def round_half split: option.splits if_splits)
    then show ?thesis using t3 f(1,3) t by simp
  qed
qed

lemma RenameKey_ok:
  assumes ok: "db_ok hf db" and r: "RenameKey hf now db k k' = (st, db')"
  shows "if visible now db k = None
    then st = kError \<and> db_to hf db db' (drop_expired now db k (objects db)) (drop_expired now db k (expiries db))
    else st = kOk \<and> db_to hf db db' ((objects db)(k := None, k' := objects db k))
      ((expiries db)(k := None, k' := expiries db k))"
proof -
  obtain ob db1 where l: "LookupKey hf now db k = (ob, db1)" by fastforce
  show ?thesis
  proof (cases ob)
    case None
    then have "st = kError" "db' = db1" using r l by (simp_all add: RenameKey_def)
    then show ?thesis using LookupKey_ok [OF ok l] None by auto
  next
    case (Some x)
    note f = LookupKey_found [OF ok l [unfolded Some]]
    show ?thesis
    proof (cases "k = k'")
      case True
      then have "st = kOk" "db' = db1" using r l Some by (simp_all add: RenameKey_def)
      then show ?thesis using f True by (simp add: fun_upd_idem)
    next
      case False
      obtain v d where g: "Dict_Get hf (db_dict db1) k = (v, d)" by fastforce
      note ge = dict.get [OF db_okD(1) [OF f(5)] g]
      have v: "v = Some x" using ge f by simp
      let ?db2 = "db1\<lparr>db_dict := d\<rparr>"
      have ok2: "db_ok hf ?db2" using ge db_okD [OF f(5)] by (simp add: db_ok_def)
      obtain t db3 where e: "Expiration hf ?db2 k = (t, db3)" by fastforce
      have t: "t = expiries db k" and t3: "db_to hf ?db2 db3 (objects db) (expiries db)"
        using Expiration_ok [OF ok2 e] f ge by auto
      have ok3: "db_ok hf db3" "objects db3 = objects db" "expiries db3 = expiries db"
        "loading db3 = loading db" "stopping db3 = stopping db"
        using t3 f by (auto simp: db_to_def)
      define d4 where "d4 = Dict_Set hf (snd (Dict_Delete hf (db_dict db3) k)) k' x"
      define e3 where "e3 = snd (Dict_Delete hf (db_expires db3) k)"
      define e4 where "e4 = (case t of Some t \<Rightarrow> Dict_Set hf e3 k' t | None \<Rightarrow> snd (Dict_Delete hf e3 k'))"
      have d4: "dict_ok hf d4" "dict_map d4 = (objects db)(k := None, k' \<mapsto> x)"
        using dict.put [OF del_map_ok(1) [OF db_okD(1) [OF ok3(1)]], of k k' x]
          del_map_ok(2) [OF db_okD(1) [OF ok3(1)], of k] ok3(2) by (simp_all add: d4_def)
      have e3: "dict_ok hf e3" "dict_map e3 = (expiries db)(k := None)"
        using del_map_ok(1,2) [OF db_okD(2) [OF ok3(1)], of k] ok3(3) by (simp_all add: e3_def)
      have e4: "dict_ok hf e4" "dict_map e4 = (expiries db)(k := None, k' := expiries db k)"
        using e3 dict.put [OF e3(1), of k'] del_map_ok(1,2) [OF e3(1), of k'] t
        by (auto simp: e4_def split: option.splits)
      have res: "st = kOk" "db' = db3\<lparr>db_dict := d4, db_expires := e4\<rparr>"
        using r l Some False g v e unfolding RenameKey_def Let_def d4_def e4_def e3_def by auto
      have "dom (dict_map e4) \<subseteq> dom (dict_map d4)"
        unfolding e4(2) d4(2) using db_okD(3) [OF ok] by (auto split: if_splits)
      then have "db_to hf db db' ((objects db)(k := None, k' \<mapsto> x)) ((expiries db)(k := None, k' := expiries db k))"
        using res d4 e4 ok3 by (simp add: db_to_def db_ok_def)
      then show ?thesis using res(1) f by simp
    qed
  qed
qed

lemma UnlinkKey_ok:
  assumes ok: "db_ok hf db" and r: "UnlinkKey hf now db k = (st, db')" and run: "\<not> stopping db"
  shows "st = (if visible now db k = None then kError else kOk) \<and>
    db_to hf db db' ((objects db)(k := None)) ((expiries db)(k := None))"
proof -
  obtain b db1 where i: "IsKeyExpired hf now db k = (b, db1)" by fastforce
  have b: "b = expired now db k" and t1: "db_to hf db db1 (objects db) (expiries db)"
    using IsKeyExpired_ok [OF ok i] by auto
  have ok1: "db_ok hf db1" "objects db1 = objects db" "expiries db1 = expiries db" "stopping db1 = stopping db"
    "loading db1 = loading db" using t1 by (auto simp: db_to_def)
  show ?thesis
  proof (cases b)
    case True
    obtain st1 db2 where dl: "DeleteKey hf db1 k = (st1, db2)" by fastforce
    have "st = kError" "db' = db2" using r i True dl by (simp_all add: UnlinkKey_def)
    then show ?thesis using DeleteKey_ok [OF ok1(1) dl] db_to_trans [OF t1] ok1 b True
      by (simp add: visible_def)
  next
    case False
    then have vis: "visible now db k = objects db k" using b by (simp add: visible_def)
    obtain v d where x: "Dict_Extract hf (db_dict db1) k = (v, d)" by fastforce
    then obtain u where "Unlink hf (db_dict db1) k = (u, d)" "v = map_option de_val u"
      by (auto simp: Dict_Extract_def split: prod.splits)
    then have dd: "dict_ok hf d" "dict_map d = (objects db)(k := None)" "v = objects db k"
      using Unlink_ok [OF db_okD(1) [OF ok1(1)]] ok1 by auto
    show ?thesis
    proof (cases v)
      case None
      then have "expiries db k = None" using dom_sub_None [OF db_okD(3) [OF ok], of k] dd(3) by simp
      then have upd: "(expiries db)(k := None) = expiries db" by auto
      have "st = kError" "db' = db1\<lparr>db_dict := d\<rparr>" using r i False x None by (simp_all add: UnlinkKey_def)
      then show ?thesis using dd None vis ok1 db_okD [OF ok1(1)] upd dom_sub(1) [OF db_okD(3) [OF ok], of k]
        by (simp add: db_to_def db_ok_def)
    next
      case (Some ob)
      have ob: "objects db k = Some ob" using Some dd(3) by simp
      have "st = kOk" "db_dict db' = d" "db_expires db' = snd (Dict_Delete hf (db_expires db1) k)"
        "loading db' = loading db1" "stopping db' = stopping db1"
        using r i False x Some run ok1(4) by (auto simp: UnlinkKey_def Reclaim_def Let_def)
      then show ?thesis
        using dd(1,2) ob vis ok1 del_map_ok(1,2) [OF db_okD(2) [OF ok1(1)], of k]
          dom_sub(1) [OF db_okD(3) [OF ok], of k]
        by (simp add: db_to_def db_ok_def)
    qed
  qed
qed

section \<open>Active expiry\<close>

lemma Scan_entries: "set (fst (Dict_Scan d c)) \<subseteq> set (dict_entries d)"
  by (auto simp: Dict_Scan_def bucket_at_def dict_entries_def entries_def split: if_splits
      intro: nth_mem)

lemma entry_map_entry:
  "distinct (map de_key es) \<Longrightarrow> e \<in> set es \<Longrightarrow> entry_map es (de_key e) = Some (de_val e)"
  by (auto simp: entry_map_def map_of_eq_Some_iff comp_def intro: rev_image_eqI)

lemma ExpireSome_visit_ok:
  assumes "ExpireSome_visit n now es (s, ks) = (s', ks')" "length ks \<le> s" "s \<le> n"
  shows "s' \<le> n \<and> length ks' \<le> s' \<and> set ks' \<subseteq> set ks \<union> {de_key e |e. e \<in> set es \<and> de_val e \<le> now}"
  using assms
proof (induction es arbitrary: s ks)
  case (Cons e es)
  show ?case
  proof (cases "s \<ge> n")
    case True
    then show ?thesis using Cons.IH [of s ks] Cons.prems by auto
  next
    case False
    then show ?thesis
      using Cons.IH [of "s + 1" "if de_val e \<le> now then ks @ [de_key e] else ks"] Cons.prems
      by (auto split: if_splits)
  qed
qed simp

lemma ExpireSome_loop_ok:
  assumes "ExpireSome_loop n now d c acc = (c', s', ks')" "length (snd acc) \<le> fst acc" "fst acc \<le> n"
  shows "s' \<le> n \<and> length ks' \<le> s' \<and>
    set ks' \<subseteq> set (snd acc) \<union> {de_key e |e. e \<in> set (dict_entries d) \<and> de_val e \<le> now}"
  using assms
proof (induction n now d c acc rule: ExpireSome_loop.induct)
  case (1 n now d c acc)
  obtain s ks where acc: "acc = (s, ks)" by fastforce
  show ?case
  proof (cases "s < n")
    case False
    then show ?thesis using "1.prems" acc by (simp add: ExpireSome_loop.simps)
  next
    case True
    obtain es nx where sc: "Dict_Scan d c = (es, nx)" by fastforce
    obtain s1 ks1 where vs: "ExpireSome_visit n now es (s, ks) = (s1, ks1)" by fastforce
    note v = ExpireSome_visit_ok [OF vs] "1.prems"(2,3) [unfolded acc]
    have "set es \<subseteq> set (dict_entries d)" using Scan_entries [of d c] sc by simp
    then have es: "{de_key e |e. e \<in> set es \<and> de_val e \<le> now}
        \<subseteq> {de_key e |e. e \<in> set (dict_entries d) \<and> de_val e \<le> now}" by blast
    show ?thesis
    proof (cases nx)
      case None
      then have "s' = s1" "ks' = ks1"
        using "1.prems"(1) True sc vs acc by (simp_all add: ExpireSome_loop.simps)
      then show ?thesis using v subset_trans [OF _ Un_mono [OF subset_refl es]] acc by simp
    next
      case (Some c1)
      have "ExpireSome_loop n now d c1 (s1, ks1) = (c', s', ks')"
        using "1.prems"(1) True sc vs acc Some by (subst (asm) ExpireSome_loop.simps) simp
      then have "s' \<le> n \<and> length ks' \<le> s' \<and>
          set ks' \<subseteq> set ks1 \<union> {de_key e |e. e \<in> set (dict_entries d) \<and> de_val e \<le> now}"
        using "1.IH" [of "(es, nx)" es nx "(s1, ks1)" c1] True sc vs acc Some v by simp
      then show ?thesis using v es acc by (simp, blast)
    qed
  qed
qed

lemma DeleteKeys_ok:
  assumes "db_ok hf db" "DeleteKeys hf ks n db = (n', db')"
  shows "n' = n + card (set ks \<inter> dom (objects db)) \<and>
    db_to hf db db' (objects db |` (- set ks)) (expiries db |` (- set ks))"
  using assms
proof (induction ks arbitrary: n db)
  case Nil
  then show ?case by (simp add: db_to_self)
next
  case (Cons k ks)
  obtain st db1 where d: "DeleteKey hf db k = (st, db1)" by fastforce
  have st: "st = (if objects db k = None then kError else kOk)"
    and t1: "db_to hf db db1 ((objects db)(k := None)) ((expiries db)(k := None))"
    using DeleteKey_ok [OF Cons.prems(1) d] by auto
  have ok1: "db_ok hf db1" "objects db1 = (objects db)(k := None)" "expiries db1 = (expiries db)(k := None)"
    using t1 by (auto simp: db_to_def)
  have "DeleteKeys hf ks (if st = kOk then n + 1 else n) db1 = (n', db')" using Cons.prems(2) d by simp
  note ih = Cons.IH [OF ok1(1) this]
  have mp: "(m(k := None)) |` (- set ks) = m |` (- set (k # ks))" for m :: "string \<rightharpoonup> 'v"
    by (auto simp: restrict_map_def)
  have "db_to hf db db' (objects db |` (- set (k # ks))) (expiries db |` (- set (k # ks)))"
    using db_to_trans [OF t1] ih unfolding ok1(2,3) mp by blast
  moreover have "n' = n + card (set (k # ks) \<inter> dom (objects db))"
  proof -
    let ?A = "set ks \<inter> dom (objects db1)"
    have fin: "finite ?A" "k \<notin> ?A" by (simp_all add: ok1(2))
    have "set (k # ks) \<inter> dom (objects db) = (if objects db k = None then ?A else insert k ?A)"
      by (auto simp: ok1(2))
    then show ?thesis using ih st fin by (simp split: if_splits)
  qed
  ultimately show ?case by blast
qed

lemma ExpireSome_ok:
  assumes ok: "db_ok hf db" and r: "ExpireSome hf n now db = ((s, x), db')"
  shows "\<exists>K. (\<forall>k\<in>K. \<exists>t. expiries db k = Some t \<and> t \<le> now) \<and> x = card K \<and> x \<le> s \<and> s \<le> n \<and>
    db_to hf db db' (objects db |` (- K)) (expiries db |` (- K))"
proof (cases "n = 0 \<or> Dict_Size (db_expires db) = 0")
  case True
  then have "s = 0" "x = 0" "db' = db" using r by (auto simp: ExpireSome_def)
  then show ?thesis using db_to_self [OF ok] by (intro exI [of _ "{}"]) (simp add: restrict_map_def)
next
  case False
  obtain c s1 ks where l: "ExpireSome_loop n now (db_expires db) (expire_cursor db) (0, []) = (c, s1, ks)"
    by (metis surj_pair)
  have lp: "s1 \<le> n" "length ks \<le> s1"
    "set ks \<subseteq> {de_key e |e. e \<in> set (dict_entries (db_expires db)) \<and> de_val e \<le> now}"
    using ExpireSome_loop_ok [OF l] by simp_all
  let ?db = "db\<lparr>expire_cursor := c\<rparr>"
  have ok1: "db_ok hf ?db" using ok by (simp add: db_ok_def)
  obtain n' db2 where d: "DeleteKeys hf ks 0 ?db = (n', db2)" by fastforce
  have dist: "distinct (map de_key (dict_entries (db_expires db)))"
    using db_okD(2) [OF ok] by (simp add: dict_ok_def)
  have ks: "\<exists>t. expiries db k = Some t \<and> t \<le> now" if "k \<in> set ks" for k
    using lp(3) that entry_map_entry [OF dist] by (auto simp: dict_map_def)
  have "set ks \<inter> dom (objects db) = set ks" using ks db_okD(3) [OF ok] by blast
  then have "n' = card (set ks)" "db_to hf db db2 (objects db |` (- set ks)) (expiries db |` (- set ks))"
    using DeleteKeys_ok [OF ok1 d] by (simp_all add: db_to_def)
  moreover have "s = s1" "x = n'" "db' = db2" using r False l d by (simp_all add: ExpireSome_def)
  moreover have "card (set ks) \<le> s1" using card_length [of ks] lp(2) by linarith
  ultimately show ?thesis using ks lp(1) by (intro exI [of _ "set ks"]) simp
qed

section \<open>Properties\<close>

text \<open>An empty database, and one with a key that expires at time 100.\<close>

definition empty_db :: "'o redis_db" where
  "empty_db = \<lparr>db_dict = Dict_init\<lparr>ht0 := InitializeTableWithSize 1 2, rehash_idx := None\<rparr>,
     db_expires = Dict_init\<lparr>ht0 := InitializeTableWithSize 1 2, rehash_idx := None\<rparr>,
     reclaiming = [], stopping = False, expire_cursor = 0, loading = False\<rparr>"

lemma RedisDb_Create_empty: "RedisDb_Create = Some empty_db"
  by (simp add: RedisDb_Create_def Dict_Create_2 empty_db_def)

lemma empty_dict:
  "dict_ok hf (Dict_init\<lparr>ht0 := InitializeTableWithSize 1 2, rehash_idx := None\<rparr>)"
  "dict_map (Dict_init\<lparr>ht0 := InitializeTableWithSize 1 2, rehash_idx := None\<rparr>) = Map.empty"
  using Dict_Create_ok [OF Dict_Create_2] by simp_all

lemma empty_db_ok: "db_ok hf empty_db" "objects empty_db = Map.empty" "expiries empty_db = Map.empty"
  "\<not> loading empty_db" "\<not> stopping empty_db"
  by (simp_all add: db_ok_def empty_db_def empty_dict)

definition sample_db :: "string redis_db" where
  "sample_db = snd (SetKey (\<lambda>_. 0) empty_db ''k'' (Some ''v'') 100 False)"

lemma sample_db_ok: "db_ok (\<lambda>_. 0) sample_db" "objects sample_db = [''k'' \<mapsto> ''v'']"
  "expiries sample_db = [''k'' \<mapsto> 100]" "\<not> loading sample_db" "\<not> stopping sample_db"
proof -
  obtain st db where r: "SetKey (\<lambda>_. 0) empty_db ''k'' (Some ''v'') 100 False = (st, db :: string redis_db)"
    by fastforce
  have "db_to (\<lambda>_. 0) empty_db db [''k'' \<mapsto> ''v''] [''k'' \<mapsto> 100]"
    using SetKey_ok [OF empty_db_ok(1) r] by (simp add: empty_db_ok(2,3))
  moreover have "sample_db = db" using r by (simp add: sample_db_def)
  ultimately show "db_ok (\<lambda>_. 0) sample_db" "objects sample_db = [''k'' \<mapsto> ''v'']"
    "expiries sample_db = [''k'' \<mapsto> 100]" "\<not> loading sample_db" "\<not> stopping sample_db"
    using empty_db_ok(4,5) by (simp_all add: db_to_def)
qed

text \<open>
  C17: a lookup returns the object of the key unless its time has come, in which case the key and
  its expiry time are gone afterwards; nothing else changes.
\<close>

theorem LookupKey_visible:
  assumes "db_ok hf db" and "LookupKey hf now db key = (ob, db')"
  shows "ob = visible now db key \<and> db_ok hf db' \<and>
    (\<forall>k. objects db' k = (if k = key \<and> expired now db key then None else objects db k)) \<and>
    (\<forall>k. expiries db' k = (if k = key \<and> expired now db key then None else expiries db k))"
  using LookupKey_ok [OF assms] by (auto simp: db_to_def drop_expired_def)

theorem LookupKey_visible_witness:
  "\<exists>db'. LookupKey (\<lambda>_. 0) 100 sample_db ''k'' = (None, db') \<and> db_ok (\<lambda>_. 0) db' \<and> objects db' ''k'' = None"
proof -
  obtain ob db' where l: "LookupKey (\<lambda>_. 0) 100 sample_db ''k'' = (ob, db')" by fastforce
  have "expired 100 sample_db ''k''" using sample_db_ok by (simp add: expired_def)
  then show ?thesis using LookupKey_visible [OF sample_db_ok(1) l] l by (simp add: visible_def)
qed

text \<open>
  Setting a key stores the object; a positive time becomes its expiry time, time 0 removes
  an old one unless the flag asks to keep it; no other key changes.
\<close>

theorem SetKey_stores:
  assumes "db_ok hf db" and "SetKey hf db key (Some ob) t keep = (st, db')"
  shows "st = kOk \<and> db_ok hf db' \<and> objects db' = (objects db)(key \<mapsto> ob) \<and>
    expiries db' = (if t > 0 then (expiries db)(key \<mapsto> t)
      else if t = 0 \<and> \<not> keep then (expiries db)(key := None) else expiries db)"
  using SetKey_ok [OF assms] by (simp add: db_to_def)

theorem SetKey_stores_witness:
  "\<exists>db'. SetKey (\<lambda>_. 0) sample_db ''k'' (Some ''w'') 0 False = (kOk, db') \<and> expiries db' ''k'' = None"
proof -
  obtain st db' where s: "SetKey (\<lambda>_. 0) sample_db ''k'' (Some ''w'') 0 False = (st, db')" by fastforce
  then show ?thesis using SetKey_stores [OF sample_db_ok(1) s] by simp
qed



text \<open>
  Renaming moves the object together with its expiry time, overwriting both of the new key;
  it fails without effect on a key that is not visible.
\<close>

theorem RenameKey_moves:
  assumes "db_ok hf db" and "RenameKey hf now db k k' = (st, db')"
  shows "if visible now db k = None then st = kError
    else st = kOk \<and> objects db' = (objects db)(k := None, k' := objects db k) \<and>
      expiries db' = (expiries db)(k := None, k' := expiries db k)"
  using RenameKey_ok [OF assms] by (auto simp: db_to_def)

theorem RenameKey_moves_witness:
  "\<exists>db'. RenameKey (\<lambda>_. 0) 7 sample_db ''k'' ''j'' = (kOk, db') \<and> objects db' ''j'' = Some ''v'' \<and>
    expiries db' ''j'' = Some 100"
proof -
  obtain st db' where r: "RenameKey (\<lambda>_. 0) 7 sample_db ''k'' ''j'' = (st, db')" by fastforce
  have "visible 7 sample_db ''k'' = Some ''v''" using sample_db_ok by (simp add: visible_def expired_def)
  then show ?thesis using RenameKey_moves [OF sample_db_ok(1) r] r sample_db_ok by simp
qed

text \<open>
  C19: the active expiry cycle removes only keys whose time has come, each with its expiry time,
  keeps all others, samples at most the number it is given and counts what it removed.
\<close>

theorem ExpireSome_only_expired:
  assumes "db_ok hf db" and "ExpireSome hf n now db = ((sampled, removed), db')"
  shows "\<exists>K. (\<forall>k\<in>K. \<exists>t. expiries db k = Some t \<and> t \<le> now) \<and> removed = card K \<and>
    removed \<le> sampled \<and> sampled \<le> n \<and> db_ok hf db' \<and>
    objects db' = objects db |` (- K) \<and> expiries db' = expiries db |` (- K)"
  using ExpireSome_ok [OF assms] by (auto simp: db_to_def)

theorem ExpireSome_only_expired_witness:
  "\<exists>s x db'. ExpireSome (\<lambda>_. 0) 10 50 sample_db = ((s, x), db') \<and> x = 0 \<and> objects db' ''k'' = Some ''v''"
proof -
  obtain s x db' where e: "ExpireSome (\<lambda>_. 0) 10 50 sample_db = ((s, x), db')" by (metis surj_pair)
  obtain K where K: "\<forall>k\<in>K. \<exists>t. expiries sample_db k = Some t \<and> t \<le> 50" "x = card K"
    "objects db' = objects sample_db |` (- K)"
    using ExpireSome_only_expired [OF sample_db_ok(1) e] by auto
  have "K = {}" using K(1) by (auto simp: sample_db_ok split: if_splits)
  then show ?thesis using e K by (simp add: sample_db_ok)
qed

text \<open>
  The remaining time is -2 for a key that is not visible, -1 for one without expiry time and
  otherwise not negative, in seconds rounded to the nearest.
\<close>

theorem TimeToLive_value:
  assumes "db_ok hf db" and "TimeToLive hf now later db k res = (ttl, db')"
  shows "ttl = (if visible now db k = None then -2
      else case expiries db k of None \<Rightarrow> -1
        | Some t \<Rightarrow> if res = kMilliseconds then max (t - later) 0 else (max (t - later) 0 + 500) div 1000)"
  using TimeToLive_ok [OF assms] by simp

theorem TimeToLive_value_witness:
  "fst (TimeToLive (\<lambda>_. 0) 7 8 sample_db ''k'' kMilliseconds) = 92"
proof -
  obtain ttl db' where t: "TimeToLive (\<lambda>_. 0) 7 8 sample_db ''k'' kMilliseconds = (ttl, db')" by fastforce
  have "visible 7 sample_db ''k'' = Some ''v''" using sample_db_ok by (simp add: visible_def expired_def)
  then show ?thesis using TimeToLive_value [OF sample_db_ok(1) t] t sample_db_ok by simp
qed

end
