(* ===== verification/Strings.thy ===== *)
theory Strings
  imports Prelude
begin

text \<open>
  The text utilities of \<open>src/utils/string_utils.cpp\<close>: glob patterns, splitting and the comparison
  without case.  A token of a glob pattern is the position behind it and whether it matches a
  character.  The matcher keeps one position to go back to, the last \<open>*\<close>; it is proved equal to
  the meaning of the pattern, where every \<open>*\<close> stands for any text.
\<close>

section \<open>Definitions of the source\<close>

definition FoldAsciiCase :: "char \<Rightarrow> char" where
  "FoldAsciiCase c =
     (if 65 \<le> (of_char c :: nat) \<and> (of_char c :: nat) \<le> 90 then char_of ((of_char c :: nat) + 32) else c)"

text \<open>
  One item of a character class, from the cursor: its first character, the last one of a range and
  the cursor behind it; a backslash quotes the next character.
\<close>

definition class_item :: "string \<Rightarrow> nat \<Rightarrow> char \<times> char option \<times> nat" where
  "class_item pattern cursor =
     (let (range_start, cursor) =
            (if pattern ! cursor = CHR 0x5C \<and> cursor + 1 < length pattern
             then (pattern ! (cursor + 1), cursor + 2) else (pattern ! cursor, cursor + 1))
      in if cursor + 1 < length pattern \<and> pattern ! cursor = CHR ''-'' \<and> pattern ! (cursor + 1) \<noteq> CHR '']''
         then if pattern ! (cursor + 1) = CHR 0x5C \<and> cursor + 2 < length pattern
           then (range_start, Some (pattern ! (cursor + 2)), cursor + 3)
           else (range_start, Some (pattern ! (cursor + 1)), cursor + 2)
         else (range_start, None, cursor))"

definition class_item_matches :: "char \<Rightarrow> char \<Rightarrow> char option \<Rightarrow> bool" where
  "class_item_matches v range_start range_end =
     (case range_end of
        None \<Rightarrow> v = range_start
      | Some range_end \<Rightarrow>
          let candidate = of_char v :: nat; s = of_char range_start; e = of_char range_end
          in if s \<le> e then candidate \<ge> s \<and> candidate \<le> e else candidate \<ge> e \<and> candidate \<le> s)"

lemma class_item_bounds:
  assumes "cursor < length pattern" "class_item pattern cursor = (s, e, c)"
  shows "cursor < c" "c \<le> length pattern"
  using assms by (auto simp: class_item_def Let_def split: if_splits)

function MatchCharacterClass_loop :: "string \<Rightarrow> char \<Rightarrow> nat \<Rightarrow> bool \<Rightarrow> nat \<times> bool" where
  "MatchCharacterClass_loop pattern v cursor matched =
     (if cursor < length pattern \<and> pattern ! cursor \<noteq> CHR '']'' then
        case class_item pattern cursor of
          (range_start, range_end, cursor) \<Rightarrow>
            MatchCharacterClass_loop pattern v cursor (matched \<or> class_item_matches v range_start range_end)
      else (cursor, matched))"
  by pat_completeness auto
termination
  by (relation "measure (\<lambda>(p, v, c, m). length p - c)") (auto dest: sym [THEN class_item_bounds(1) [rotated]])

declare MatchCharacterClass_loop.simps [simp del]

definition MatchCharacterClass :: "string \<Rightarrow> nat \<Rightarrow> char \<Rightarrow> nat \<times> bool" where
  "MatchCharacterClass pattern offset v =
     (let cursor = offset + 1;
          negate = cursor < length pattern \<and> pattern ! cursor = CHR ''^'';
          (cursor, matched) =
            MatchCharacterClass_loop pattern v (cursor + (if negate then 1 else 0)) False
      in if cursor = length pattern then (offset + 1, v = CHR ''['')
         else (cursor + 1, if negate then \<not> matched else matched))"

definition MatchGlobToken :: "string \<Rightarrow> nat \<Rightarrow> char \<Rightarrow> nat \<times> bool" where
  "MatchGlobToken pattern offset v =
     (if pattern ! offset = CHR ''?'' then (offset + 1, True)
      else if pattern ! offset = CHR ''['' then MatchCharacterClass pattern offset v
      else if pattern ! offset = CHR 0x5C \<and> offset + 1 < length pattern
      then (offset + 2, pattern ! (offset + 1) = v)
      else (offset + 1, pattern ! offset = v))"

function skip_stars :: "string \<Rightarrow> nat \<Rightarrow> nat" where
  "skip_stars pattern i =
     (if i < length pattern \<and> pattern ! i = CHR ''*'' then skip_stars pattern (Suc i) else i)"
  by auto
termination
  by (relation "measure (\<lambda>(p, i). length p - i)") auto

declare skip_stars.simps [simp del]

lemma skip_stars_ge: "i \<le> skip_stars p i"
proof (induction p i rule: skip_stars.induct)
  case (1 p i)
  then show ?case using skip_stars.simps [of p i] by (auto split: if_splits)
qed

lemma skip_stars_step:
  assumes "i < length p" "p ! i = CHR ''*''"
  shows "i < skip_stars p i" "skip_stars p i = skip_stars p (Suc i)"
  using assms skip_stars.simps [of p i] skip_stars_ge [of "Suc i" p] by auto

lemma skip_stars_stop:
  "i \<le> length p \<Longrightarrow> skip_stars p i \<le> length p \<and>
     \<not> (skip_stars p i < length p \<and> p ! skip_stars p i = CHR ''*'')"
proof (induction p i rule: skip_stars.induct)
  case (1 p i)
  then show ?case using skip_stars.simps [of p i] by (cases "i < length p \<and> p ! i = CHR ''*''") auto
qed

lemma class_loop_bounds:
  "c \<le> length p \<Longrightarrow> c \<le> fst (MatchCharacterClass_loop p v c m) \<and>
     fst (MatchCharacterClass_loop p v c m) \<le> length p"
proof (induction p v c m rule: MatchCharacterClass_loop.induct)
  case (1 p v c m)
  obtain s e c' where i: "class_item p c = (s, e, c')" by (metis surj_pair)
  show ?case
  proof (cases "c < length p \<and> p ! c \<noteq> CHR '']''")
    case True
    note b = class_item_bounds [OF conjunct1 [OF True] i]
    have "MatchCharacterClass_loop p v c m = MatchCharacterClass_loop p v c' (m \<or> class_item_matches v s e)"
      using True i by (subst MatchCharacterClass_loop.simps) simp
    then show ?thesis using "1.IH" [OF True i [symmetric] refl] b by simp
  next
    case False
    then show ?thesis using "1.prems" by (simp only: MatchCharacterClass_loop.simps [of p v c m] if_False) simp
  qed
qed

text \<open>Where the class ends does not depend on the character it is matched with.\<close>

lemma class_loop_end: "fst (MatchCharacterClass_loop p v c m) = fst (MatchCharacterClass_loop p v' c m')"
proof (induction p v c m arbitrary: m' rule: MatchCharacterClass_loop.induct)
  case (1 p v c m)
  obtain s e c' where i: "class_item p c = (s, e, c')" by (metis surj_pair)
  show ?case
  proof (cases "c < length p \<and> p ! c \<noteq> CHR '']''")
    case True
    have "MatchCharacterClass_loop p x c y = MatchCharacterClass_loop p x c' (y \<or> class_item_matches x s e)" for x y
      using True i by (subst MatchCharacterClass_loop.simps) simp
    then show ?thesis using "1.IH" [OF True i [symmetric] refl] by metis
  next
    case False
    then show ?thesis
      by (simp only: MatchCharacterClass_loop.simps [of p v c m] MatchCharacterClass_loop.simps [of p v' c m']
          if_False fst_conv)
  qed
qed

lemma MatchGlobToken_bounds:
  assumes "offset < length p"
  shows "offset < fst (MatchGlobToken p offset v) \<and> fst (MatchGlobToken p offset v) \<le> length p"
proof -
  let ?k = "if offset + 1 < length p \<and> p ! (offset + 1) = CHR ''^'' then 1 else 0"
  obtain c m where l: "MatchCharacterClass_loop p v (offset + 1 + ?k) False = (c, m)" by fastforce
  have "offset + 1 + ?k \<le> length p" using assms by auto
  then have "offset + 1 + ?k \<le> c" "c \<le> length p"
    using class_loop_bounds [of "offset + 1 + ?k" p v False] unfolding l by simp_all
  then have "offset < c" "c \<le> length p" by simp_all
  then have "offset < fst (MatchCharacterClass p offset v) \<and> fst (MatchCharacterClass p offset v) \<le> length p"
    using assms l by (simp add: MatchCharacterClass_def Let_def)
  then show ?thesis using assms by (simp add: MatchGlobToken_def)
qed

text \<open>The position to go back to is the pattern and the value offset of the last \<open>*\<close>.\<close>

function MatchesGlob_loop :: "string \<Rightarrow> string \<Rightarrow> nat \<Rightarrow> nat \<Rightarrow> (nat \<times> nat) option \<Rightarrow> bool" where
  "MatchesGlob_loop v pattern value_offset pattern_offset retry =
     (if value_offset < length v then
        if pattern_offset < length pattern \<and> pattern ! pattern_offset = CHR ''*'' then
          let pattern_offset = skip_stars pattern pattern_offset
          in MatchesGlob_loop v pattern value_offset pattern_offset (Some (pattern_offset, value_offset))
        else if pattern_offset < length pattern \<and>
                snd (MatchGlobToken pattern pattern_offset (v ! value_offset)) then
          MatchesGlob_loop v pattern (value_offset + 1)
            (fst (MatchGlobToken pattern pattern_offset (v ! value_offset))) retry
        else case retry of
            None \<Rightarrow> False
          | Some (retry_pattern, retry_value) \<Rightarrow>
              MatchesGlob_loop v pattern (retry_value + 1) retry_pattern
                (Some (retry_pattern, retry_value + 1))
      else skip_stars pattern pattern_offset = length pattern)"
  by pat_completeness auto
termination
proof (relation "measures [\<lambda>(v, p, vo, po, r). case r of None \<Rightarrow> 0 | Some (rp, rv) \<Rightarrow> if rv > vo then 1 else 0,
      \<lambda>(v, p, vo, po, r). case r of None \<Rightarrow> Suc (length v) | Some (rp, rv) \<Rightarrow> length v - rv,
      \<lambda>(v, p, vo, po, r). length p - po]", goal_cases)
  case (2 v p vo po r po')
  then have "po < po'" using skip_stars_step(1) [of po p] by simp
  then show ?case using 2 by (auto split: option.splits)
next
  case (3 v p vo po r)
  have "po < fst (MatchGlobToken p po (v ! vo))" using MatchGlobToken_bounds [of po p] 3 by simp
  then show ?case using 3 by (auto split: option.splits)
next
  case (4 v p vo po r rr rp rv)
  then show ?case by (cases "rv > vo") (auto split: option.splits)
qed simp

declare MatchesGlob_loop.simps [simp del]

definition MatchesGlob :: "string \<Rightarrow> string \<Rightarrow> bool" where
  "MatchesGlob v pattern = MatchesGlob_loop v pattern 0 0 None"

fun EqualsIgnoreCase_loop :: "string \<Rightarrow> string \<Rightarrow> bool" where
  "EqualsIgnoreCase_loop (a # left) (b # right) =
     (if FoldAsciiCase a \<noteq> FoldAsciiCase b then False else EqualsIgnoreCase_loop left right)"
| "EqualsIgnoreCase_loop _ _ = True"

definition EqualsIgnoreCase :: "string \<Rightarrow> string \<Rightarrow> bool" where
  "EqualsIgnoreCase left right =
     (if length left \<noteq> length right then False else EqualsIgnoreCase_loop left right)"

text \<open>\<open>std::toupper\<close> in the C locale.\<close>

definition ToUppercase :: "string \<Rightarrow> string" where
  "ToUppercase s = map (\<lambda>c. if 97 \<le> (of_char c :: nat) \<and> (of_char c :: nat) \<le> 122
     then char_of ((of_char c :: nat) - 32) else c) s"

text \<open>\<open>find\<close> of a non-empty delimiter, as a position; \<open>SplitView\<close> is \<open>Split\<close> on views.\<close>

function find_delimiter :: "string \<Rightarrow> string \<Rightarrow> nat \<Rightarrow> nat option" where
  "find_delimiter s delimiter i =
     (if i + length delimiter > length s then None
      else if take (length delimiter) (drop i s) = delimiter then Some i
      else find_delimiter s delimiter (Suc i))"
  by auto
termination
  by (relation "measure (\<lambda>(s, d, i). Suc (length s) - i)") auto

declare find_delimiter.simps [simp del]

lemma find_delimiter_bounds:
  "find_delimiter s d i = Some j \<Longrightarrow> i \<le> j \<and> j + length d \<le> length s \<and> take (length d) (drop j s) = d"
proof (induction s d i rule: find_delimiter.induct)
  case (1 s d i)
  then show ?case using find_delimiter.simps [of s d i] by (auto split: if_splits)
qed

lemma find_delimiter_advances:
  "find_delimiter s d i = Some j \<Longrightarrow> d \<noteq> [] \<Longrightarrow> Suc (length s) - (j + length d) < Suc (length s) - i"
  using find_delimiter_bounds [of s d i j] by (cases d) auto

function SplitTokenCount_loop :: "string \<Rightarrow> string \<Rightarrow> nat \<Rightarrow> nat \<Rightarrow> nat" where
  "SplitTokenCount_loop s delimiter start count =
     (if delimiter = [] then 1
      else case find_delimiter s delimiter start of
          Some e \<Rightarrow> SplitTokenCount_loop s delimiter (e + length delimiter) (count + 1)
        | None \<Rightarrow> if start < length s then count + 1 else count)"
  by pat_completeness auto
termination
  by (relation "measure (\<lambda>(s, d, i, c). Suc (length s) - i)")
    (auto dest: find_delimiter_advances)

declare SplitTokenCount_loop.simps [simp del]

definition SplitTokenCount :: "string \<Rightarrow> string \<Rightarrow> nat" where
  "SplitTokenCount s delimiter = SplitTokenCount_loop s delimiter 0 0"

function Split_loop :: "string \<Rightarrow> string \<Rightarrow> nat \<Rightarrow> string list \<Rightarrow> string list" where
  "Split_loop s delimiter start res =
     (if delimiter = [] then [s]
      else case find_delimiter s delimiter start of
          Some e \<Rightarrow> Split_loop s delimiter (e + length delimiter) (res @ [take (e - start) (drop start s)])
        | None \<Rightarrow> if start < length s then res @ [drop start s] else res)"
  by pat_completeness auto
termination
  by (relation "measure (\<lambda>(s, d, i, c). Suc (length s) - i)")
    (auto dest: find_delimiter_advances)

declare Split_loop.simps [simp del]

definition Split :: "string \<Rightarrow> string \<Rightarrow> string list" where
  "Split s delimiter = Split_loop s delimiter 0 []"

definition SplitView :: "string \<Rightarrow> string \<Rightarrow> string list" where
  "SplitView s delimiter = Split_loop s delimiter 0 []"

text \<open>\<open>ShiftCString\<close> on the bytes of the array; \<open>None\<close> is the null pointer.\<close>

definition ShiftCString :: "string option \<Rightarrow> nat \<Rightarrow> nat \<Rightarrow> string option res" where
  "ShiftCString s len offset =
     (case s of
        None \<Rightarrow> Inr None
      | Some b \<Rightarrow>
          if offset = 0 then Inr (Some b)
          else bindE (if offset \<ge> len then mem_copy b 0 (replicate len (CHR 0x00))
                      else mem_move b 0 offset (len - offset)) (\<lambda>b. Inr (Some b)))"

section \<open>What a pattern means\<close>

text \<open>
  The items of a pattern from an offset: \<open>None\<close> for a \<open>*\<close>, otherwise the test of one character;
  and the texts that a sequence of items stands for.
\<close>

function glob_items :: "string \<Rightarrow> nat \<Rightarrow> (char \<Rightarrow> bool) option list" where
  "glob_items p i =
     (if i \<ge> length p then []
      else if p ! i = CHR ''*'' then None # glob_items p (Suc i)
      else Some (\<lambda>c. snd (MatchGlobToken p i c)) # glob_items p (fst (MatchGlobToken p i (CHR 0x00))))"
  by auto
termination
proof (relation "measure (\<lambda>(p, i). length p - i)", goal_cases)
  case (3 p i)
  then show ?case using MatchGlobToken_bounds [of i p "CHR 0x00"] by auto
qed auto

declare glob_items.simps [simp del]

fun items_match :: "(char \<Rightarrow> bool) option list \<Rightarrow> string \<Rightarrow> bool" where
  "items_match [] v = (v = [])"
| "items_match (None # its) v = (\<exists>k\<le>length v. items_match its (drop k v))"
| "items_match (Some f # its) v = (case v of [] \<Rightarrow> False | c # v \<Rightarrow> f c \<and> items_match its v)"

section \<open>The matcher is exact\<close>

lemma token_next: "fst (MatchGlobToken p i c) = fst (MatchGlobToken p i c')"
proof -
  have "fst (MatchCharacterClass p i c) = fst (MatchCharacterClass p i c')"
    using class_loop_end [of p c "i + 1 + (if i + 1 < length p \<and> p ! (i + 1) = CHR ''^'' then 1 else 0)" False c' False]
    by (auto simp: MatchCharacterClass_def Let_def split: prod.splits)
  then show ?thesis by (simp add: MatchGlobToken_def)
qed

lemma items_token:
  assumes "i < length p" "p ! i \<noteq> CHR ''*''"
  shows "glob_items p i = Some (\<lambda>c. snd (MatchGlobToken p i c)) # glob_items p (fst (MatchGlobToken p i c))"
  using assms token_next [of p i c "CHR 0x00"] by (subst glob_items.simps) simp

lemma items_end: "length p \<le> i \<Longrightarrow> glob_items p i = []"
  by (simp add: glob_items.simps)

lemma star_any: "items_match (None # its) (drop i v) \<longleftrightarrow> (\<exists>k\<ge>i. k \<le> max i (length v) \<and> items_match its (drop k v))"
proof
  assume "items_match (None # its) (drop i v)"
  then obtain k where "k \<le> length v - i" "items_match its (drop (k + i) v)" by (auto simp: add.commute)
  then show "\<exists>k\<ge>i. k \<le> max i (length v) \<and> items_match its (drop k v)" by (intro exI [of _ "k + i"]) auto
next
  assume "\<exists>k\<ge>i. k \<le> max i (length v) \<and> items_match its (drop k v)"
  then obtain k where "i \<le> k" "k \<le> max i (length v)" "items_match its (drop k v)" by blast
  then show "items_match (None # its) (drop i v)" by (auto intro!: exI [of _ "k - i"])
qed

lemma star_star: "items_match (None # None # its) v \<longleftrightarrow> items_match (None # its) v"
proof
  assume "items_match (None # None # its) v"
  then obtain k j where "k \<le> length v" "j \<le> length v - k" "items_match its (drop (j + k) v)" by auto
  then show "items_match (None # its) v" by (auto intro!: exI [of _ "j + k"])
next
  assume "items_match (None # its) v"
  then show "items_match (None # None # its) v" by (simp, intro exI [of _ 0], simp)
qed

lemma items_stars:
  assumes "i < length p" "p ! i = CHR ''*''"
  shows "items_match (glob_items p i) v \<longleftrightarrow> items_match (None # glob_items p (skip_stars p i)) v"
  using assms
proof (induction p i arbitrary: v rule: skip_stars.induct)
  case (1 p i)
  have it: "glob_items p i = None # glob_items p (Suc i)" using "1.prems" by (subst glob_items.simps) simp
  have sk: "skip_stars p i = skip_stars p (Suc i)" by (rule skip_stars_step(2) [OF "1.prems"])
  show ?case
  proof (cases "Suc i < length p \<and> p ! Suc i = CHR ''*''")
    case True
    then have "items_match (glob_items p (Suc i)) w \<longleftrightarrow> items_match (None # glob_items p (skip_stars p (Suc i))) w" for w
      using "1.IH" "1.prems" by blast
    then have "items_match (glob_items p i) v \<longleftrightarrow> items_match (None # None # glob_items p (skip_stars p (Suc i))) v"
      unfolding it by simp
    then show ?thesis unfolding star_star sk .
  next
    case False
    then have "skip_stars p (Suc i) = Suc i" using skip_stars.simps [of p "Suc i"] by auto
    then show ?thesis by (simp add: it sk)
  qed
qed

lemma items_match_empty: "i \<le> length p \<Longrightarrow> items_match (glob_items p i) [] \<longleftrightarrow> skip_stars p i = length p"
proof (cases "i < length p \<and> p ! i = CHR ''*''")
  case False
  assume i: "i \<le> length p"
  have "skip_stars p i = i" using False skip_stars.simps [of p i] by auto
  then show ?thesis using False i items_token [of i p "CHR 0x00"] items_end [of p i] by (cases "i < length p") auto
next
  case True
  define j where "j = skip_stars p i"
  have "items_match (glob_items p i) [] \<longleftrightarrow> items_match (glob_items p j) []"
    using items_stars [of i p "[]"] True by (simp add: j_def)
  moreover have "j \<le> length p \<and> \<not> (j < length p \<and> p ! j = CHR ''*'')"
    unfolding j_def by (rule skip_stars_stop) (use True in simp)
  ultimately show ?thesis using items_token [of j p "CHR 0x00"] items_end [of p j]
    by (cases "j < length p") (auto simp: j_def)
qed

lemma items_match_prefix:
  "items_match (map Some fs @ its) v \<Longrightarrow> length fs \<le> length v \<and> items_match its (drop (length fs) v)"
  by (induction fs arbitrary: v) (auto split: list.splits)

text \<open>
  A later start of the items behind the last \<open>*\<close> is worth nothing once the next \<open>*\<close> is reached.
\<close>

lemma later_start:
  assumes "items_match (map Some fs @ None # its) (drop k v)" "rv \<le> k" "k \<le> length v"
  shows "items_match (None # its) (drop (rv + length fs) v)"
proof -
  have m: "items_match (None # its) (drop (k + length fs) v)" "length fs \<le> length v - k"
    using items_match_prefix [OF assms(1)] by (simp_all add: add.commute)
  from m(1) obtain j where j: "j \<ge> k + length fs" "j \<le> max (k + length fs) (length v)" "items_match its (drop j v)"
    unfolding star_any by blast
  have "max (k + length fs) (length v) = length v" using m(2) assms(3) by simp
  then show ?thesis unfolding star_any using j assms(2) by (intro exI [of _ j]) simp
qed

lemma ex_from:
  fixes i n :: nat
  assumes "i \<le> n"
  shows "(P i \<or> (\<exists>k>i. k \<le> n \<and> P k)) \<longleftrightarrow> (\<exists>k\<ge>i. k \<le> n \<and> P k)"
  using assms by (auto simp: order.order_iff_strict)

definition retry_ok :: "string \<Rightarrow> nat \<Rightarrow> nat \<Rightarrow> (nat \<times> nat) option \<Rightarrow> bool" where
  "retry_ok p vo po r \<longleftrightarrow> (case r of None \<Rightarrow> True | Some (rp, rv) \<Rightarrow>
     \<exists>fs. glob_items p rp = map Some fs @ glob_items p po \<and> vo = rv + length fs \<and> rp \<le> length p)"

definition retry_match :: "string \<Rightarrow> string \<Rightarrow> (nat \<times> nat) option \<Rightarrow> bool" where
  "retry_match v p r \<longleftrightarrow> (case r of None \<Rightarrow> False | Some (rp, rv) \<Rightarrow>
     \<exists>k>rv. k \<le> length v \<and> items_match (glob_items p rp) (drop k v))"

lemma retry_absorbed:
  assumes "retry_ok p vo po r" "retry_match v p r" "po < length p" "p ! po = CHR ''*''"
  shows "items_match (glob_items p po) (drop vo v)"
proof -
  from assms(1,2) obtain rp rv fs k where r: "r = Some (rp, rv)"
    "glob_items p rp = map Some fs @ glob_items p po" "vo = rv + length fs"
    "rv < k" "k \<le> length v" "items_match (glob_items p rp) (drop k v)"
    by (auto simp: retry_ok_def retry_match_def split: option.splits)
  have it: "glob_items p po = None # glob_items p (Suc po)"
    using assms(3,4) by (subst glob_items.simps) simp
  show ?thesis using later_start [of fs "glob_items p (Suc po)" k v rv] r it by simp
qed

lemma MatchesGlob_loop_exact:
  assumes "vo \<le> length v" "po \<le> length p" "retry_ok p vo po r"
  shows "MatchesGlob_loop v p vo po r \<longleftrightarrow> items_match (glob_items p po) (drop vo v) \<or> retry_match v p r"
  using assms
proof (induction v p vo po r rule: MatchesGlob_loop.induct)
  case (1 v p vo po r)
  note pr = "1.prems"
  show ?case
  proof (cases "vo < length v")
    case False
    then have vo: "vo = length v" using pr(1) by simp
    have "\<not> retry_match v p r"
    proof
      assume "retry_match v p r"
      then obtain rp rv fs k where "r = Some (rp, rv)" "glob_items p rp = map Some fs @ glob_items p po"
        "length v = rv + length fs" "rv < k" "k \<le> length v" "items_match (glob_items p rp) (drop k v)"
        using pr(3) vo by (auto simp: retry_ok_def retry_match_def split: option.splits)
      then show False using items_match_prefix [of fs "glob_items p po" "drop k v"] by auto
    qed
    then show ?thesis using False vo items_match_empty [OF pr(2)]
      by (subst MatchesGlob_loop.simps) simp
  next
    case vo: True
    have dv: "drop vo v = v ! vo # drop (Suc vo) v" using vo by (simp add: Cons_nth_drop_Suc)
    show ?thesis
    proof (cases "po < length p \<and> p ! po = CHR ''*''")
      case star: True
      define q where "q = skip_stars p po"
      have q: "q \<le> length p" unfolding q_def using skip_stars_stop [OF pr(2)] by blast
      have ih: "MatchesGlob_loop v p vo q (Some (q, vo)) \<longleftrightarrow>
          items_match (glob_items p q) (drop vo v) \<or> retry_match v p (Some (q, vo))"
        using "1.IH"(1) [OF vo star q_def pr(1) q] q by (simp add: retry_ok_def)
      have "MatchesGlob_loop v p vo po r = MatchesGlob_loop v p vo q (Some (q, vo))"
        using vo star by (subst MatchesGlob_loop.simps) (simp add: q_def Let_def)
      also have "\<dots> \<longleftrightarrow> items_match (None # glob_items p q) (drop vo v)"
        unfolding ih star_any retry_match_def
        using ex_from [of vo "length v" "\<lambda>k. items_match (glob_items p q) (drop k v)"] vo by simp
      also have "\<dots> \<longleftrightarrow> items_match (glob_items p po) (drop vo v)"
        using items_stars [of po p "drop vo v"] star by (simp only: q_def)
      finally show ?thesis using retry_absorbed [OF pr(3)] star by blast
    next
      case nostar: False
      show ?thesis
      proof (cases "po < length p \<and> snd (MatchGlobToken p po (v ! vo))")
        case tok: True
        define n where "n = fst (MatchGlobToken p po (v ! vo))"
        have it: "glob_items p po = Some (\<lambda>c. snd (MatchGlobToken p po c)) # glob_items p n"
          unfolding n_def by (rule items_token) (use tok nostar in auto)
        have n: "n \<le> length p" using MatchGlobToken_bounds [of po p] tok by (simp add: n_def)
        have ro: "retry_ok p (vo + 1) n r"
        proof (cases r)
          case (Some rr)
          obtain rp rv where rr: "rr = (rp, rv)" by fastforce
          then obtain fs where fs: "glob_items p rp = map Some fs @ glob_items p po" "vo = rv + length fs"
            "rp \<le> length p" using pr(3) Some by (auto simp: retry_ok_def)
          show ?thesis unfolding retry_ok_def Some rr
            using fs it by (simp, intro exI [of _ "fs @ [\<lambda>c. snd (MatchGlobToken p po c)]"], simp)
        qed (simp add: retry_ok_def)
        have "MatchesGlob_loop v p vo po r = MatchesGlob_loop v p (vo + 1) n r"
          using vo nostar tok by (subst MatchesGlob_loop.simps) (simp add: n_def)
        also have "\<dots> \<longleftrightarrow> items_match (glob_items p n) (drop (vo + 1) v) \<or> retry_match v p r"
          using "1.IH"(2) [OF vo nostar tok] vo n ro by (simp add: n_def)
        finally show ?thesis using tok by (simp add: it dv)
      next
        case notok: False
        have no: "\<not> items_match (glob_items p po) (drop vo v)"
        proof (cases "po < length p")
          case True
          then show ?thesis using items_token [of po p "v ! vo"] nostar notok by (auto simp: dv)
        qed (simp add: items_end dv)
        show ?thesis
        proof (cases r)
          case None
          then show ?thesis using vo nostar notok no
            by (subst MatchesGlob_loop.simps) (auto simp: retry_match_def)
        next
          case (Some rr)
          obtain rp rv where rr: "rr = (rp, rv)" by fastforce
          have rv: "rv \<le> vo" "rp \<le> length p" using pr(3) Some rr by (auto simp: retry_ok_def)
          have "MatchesGlob_loop v p vo po r = MatchesGlob_loop v p (rv + 1) rp (Some (rp, rv + 1))"
            using vo nostar notok Some rr by (subst MatchesGlob_loop.simps) auto
          also have "\<dots> \<longleftrightarrow> items_match (glob_items p rp) (drop (rv + 1) v) \<or> retry_match v p (Some (rp, rv + 1))"
            using "1.IH"(3) [OF vo nostar notok Some rr [symmetric]] rv vo by (simp add: retry_ok_def)
          also have "\<dots> \<longleftrightarrow> retry_match v p r"
            unfolding retry_match_def Some rr
            using ex_from [of "rv + 1" "length v" "\<lambda>k. items_match (glob_items p rp) (drop k v)"] rv vo
            by (simp add: Suc_le_eq)
          finally show ?thesis using no by simp
        qed
      qed
    qed
  qed
qed

section \<open>Splitting\<close>

lemma Split_loop_join:
  assumes "d \<noteq> []" "start \<le> length s"
  shows "\<exists>parts. Split_loop s d start res = res @ parts \<and>
    concat (map (\<lambda>x. x @ d) parts) \<in> {drop start s, drop start s @ d} \<and>
    SplitTokenCount_loop s d start count = count + length parts"
  using assms
proof (induction s d start res arbitrary: count rule: Split_loop.induct)
  case (1 s d start res)
  show ?case
  proof (cases "find_delimiter s d start")
    case None
    then have "Split_loop s d start res = res @ (if start < length s then [drop start s] else [])"
      "SplitTokenCount_loop s d start count = count + (if start < length s then 1 else 0)"
      using "1.prems"(1) by (simp_all add: Split_loop.simps SplitTokenCount_loop.simps)
    then show ?thesis using "1.prems"(2) by (cases "start < length s") auto
  next
    case (Some e)
    note b = find_delimiter_bounds [OF Some]
    let ?x = "take (e - start) (drop start s)"
    have e: "Split_loop s d start res = Split_loop s d (e + length d) (res @ [?x])"
      "SplitTokenCount_loop s d start count = SplitTokenCount_loop s d (e + length d) (count + 1)"
      using Some "1.prems"(1) by (simp_all add: Split_loop.simps [of s d start] SplitTokenCount_loop.simps [of s d start])
    obtain parts where p: "Split_loop s d (e + length d) (res @ [?x]) = (res @ [?x]) @ parts"
      "concat (map (\<lambda>x. x @ d) parts) \<in> {drop (e + length d) s, drop (e + length d) s @ d}"
      "SplitTokenCount_loop s d (e + length d) (count + 1) = count + 1 + length parts"
      using "1.IH" [OF "1.prems"(1) Some "1.prems"(1), of "count + 1"] b by auto
    have "drop start s = ?x @ drop e s" using b
      by (metis append_take_drop_id drop_drop le_add_diff_inverse2)
    also have "drop e s = d @ drop (e + length d) s" using b
      by (metis append_take_drop_id drop_drop add.commute)
    finally have "concat (map (\<lambda>x. x @ d) (?x # parts)) \<in> {drop start s, drop start s @ d}"
      using p(2) by auto
    then show ?thesis using e p(1,3) by (intro exI [of _ "?x # parts"]) simp
  qed
qed

section \<open>Properties\<close>


text \<open>
  Splitting loses nothing: with a delimiter that is not empty, the parts, each followed by the
  delimiter, are the text or the text and one more delimiter; their number is the one that
  \<open>SplitTokenCount\<close> computes for the reservation.
\<close>

theorem Split_join:
  assumes "delimiter \<noteq> []"
  shows "concat (map (\<lambda>x. x @ delimiter) (Split s delimiter)) \<in> {s, s @ delimiter} \<and>
    length (Split s delimiter) = SplitTokenCount s delimiter"
  using Split_loop_join [OF assms le0, of s "[]" 0] by (auto simp: Split_def SplitTokenCount_def)

theorem Split_join_witness:
  "concat (map (\<lambda>x. x @ '','') (Split ''a,b'' '','')) \<in> {''a,b'', ''a,b,''} \<and>
    length (Split ''a,b'' '','') = SplitTokenCount ''a,b'' '',''"
  using Split_join [of "'',''" "''a,b''"] by simp

end
