(* ===== verification/Commands.thy ===== *)
theory Commands
  imports Strings "HOL-Library.List_Lexorder"
begin

text \<open>
  The command table (\<open>src/server/commands/command.cpp\<close>, \<open>command.h\<close>): names without regard to case,
  arities and key positions, and the lookup by binary search.  A callback is the name of the
  handler function.  Characters are compared as \<open>char\<close>, which is signed on the platforms the
  server is built for.
\<close>

section \<open>Definitions\<close>

datatype CommandAccess = kReadOnly | kWrite | kAdmin | kConnection

record CommandArity =
  arity_min :: nat
  arity_max :: nat

definition Accepts :: "CommandArity \<Rightarrow> nat \<Rightarrow> bool" where
  "Accepts a count = (count \<ge> arity_min a \<and> count \<le> arity_max a)"

record KeySpec =
  first_key :: nat
  last_key :: nat
  key_step :: nat

definition HasKeys :: "KeySpec \<Rightarrow> bool" where
  "HasKeys k = (key_step k \<noteq> 0)"

record command =
  cmd_name :: string
  cmd_callback :: string
  cmd_arity :: CommandArity
  cmd_access :: CommandAccess
  cmd_keys :: KeySpec

definition FixedArity :: "nat \<Rightarrow> CommandArity" where
  "FixedArity count = \<lparr>arity_min = count, arity_max = count\<rparr>"

definition VariableArity :: "nat \<Rightarrow> CommandArity" where
  "VariableArity minimum = \<lparr>arity_min = minimum, arity_max = SIZE_MAX\<rparr>"

definition NoKeys :: KeySpec where
  "NoKeys = \<lparr>first_key = 0, last_key = 0, key_step = 0\<rparr>"

definition OneKey :: KeySpec where
  "OneKey = \<lparr>first_key = 0, last_key = 0, key_step = 1\<rparr>"

definition AllKeys :: "nat \<Rightarrow> nat \<Rightarrow> KeySpec" where
  "AllKeys first_pos step = \<lparr>first_key = first_pos, last_key = SIZE_MAX, key_step = step\<rparr>"

definition ReadCommand :: "string \<Rightarrow> string \<Rightarrow> CommandArity \<Rightarrow> KeySpec \<Rightarrow> command" where
  "ReadCommand name callback arity keys = \<lparr>cmd_name = name, cmd_callback = callback, cmd_arity = arity,
     cmd_access = kReadOnly, cmd_keys = keys\<rparr>"

definition WriteCommand :: "string \<Rightarrow> string \<Rightarrow> CommandArity \<Rightarrow> KeySpec \<Rightarrow> command" where
  "WriteCommand name callback arity keys = \<lparr>cmd_name = name, cmd_callback = callback, cmd_arity = arity,
     cmd_access = kWrite, cmd_keys = keys\<rparr>"

definition AdminCommand :: "string \<Rightarrow> string \<Rightarrow> CommandArity \<Rightarrow> command" where
  "AdminCommand name callback arity = \<lparr>cmd_name = name, cmd_callback = callback, cmd_arity = arity,
     cmd_access = kAdmin, cmd_keys = NoKeys\<rparr>"

definition ConnectionCommand :: "string \<Rightarrow> string \<Rightarrow> CommandArity \<Rightarrow> command" where
  "ConnectionCommand name callback arity = \<lparr>cmd_name = name, cmd_callback = callback, cmd_arity = arity,
     cmd_access = kConnection, cmd_keys = NoKeys\<rparr>"

definition FoldUpper :: "char \<Rightarrow> char" where
  "FoldUpper c =
     (if 97 \<le> (of_char c :: nat) \<and> (of_char c :: nat) \<le> 122 then char_of ((of_char c :: nat) - 32) else c)"

definition signed_char :: "char \<Rightarrow> int" where
  "signed_char c = (let n = of_char c :: nat in if n < 128 then int n else int n - 256)"

fun CompareIgnoreCase :: "string \<Rightarrow> string \<Rightarrow> int" where
  "CompareIgnoreCase (a # left) (b # right) =
     (if FoldUpper a \<noteq> FoldUpper b
      then if signed_char (FoldUpper a) < signed_char (FoldUpper b) then -1 else 1
      else CompareIgnoreCase left right)"
| "CompareIgnoreCase [] [] = 0"
| "CompareIgnoreCase [] right = -1"
| "CompareIgnoreCase left [] = 1"

definition kCommandTable :: "command list" where
  "kCommandTable =
    [WriteCommand ''APPEND'' ''strings::HandleAppend'' (FixedArity 2) OneKey,
     AdminCommand ''BGREWRITEAOF'' ''persistence::HandleBgRewriteAof'' (FixedArity 0),
     ReadCommand ''DBSIZE'' ''key::HandleDbSize'' (FixedArity 0) NoKeys,
     WriteCommand ''DECR'' ''strings::HandleDecr'' (FixedArity 1) OneKey,
     WriteCommand ''DEL'' ''key::HandleDel'' (VariableArity 1) (AllKeys 0 1),
     ConnectionCommand ''ECHO'' ''session::HandleEcho'' (FixedArity 1),
     ReadCommand ''EXISTS'' ''key::HandleExists'' (VariableArity 1) (AllKeys 0 1),
     WriteCommand ''EXPIRE'' ''key::HandleExpire'' (FixedArity 2) OneKey,
     WriteCommand ''FLUSHDB'' ''key::HandleFlushDb'' (FixedArity 0) NoKeys,
     ReadCommand ''GET'' ''strings::HandleGet'' (FixedArity 1) OneKey,
     WriteCommand ''HDEL'' ''hashes::HandleHDel'' (VariableArity 2) OneKey,
     ConnectionCommand ''HELLO'' ''session::HandleHello'' \<lparr>arity_min = 0, arity_max = 1\<rparr>,
     ReadCommand ''HEXISTS'' ''hashes::HandleHExists'' (FixedArity 2) OneKey,
     ReadCommand ''HGET'' ''hashes::HandleHGet'' (FixedArity 2) OneKey,
     ReadCommand ''HGETALL'' ''hashes::HandleHGetAll'' (FixedArity 1) OneKey,
     WriteCommand ''HINCRBY'' ''hashes::HandleHIncrBy'' (FixedArity 3) OneKey,
     ReadCommand ''HKEYS'' ''hashes::HandleHKeys'' (FixedArity 1) OneKey,
     ReadCommand ''HLEN'' ''hashes::HandleHLen'' (FixedArity 1) OneKey,
     ReadCommand ''HMGET'' ''hashes::HandleHMGet'' (VariableArity 2) OneKey,
     WriteCommand ''HSET'' ''hashes::HandleHSet'' (VariableArity 3) OneKey,
     ReadCommand ''HVALS'' ''hashes::HandleHVals'' (FixedArity 1) OneKey,
     WriteCommand ''INCR'' ''strings::HandleIncr'' (FixedArity 1) OneKey,
     AdminCommand ''INFO'' ''persistence::HandleInfo'' \<lparr>arity_min = 0, arity_max = 1\<rparr>,
     ReadCommand ''LINDEX'' ''lists::HandleLIndex'' (FixedArity 2) OneKey,
     ReadCommand ''LLEN'' ''lists::HandleLLen'' (FixedArity 1) OneKey,
     WriteCommand ''LPOP'' ''lists::HandleLPop'' (FixedArity 1) OneKey,
     WriteCommand ''LPUSH'' ''lists::HandleLPush'' (VariableArity 2) OneKey,
     ReadCommand ''LRANGE'' ''lists::HandleLRange'' (FixedArity 3) OneKey,
     WriteCommand ''LREM'' ''lists::HandleLRem'' (FixedArity 3) OneKey,
     WriteCommand ''LSET'' ''lists::HandleLSet'' (FixedArity 3) OneKey,
     WriteCommand ''LTRIM'' ''lists::HandleLTrim'' (FixedArity 3) OneKey,
     ReadCommand ''MGET'' ''strings::HandleMGet'' (VariableArity 1) (AllKeys 0 1),
     WriteCommand ''MSET'' ''strings::HandleMSet'' (VariableArity 2) (AllKeys 0 2),
     WriteCommand ''PERSIST'' ''key::HandlePersist'' (FixedArity 1) OneKey,
     WriteCommand ''PEXPIRE'' ''key::HandlePExpire'' (FixedArity 2) OneKey,
     WriteCommand ''PEXPIREAT'' ''key::HandlePExpireAt'' (FixedArity 2) OneKey,
     ConnectionCommand ''PING'' ''session::HandlePing'' \<lparr>arity_min = 0, arity_max = 1\<rparr>,
     ReadCommand ''PTTL'' ''key::HandlePTtl'' (FixedArity 1) OneKey,
     ConnectionCommand ''QUIT'' ''session::HandleQuit'' (FixedArity 0),
     WriteCommand ''RENAME'' ''key::HandleRename'' (FixedArity 2) \<lparr>first_key = 0, last_key = 1, key_step = 1\<rparr>,
     WriteCommand ''RPOP'' ''lists::HandleRPop'' (FixedArity 1) OneKey,
     WriteCommand ''RPUSH'' ''lists::HandleRPush'' (VariableArity 2) OneKey,
     WriteCommand ''SADD'' ''sets::HandleSAdd'' (VariableArity 2) OneKey,
     ReadCommand ''SCAN'' ''key::HandleScan'' (VariableArity 1) NoKeys,
     ReadCommand ''SCARD'' ''sets::HandleSCard'' (FixedArity 1) OneKey,
     ReadCommand ''SDIFF'' ''sets::HandleSDiff'' (VariableArity 1) (AllKeys 0 1),
     WriteCommand ''SET'' ''strings::HandleSet'' (VariableArity 2) OneKey,
     ReadCommand ''SINTER'' ''sets::HandleSInter'' (VariableArity 1) (AllKeys 0 1),
     ReadCommand ''SISMEMBER'' ''sets::HandleSIsMember'' (FixedArity 2) OneKey,
     ReadCommand ''SMEMBERS'' ''sets::HandleSMembers'' (FixedArity 1) OneKey,
     WriteCommand ''SREM'' ''sets::HandleSRem'' (VariableArity 2) OneKey,
     ReadCommand ''SUNION'' ''sets::HandleSUnion'' (VariableArity 1) (AllKeys 0 1),
     ReadCommand ''TTL'' ''key::HandleTtl'' (FixedArity 1) OneKey,
     ReadCommand ''TYPE'' ''key::HandleType'' (FixedArity 1) OneKey,
     WriteCommand ''UNLINK'' ''key::HandleUnlink'' (VariableArity 1) (AllKeys 0 1),
     WriteCommand ''ZADD'' ''zsets::HandleZAdd'' (VariableArity 3) OneKey,
     ReadCommand ''ZCARD'' ''zsets::HandleZCard'' (FixedArity 1) OneKey,
     ReadCommand ''ZCOUNT'' ''zsets::HandleZCount'' (FixedArity 3) OneKey,
     ReadCommand ''ZRANGE'' ''zsets::HandleZRange'' (VariableArity 3) OneKey,
     ReadCommand ''ZRANGEBYSCORE'' ''zsets::HandleZRangeByScore'' (VariableArity 3) OneKey,
     ReadCommand ''ZRANK'' ''zsets::HandleZRank'' (FixedArity 2) OneKey,
     WriteCommand ''ZREM'' ''zsets::HandleZRem'' (VariableArity 2) OneKey,
     ReadCommand ''ZREVRANGE'' ''zsets::HandleZRevRange'' (VariableArity 3) OneKey,
     ReadCommand ''ZSCORE'' ''zsets::HandleZScore'' (FixedArity 2) OneKey]"

fun CommandTableIsSorted :: "command list \<Rightarrow> bool" where
  "CommandTableIsSorted (a # b # rest) =
     (if CompareIgnoreCase (cmd_name a) (cmd_name b) \<ge> 0 then False else CommandTableIsSorted (b # rest))"
| "CommandTableIsSorted _ = True"

text \<open>\<open>std::lower_bound\<close>: the binary search for the first element that is not below the candidate.\<close>

function lower_bound :: "('a \<Rightarrow> bool) \<Rightarrow> 'a list \<Rightarrow> nat \<Rightarrow> nat \<Rightarrow> nat" where
  "lower_bound below xs lo len =
     (if len > 0 then
        let half = len div 2; mid = lo + half
        in if below (xs ! mid) then lower_bound below xs (mid + 1) (len - half - 1)
           else lower_bound below xs lo half
      else lo)"
  by auto
termination
  by (relation "measure (\<lambda>(p, xs, lo, len). len)") auto

declare lower_bound.simps [simp del]

definition Find :: "string \<Rightarrow> command option" where
  "Find name =
     (let i = lower_bound (\<lambda>c. CompareIgnoreCase (cmd_name c) name < 0) kCommandTable 0 (length kCommandTable)
      in if i \<noteq> length kCommandTable \<and> EqualsIgnoreCase name (cmd_name (kCommandTable ! i))
         then Some (kCommandTable ! i) else None)"

section \<open>The order of names\<close>

definition name_key :: "string \<Rightarrow> int list" where
  "name_key s = map (\<lambda>c. signed_char (FoldUpper c)) s"

lemma signed_char_inj: "signed_char a = signed_char b \<longleftrightarrow> a = b"
proof -
  define x y :: nat where "x = of_char a" and "y = of_char b"
  have lt: "x < 256" "y < 256" unfolding x_def y_def by (rule nat_of_char_less_256)+
  have "signed_char a = signed_char b \<longleftrightarrow> x = y"
    unfolding signed_char_def Let_def x_def [symmetric] y_def [symmetric] using lt by auto
  then show ?thesis by (simp add: x_def y_def)
qed

lemma CompareIgnoreCase_key:
  "CompareIgnoreCase a b = (if name_key a < name_key b then -1 else if name_key a = name_key b then 0 else 1)"
  by (induction a b rule: CompareIgnoreCase.induct) (auto simp: name_key_def signed_char_inj)

lemma of_char_folds:
  "(of_char (FoldUpper c) :: nat) =
     (if 97 \<le> (of_char c :: nat) \<and> (of_char c :: nat) \<le> 122 then of_char c - 32 else of_char c)"
  "(of_char (FoldAsciiCase c) :: nat) =
     (if 65 \<le> (of_char c :: nat) \<and> (of_char c :: nat) \<le> 90 then of_char c + 32 else of_char c)"
  by (auto simp: FoldUpper_def FoldAsciiCase_def)

lemma fold_upper_lower: "FoldUpper a = FoldUpper b \<longleftrightarrow> FoldAsciiCase a = FoldAsciiCase b"
proof -
  have e: "c = d \<longleftrightarrow> (of_char c :: nat) = of_char d" for c d :: char by simp
  define x y :: nat where "x = of_char a" and "y = of_char b"
  show ?thesis unfolding e of_char_folds x_def [symmetric] y_def [symmetric] by auto
qed

lemma EqualsIgnoreCase_key: "EqualsIgnoreCase a b \<longleftrightarrow> name_key a = name_key b"
proof (cases "length a = length b")
  case True
  then have "EqualsIgnoreCase_loop a b \<longleftrightarrow> name_key a = name_key b"
    by (induction a b rule: list_induct2) (auto simp: name_key_def signed_char_inj fold_upper_lower)
  then show ?thesis using True by (simp add: EqualsIgnoreCase_def)
next
  case False
  then have "name_key a \<noteq> name_key b" unfolding name_key_def by (metis length_map)
  then show ?thesis using False by (simp add: EqualsIgnoreCase_def)
qed

lemma table_sorted_keys:
  "CommandTableIsSorted cs \<Longrightarrow> sorted_wrt (<) (map (\<lambda>c. name_key (cmd_name c)) cs)"
proof (induction cs rule: CommandTableIsSorted.induct)
  case (1 a b rest)
  then have lt: "name_key (cmd_name a) < name_key (cmd_name b)"
    and rest: "sorted_wrt (<) (map (\<lambda>c. name_key (cmd_name c)) (b # rest))"
    by (auto simp: CompareIgnoreCase_key split: if_splits)
  then show ?case by (auto intro: less_trans)
qed simp_all

section \<open>The lookup\<close>

definition splits_at :: "('a \<Rightarrow> bool) \<Rightarrow> 'a list \<Rightarrow> nat \<Rightarrow> bool" where
  "splits_at below xs m \<longleftrightarrow> m \<le> length xs \<and> (\<forall>i<m. below (xs ! i)) \<and>
     (\<forall>i\<ge>m. i < length xs \<longrightarrow> \<not> below (xs ! i))"

lemma lower_bound_step:
  assumes "n > 0"
  shows "lower_bound below xs lo n = (if below (xs ! (lo + n div 2))
    then lower_bound below xs (lo + n div 2 + 1) (n - n div 2 - 1) else lower_bound below xs lo (n div 2))"
  using assms by (subst lower_bound.simps) (simp add: Let_def)

lemma lower_bound_partition:
  assumes mono: "\<And>i j. i \<le> j \<Longrightarrow> j < length xs \<Longrightarrow> below (xs ! j) \<Longrightarrow> below (xs ! i)"
    and "lo + n \<le> length xs" "\<forall>i<lo. below (xs ! i)" "\<forall>i\<ge>lo + n. i < length xs \<longrightarrow> \<not> below (xs ! i)"
  shows "splits_at below xs (lower_bound below xs lo n)"
  using assms(2-)
proof (induction n arbitrary: lo rule: less_induct)
  case (less n)
  show ?case
  proof (cases "n > 0")
    case False
    then have "lower_bound below xs lo n = lo" by (subst lower_bound.simps) simp
    then show ?thesis using less.prems False by (simp add: splits_at_def)
  next
    case True
    obtain mid where mid: "mid = lo + n div 2" by blast
    have half: "n div 2 < n" using True by simp
    have len: "mid < length xs" "mid + 1 + (n - n div 2 - 1) = lo + n" "n - n div 2 - 1 < n"
      using half less.prems(1) by (simp_all add: mid)
    show ?thesis
    proof (cases "below (xs ! mid)")
      case b: True
      have "\<forall>i<mid + 1. below (xs ! i)" using mono [OF _ len(1) b] by (simp add: less_Suc_eq_le)
      then have "splits_at below xs (lower_bound below xs (mid + 1) (n - n div 2 - 1))"
        using less.IH [OF len(3), of "mid + 1"] less.prems(1,3) unfolding len(2) by blast
      then show ?thesis using b lower_bound_step [OF True, of below xs lo] by (simp add: mid)
    next
      case b: False
      have "\<forall>i\<ge>mid. i < length xs \<longrightarrow> \<not> below (xs ! i)" using mono [of mid] b by blast
      then have "splits_at below xs (lower_bound below xs lo (n div 2))"
        using less.IH [OF half, of lo] less.prems(2) len(1) unfolding mid [symmetric] by simp
      then show ?thesis using b lower_bound_step [OF True, of below xs lo] by (simp add: mid)
    qed
  qed
qed

lemmas command_row_defs = ReadCommand_def WriteCommand_def AdminCommand_def ConnectionCommand_def

lemma kCommandTable_sorted: "CommandTableIsSorted kCommandTable"
  by (simp add: kCommandTable_def command_row_defs FoldUpper_def signed_char_def)

lemma table_order:
  assumes "i < j" "j < length kCommandTable"
  shows "name_key (cmd_name (kCommandTable ! i)) < name_key (cmd_name (kCommandTable ! j))"
  using sorted_wrt_nth_less [OF table_sorted_keys [OF kCommandTable_sorted], of i j] assms by simp

lemma Find_iff: "Find name = Some c \<longleftrightarrow> c \<in> set kCommandTable \<and> EqualsIgnoreCase name (cmd_name c)"
proof -
  let ?k = "\<lambda>i. name_key (cmd_name (kCommandTable ! i))" and ?n = "length kCommandTable"
  define below where "below = (\<lambda>c::command. CompareIgnoreCase (cmd_name c) name < 0)"
  define m where "m = lower_bound below kCommandTable 0 ?n"
  have bl: "below (kCommandTable ! i) \<longleftrightarrow> ?k i < name_key name" for i
    by (simp add: below_def CompareIgnoreCase_key)
  have mono: "below (kCommandTable ! i)" if "i \<le> j" "j < ?n" "below (kCommandTable ! j)" for i j
    using that table_order [of i j] unfolding bl by (cases "i = j") auto
  have m: "m \<le> ?n" "\<forall>i<m. below (kCommandTable ! i)" "\<forall>i\<ge>m. i < ?n \<longrightarrow> \<not> below (kCommandTable ! i)"
    using lower_bound_partition [where below = below and xs = kCommandTable and lo = 0 and n = ?n, OF mono]
    unfolding m_def [symmetric] by (simp_all add: splits_at_def)
  have fnd: "Find name = (if m \<noteq> ?n \<and> name_key name = ?k m then Some (kCommandTable ! m) else None)"
    unfolding Find_def Let_def EqualsIgnoreCase_key by (simp only: m_def below_def)
  show ?thesis
  proof
    assume "Find name = Some c"
    then have "m < ?n" "c = kCommandTable ! m" "name_key name = ?k m"
      using fnd m(1) by (auto split: if_splits)
    then show "c \<in> set kCommandTable \<and> EqualsIgnoreCase name (cmd_name c)"
      by (simp add: EqualsIgnoreCase_key)
  next
    assume "c \<in> set kCommandTable \<and> EqualsIgnoreCase name (cmd_name c)"
    then obtain j where j: "j < ?n" "c = kCommandTable ! j" "name_key name = ?k j"
      by (auto simp: in_set_conv_nth EqualsIgnoreCase_key)
    have "\<not> j < m" using m(2) bl [of j] j(3) by auto
    moreover have "\<not> m < j" using m(3) bl [of m] table_order [of m j] j by auto
    ultimately have "m = j" by simp
    then show "Find name = Some c" using fnd j by simp
  qed
qed

text \<open>
  A command row is well-formed when its arity is a range, every argument list the arity accepts
  contains the first key, and the last key where it is a fixed position, and a command without keys
  does not step over arguments.
\<close>

definition wf_command :: "command \<Rightarrow> bool" where
  "wf_command c = (let a = cmd_arity c; k = cmd_keys c in
     arity_min a \<le> arity_max a \<and>
     (if HasKeys k
      then first_key k < arity_min a \<and> first_key k \<le> last_key k \<and> (last_key k = SIZE_MAX \<or> last_key k < arity_min a)
      else first_key k = 0 \<and> last_key k = 0))"

lemmas command_defs = command_row_defs FixedArity_def VariableArity_def NoKeys_def OneKey_def AllKeys_def

section \<open>Properties\<close>

text \<open>
  C20: the binary search finds a command exactly when the table has one of that name, without
  regard to case; it depends on the order of the table, which is checked.
\<close>

theorem Find_exact:
  "CommandTableIsSorted kCommandTable \<and>
   (Find name = Some c \<longleftrightarrow> c \<in> set kCommandTable \<and> EqualsIgnoreCase name (cmd_name c))"
  using kCommandTable_sorted Find_iff by blast


end
