(* ===== verification/Client.thy ===== *)
theory Client
  imports Buffers_Refinement Resp_Correct Commands
begin

text \<open>
  A client connection (\<open>src/server/client.cpp\<close>, \<open>src/server/client.h\<close>): the query buffer, the
  parser, the command table and the reply buffer put together.

  What a command handler does is an argument: a handler is the list of calls it makes on its client
  and its effect on the rest of the server (the key space and the append-only file), a value of the
  type \<open>'w\<close>.  The handlers of \<open>src/server/commands\<close> use no other operation that changes a client
  and ignore the results of \<open>AddReply\<close>.  The socket is an argument as well: the chunks a \<open>read\<close>
  returns and the number of bytes a \<open>write\<close> takes.  The views in \<open>args_\<close> are the substrings they
  denote; the query buffer is not compacted while they are in use.
\<close>

section \<open>Definitions\<close>

datatype ClientStatus = kOk | kError

datatype RequestStatus = kReady | kIncompleteRequest | kRejected | kProtocolError

datatype ConnectionState =
  kConnect | kConnecting | kAccepting | kHandshake | kConnected | kConnError | kClosed

record OutputBufferLimits =
  resume_bytes :: nat
  soft_bytes :: nat
  hard_bytes :: nat

record client =
  conn_state :: "ConnectionState option"
  cl_command :: "command option"
  cl_args :: "string list"
  query_buf :: dynamic_buffer
  reply_buf :: reply_buffer
  output_limits :: OutputBufferLimits
  protocol :: ProtocolVersion
  reads_paused :: bool
  close_after_reply :: bool
  modified :: bool
  discard_replies :: bool
  reply_error :: bool

definition default_limits :: OutputBufferLimits where
  "default_limits = \<lparr>resume_bytes = 4 * 1024 * 1024, soft_bytes = 8 * 1024 * 1024,
     hard_bytes = 64 * 1024 * 1024\<rparr>"

definition Client_new :: "ConnectionState option \<Rightarrow> OutputBufferLimits \<Rightarrow> client" where
  "Client_new state limits = \<lparr>conn_state = state, cl_command = None, cl_args = [],
     query_buf = DynamicBuffer_new, reply_buf = ReplyBuffer_new, output_limits = limits,
     protocol = kResp2, reads_paused = False, close_after_reply = False, modified = False,
     discard_replies = False, reply_error = False\<rparr>"

text \<open>The client that replays the append-only file has no connection: the pointer is null.\<close>

definition Client_replay :: client where
  "Client_replay = (Client_new None default_limits)\<lparr>discard_replies := True\<rparr>"

definition PendingReplyBytes :: "client \<Rightarrow> nat" where
  "PendingReplyBytes c = rb_pending (reply_buf c)"

definition HasPendingReplies :: "client \<Rightarrow> bool" where
  "HasPendingReplies c = (\<not> ReplyBuffer_Empty (reply_buf c))"

definition CanQueueReply :: "client \<Rightarrow> nat \<Rightarrow> bool \<times> client" where
  "CanQueueReply c n =
     (let pending = PendingReplyBytes c; hard = hard_bytes (output_limits c) in
      if n \<le> hard \<and> pending \<le> hard - n then (True, c)
      else (False, c\<lparr>close_after_reply := True\<rparr>))"

definition is_error_reply :: "string \<Rightarrow> bool" where
  "is_error_reply s = (s \<noteq> [] \<and> hd s = CHR ''-'')"

definition AddReply_view :: "client \<Rightarrow> string \<Rightarrow> (nat \<times> client) res" where
  "AddReply_view c s =
     (if discard_replies c
      then Inr (length s, c\<lparr>reply_error := reply_error c \<or> is_error_reply s\<rparr>)
      else let (ok, c) = CanQueueReply c (length s) in
        if \<not> ok then Inr (0, c)
        else bindE (ReplyBuffer_Append (reply_buf c) s) (\<lambda>(n, b). Inr (n, c\<lparr>reply_buf := b\<rparr>)))"

text \<open>\<open>cap\<close> is the capacity of the string that is moved in.\<close>

definition AddReply_string :: "client \<Rightarrow> string \<Rightarrow> nat \<Rightarrow> (nat \<times> client) res" where
  "AddReply_string c s cap =
     (if discard_replies c
      then Inr (length s, c\<lparr>reply_error := reply_error c \<or> is_error_reply s\<rparr>)
      else let (ok, c) = CanQueueReply c (length s) in
        if \<not> ok then Inr (0, c)
        else bindE (ReplyBuffer_Append_string (reply_buf c) s cap)
          (\<lambda>(n, b). Inr (n, c\<lparr>reply_buf := b\<rparr>)))"

definition AddReply_pair :: "client \<Rightarrow> string \<Rightarrow> nat \<Rightarrow> string \<Rightarrow> nat \<Rightarrow> (nat \<times> client) res" where
  "AddReply_pair c header header_cap body body_cap =
     (if length body > SIZE_MAX - length header then Inr (0, c\<lparr>close_after_reply := True\<rparr>)
      else let total_size = length header + length body in
        if discard_replies c then Inr (total_size, c)
        else let (ok, c) = CanQueueReply c total_size in
          if \<not> ok then Inr (0, c)
          else bindE (ReplyBuffer_Append_string (reply_buf c) header header_cap) (\<lambda>(header_size, b).
            bindE (ReplyBuffer_Append_string b body body_cap) (\<lambda>(body_size, b).
              Inr (header_size + body_size, c\<lparr>reply_buf := b\<rparr>))))"

definition ShouldPauseReads :: "client \<Rightarrow> bool" where
  "ShouldPauseReads c = (\<not> reads_paused c \<and> (close_after_reply c \<or>
     (soft_bytes (output_limits c) > 0 \<and> PendingReplyBytes c \<ge> soft_bytes (output_limits c))))"

definition ShouldResumeReads :: "client \<Rightarrow> bool" where
  "ShouldResumeReads c = (reads_paused c \<and> \<not> close_after_reply c \<and>
     PendingReplyBytes c \<le> resume_bytes (output_limits c))"

definition kMaxQueryBufferSize :: nat where
  "kMaxQueryBufferSize = 64 * 1024 * 1024"

text \<open>
  The reads of one call: the chunks, each of at least one byte, and then the result that is not
  positive with the state it leaves the connection in.
\<close>

fun ReadQuery_loop :: "string list \<Rightarrow> int \<times> ConnectionState \<Rightarrow> nat \<Rightarrow> client \<Rightarrow> (int \<times> client) res" where
  "ReadQuery_loop [] (nread, state) total_read c =
     (let c = c\<lparr>conn_state := Some state\<rparr> in
      if nread = 0 then Inr (int total_read, c)
      else if conn_state c \<noteq> Some kConnected then Inr (-1, c)
      else Inr (int total_read, c))"
| "ReadQuery_loop (chunk # chunks) last_read total_read c =
     (if db_size (query_buf c) > kMaxQueryBufferSize \<or>
         length chunk > kMaxQueryBufferSize - db_size (query_buf c)
      then Inr (-1, c\<lparr>conn_state := Some kConnError\<rparr>)
      else bindE (DynamicBuffer_Append (query_buf c) (Some chunk) (length chunk)) (\<lambda>b.
        ReadQuery_loop chunks last_read (total_read + length chunk) (c\<lparr>query_buf := b\<rparr>)))"

definition ReadQuery :: "string list \<Rightarrow> int \<times> ConnectionState \<Rightarrow> client \<Rightarrow> (int \<times> client) res" where
  "ReadQuery chunks last_read c =
     (if conn_state c = None then Inl Null_deref else ReadQuery_loop chunks last_read 0 c)"

text \<open>\<open>Write\<close> and \<open>WriteVector\<close> return the number of bytes the socket took, or a negative number.\<close>

definition SendBufferReply :: "(string \<Rightarrow> int) \<Rightarrow> client \<Rightarrow> (int \<times> client) res" where
  "SendBufferReply Write c =
     (if conn_state c = None then Inl Null_deref else
     bindE (rd_range (rb_buf (reply_buf c)) (rb_sent (reply_buf c)) (UnsentLength (reply_buf c))) (\<lambda>bytes.
       let nwritten = Write bytes in
       if nwritten < 0 then Inr (-1, c)
       else Inr (nwritten, c\<lparr>reply_buf := ReplyBuffer_Consume (reply_buf c) (nat nwritten)\<rparr>)))"

definition SendListReply :: "(string list \<Rightarrow> int) \<Rightarrow> client \<Rightarrow> (int \<times> client) res" where
  "SendListReply WriteVector c =
     (if conn_state c = None then Inl Null_deref else
     bindE (FillBlocks (reply_buf c)) (\<lambda>reply_blocks.
       let nwritten = WriteVector reply_blocks in
       if nwritten < 0 then Inr (-1, c)
       else Inr (nwritten, c\<lparr>reply_buf := ReplyBuffer_Consume (reply_buf c) (nat nwritten)\<rparr>)))"

definition SendReply :: "(string \<Rightarrow> int) \<Rightarrow> (string list \<Rightarrow> int) \<Rightarrow> client \<Rightarrow> (int \<times> client) res" where
  "SendReply Write WriteVector c =
     (if rb_node_count (reply_buf c) > 0 then SendListReply WriteVector c else SendBufferReply Write c)"

text \<open>The calls a handler makes on its client.\<close>

datatype client_call =
    Reply_view string
  | Reply_string string nat
  | Reply_pair string nat string nat
  | MarkModified
  | SetProtocol ProtocolVersion
  | CloseAfterReply

fun apply_call :: "client_call \<Rightarrow> client \<Rightarrow> client res" where
  "apply_call (Reply_view s) c = bindE (AddReply_view c s) (\<lambda>(_, c). Inr c)"
| "apply_call (Reply_string s cap) c = bindE (AddReply_string c s cap) (\<lambda>(_, c). Inr c)"
| "apply_call (Reply_pair h hcap b bcap) c = bindE (AddReply_pair c h hcap b bcap) (\<lambda>(_, c). Inr c)"
| "apply_call MarkModified c = Inr (c\<lparr>modified := True\<rparr>)"
| "apply_call (SetProtocol p) c = Inr (c\<lparr>protocol := p\<rparr>)"
| "apply_call CloseAfterReply c = Inr (c\<lparr>close_after_reply := True\<rparr>)"

fun apply_calls :: "client_call list \<Rightarrow> client \<Rightarrow> client res" where
  "apply_calls [] c = Inr c"
| "apply_calls (a # as) c = bindE (apply_call a c) (apply_calls as)"

text \<open>
  The surroundings of a client: the handlers by name, \<open>Aof::Append\<close> if there is an append-only file,
  \<open>Server::Stop\<close>, and the capacity of a reply the client builds itself.
\<close>

record 'w surroundings =
  handler :: "string \<Rightarrow> ProtocolVersion \<Rightarrow> string list \<Rightarrow> 'w \<Rightarrow> (client_call list \<times> 'w) res"
  aof_append :: "(string \<Rightarrow> string list \<Rightarrow> 'w \<Rightarrow> bool \<times> 'w) option"
  server_stop :: "'w \<Rightarrow> 'w"
  reply_capacity :: "string \<Rightarrow> nat"

definition reject :: "'w surroundings \<Rightarrow> client \<Rightarrow> string \<Rightarrow> (RequestStatus \<times> client) res" where
  "reject sur c reply =
     bindE (AddReply_string c reply (reply_capacity sur reply)) (\<lambda>(_, c). Inr (kRejected, c))"

definition ParseRequest :: "'w surroundings \<Rightarrow> client \<Rightarrow> (RequestStatus \<times> client) res" where
  "ParseRequest sur c =
     bindE (DynamicBuffer_View (query_buf c)) (\<lambda>view.
     bindE (Parse False view) (\<lambda>((status, consumed), name, args).
       let c = c\<lparr>cl_command := None, cl_args := args\<rparr> in
       if status = kIncomplete then Inr (kIncompleteRequest, c)
       else if status = kInvalid then
         let reply = FromError ''ERR Protocol error: invalid request'' in
         bindE (AddReply_string c reply (reply_capacity sur reply)) (\<lambda>(_, c).
           Inr (kProtocolError,
             c\<lparr>close_after_reply := True, query_buf := DynamicBuffer_Clear (query_buf c)\<rparr>))
       else let c = c\<lparr>query_buf := DynamicBuffer_Consume (query_buf c) consumed\<rparr> in
         if name = [] then reject sur c (FromError ''ERR empty command'')
         else case Find name of
           None \<Rightarrow> reject sur c (UnknownCommand name)
         | Some cmd \<Rightarrow>
             if \<not> Accepts (cmd_arity cmd) (length (cl_args c)) then reject sur c WrongNumberOfArguments
             else Inr (kReady, c\<lparr>cl_command := Some cmd\<rparr>)))"

definition run_callback :: "'w surroundings \<Rightarrow> command \<Rightarrow> 'w \<times> client \<Rightarrow> ('w \<times> client) res" where
  "run_callback sur cmd = (\<lambda>(w, c).
     bindE (handler sur (cmd_callback cmd) (protocol c) (cl_args c) w) (\<lambda>(calls, w).
     bindE (apply_calls calls c) (\<lambda>c. Inr (w, c))))"

definition ProcessCommand :: "'w surroundings \<Rightarrow> 'w \<times> client \<Rightarrow> (ClientStatus \<times> 'w \<times> client) res" where
  "ProcessCommand sur = (\<lambda>(w, c).
     case cl_command c of
       None \<Rightarrow> Inr (kError, w, c)
     | Some cmd \<Rightarrow>
         bindE (run_callback sur cmd (w, c\<lparr>modified := False\<rparr>)) (\<lambda>(w, c).
           case (if modified c then aof_append sur else None) of
             None \<Rightarrow> Inr (kOk, w, c)
           | Some aof \<Rightarrow>
               let (appended, w) = aof (cmd_name cmd) (cl_args c) w in
               if appended then Inr (kOk, w, c)
               else Inr (kError, server_stop sur w, c\<lparr>close_after_reply := True\<rparr>)))"

definition ExecuteForReplay ::
  "'w surroundings \<Rightarrow> command option \<Rightarrow> string list option \<Rightarrow> 'w \<times> client \<Rightarrow>
   (bool \<times> string list option \<times> 'w \<times> client) res" where
  "ExecuteForReplay sur cmd args = (\<lambda>(w, c).
     case (cmd, args) of
       (Some cmd, Some args) \<Rightarrow>
         let saved = cl_args c in
         bindE (run_callback sur cmd
             (w, c\<lparr>cl_command := Some cmd, cl_args := args, modified := False, reply_error := False\<rparr>))
           (\<lambda>(w, c). Inr (\<not> reply_error c, Some [], w, c\<lparr>cl_args := saved\<rparr>))
     | _ \<Rightarrow> Inr (False, args, w, c))"

section \<open>The loop over the requests\<close>

text \<open>What a reply leaves alone.\<close>

definition same_frame :: "client \<Rightarrow> client \<Rightarrow> bool" where
  "same_frame c c' \<longleftrightarrow> query_buf c' = query_buf c \<and> output_limits c' = output_limits c \<and>
     conn_state c' = conn_state c \<and> cl_command c' = cl_command c \<and> cl_args c' = cl_args c"

lemma same_frame_refl [simp]: "same_frame c c"
  by (simp add: same_frame_def)

lemma same_frame_trans: "same_frame a b \<Longrightarrow> same_frame b c \<Longrightarrow> same_frame a c"
  by (simp add: same_frame_def)

lemma AddReply_string_frame: "AddReply_string c s cap = Inr (n, c') \<Longrightarrow> same_frame c c'"
  by (auto simp: AddReply_string_def CanQueueReply_def same_frame_def Let_def bindE_eq_Inr split: if_splits)

lemma AddReply_view_frame: "AddReply_view c s = Inr (n, c') \<Longrightarrow> same_frame c c'"
  by (auto simp: AddReply_view_def CanQueueReply_def same_frame_def Let_def bindE_eq_Inr split: if_splits)

lemma AddReply_pair_frame: "AddReply_pair c h hc b bc = Inr (n, c') \<Longrightarrow> same_frame c c'"
  by (auto simp: AddReply_pair_def CanQueueReply_def same_frame_def Let_def bindE_eq_Inr split: if_splits)

lemma apply_call_frame: "apply_call a c = Inr c' \<Longrightarrow> same_frame c c'"
proof (cases a)
  case (Reply_view s)
  assume "apply_call a c = Inr c'"
  then show ?thesis using Reply_view AddReply_view_frame by (auto simp: bindE_eq_Inr)
next
  case (Reply_string s cap)
  assume "apply_call a c = Inr c'"
  then show ?thesis using Reply_string AddReply_string_frame by (auto simp: bindE_eq_Inr)
next
  case (Reply_pair h hc b bc)
  assume "apply_call a c = Inr c'"
  then show ?thesis using Reply_pair AddReply_pair_frame by (auto simp: bindE_eq_Inr)
qed (auto simp: same_frame_def)

lemma apply_calls_frame: "apply_calls as c = Inr c' \<Longrightarrow> same_frame c c'"
proof (induction as arbitrary: c)
  case (Cons a as)
  then obtain d where "apply_call a c = Inr d" "apply_calls as d = Inr c'" by (auto simp: bindE_eq_Inr)
  then show ?case using Cons.IH apply_call_frame same_frame_trans by blast
qed simp

lemma run_callback_frame: "run_callback sur cmd (w, c) = Inr (w', c') \<Longrightarrow> same_frame c c'"
  using apply_calls_frame by (auto simp: run_callback_def bindE_eq_Inr)

lemma ProcessCommand_query:
  assumes "ProcessCommand sur (w, c) = Inr (st, w', c')"
  shows "query_buf c' = query_buf c"
proof (cases "cl_command c")
  case (Some cmd)
  then obtain v d where d: "run_callback sur cmd (w, c\<lparr>modified := False\<rparr>) = Inr (v, d)"
    "query_buf c' = query_buf d"
    using assms by (auto simp: ProcessCommand_def bindE_eq_Inr Let_def case_prod_beta split: option.splits if_splits)
  then show ?thesis using run_callback_frame [OF d(1)] by (simp add: same_frame_def)
qed (use assms in \<open>simp add: ProcessCommand_def\<close>)

lemma UnreadSize_Consume: "UnreadSize (DynamicBuffer_Consume b k) = UnreadSize b - k"
  by (auto simp: DynamicBuffer_Consume_def UnreadSize_def)

lemma reject_query: "reject sur c s = Inr (st, c') \<Longrightarrow> query_buf c' = query_buf c"
  using AddReply_string_frame by (auto simp: reject_def bindE_eq_Inr same_frame_def)

text \<open>A request that is taken, or rejected, uses up some of the input.\<close>

lemma ParseRequest_progress:
  assumes "ParseRequest sur c = Inr (st, c')" "st \<noteq> kIncompleteRequest" "st \<noteq> kProtocolError"
    and "db_processed (query_buf c) < db_size (query_buf c)"
  shows "UnreadSize (query_buf c') < UnreadSize (query_buf c)"
proof -
  obtain view where v: "DynamicBuffer_View (query_buf c) = Inr view"
    using assms(1) by (auto simp: ParseRequest_def bindE_eq_Inr)
  obtain ps k name args where p: "Parse False view = Inr ((ps, k), name, args)" "ps = kComplete \<longrightarrow> 0 < k"
    using Parse_safe_all [of False view] by blast
  let ?c = "c\<lparr>cl_command := None, cl_args := args, query_buf := DynamicBuffer_Consume (query_buf c) k\<rparr>"
  have "ps = kComplete"
    using assms(1-3) v p by (cases ps) (auto simp: ParseRequest_def bindE_eq_Inr Let_def)
  moreover from this have "query_buf c' = query_buf ?c"
    using assms(1) v p reject_query [of sur ?c _ st c']
    by (auto simp: ParseRequest_def bindE_eq_Inr Let_def split: if_splits option.splits)
  ultimately show ?thesis using p(2) assms(4) by (simp add: UnreadSize_Consume) (simp add: UnreadSize_def)
qed

function ProcessInputBuffer_loop ::
  "'w surroundings \<Rightarrow> 'w \<Rightarrow> client \<Rightarrow> (ClientStatus \<times> 'w \<times> client) res" where
  "ProcessInputBuffer_loop sur w c =
     (if \<not> close_after_reply c \<and> db_processed (query_buf c) < db_size (query_buf c) then
        bindE (ParseRequest sur c) (\<lambda>(status, c).
          if status = kIncompleteRequest \<or> status = kProtocolError then Inr (kOk, w, c)
          else if status = kRejected then ProcessInputBuffer_loop sur w c
          else bindE (ProcessCommand sur (w, c)) (\<lambda>(result, w, c).
            if result = kError then Inr (kError, w, c)
            else ProcessInputBuffer_loop sur w c))
      else Inr (kOk, w, c))"
  by auto
termination
  using ParseRequest_progress ProcessCommand_query
  by (relation "measure (\<lambda>(sur, w, c). UnreadSize (query_buf c))") fastforce+

declare ProcessInputBuffer_loop.simps [simp del]

definition ProcessInputBuffer ::
  "'w surroundings \<Rightarrow> 'w \<Rightarrow> client \<Rightarrow> (ClientStatus \<times> 'w \<times> client) res" where
  "ProcessInputBuffer sur w c =
     bindE (ProcessInputBuffer_loop sur w c) (\<lambda>(result, w, c).
       if result = kError then Inr (kError, w, c)
       else bindE (Compact (query_buf c)) (\<lambda>b. Inr (kOk, w, c\<lparr>query_buf := b\<rparr>)))"

section \<open>The invariant\<close>

definition client_ok :: "client \<Rightarrow> bool" where
  "client_ok c \<longleftrightarrow> db_ok (query_buf c) \<and> rb_ok (reply_buf c) \<and>
     rb_pending (reply_buf c) \<le> hard_bytes (output_limits c)"

text \<open>The capacity of a string is at least its size; the handlers return.\<close>

fun call_ok :: "client_call \<Rightarrow> bool" where
  "call_ok (Reply_string s cap) = (length s \<le> cap)"
| "call_ok (Reply_pair h hcap b bcap) = (length h \<le> hcap \<and> length b \<le> bcap)"
| "call_ok _ = True"

fun call_bytes :: "client_call \<Rightarrow> string" where
  "call_bytes (Reply_view s) = s"
| "call_bytes (Reply_string s cap) = s"
| "call_bytes (Reply_pair h hcap b bcap) = h @ b"
| "call_bytes _ = []"

definition sur_ok :: "'w surroundings \<Rightarrow> bool" where
  "sur_ok sur \<longleftrightarrow> (\<forall>s. length s \<le> reply_capacity sur s) \<and>
     (\<forall>name p args w. \<exists>calls w'. handler sur name p args w = Inr (calls, w') \<and> list_all call_ok calls)"

text \<open>What a call does to the replies: \<open>s\<close> is queued, or the client is about to be closed.\<close>

definition replies :: "string \<Rightarrow> client \<Rightarrow> client \<Rightarrow> bool" where
  "replies s c c' \<longleftrightarrow> client_ok c' \<and> same_frame c c' \<and> discard_replies c' = discard_replies c \<and>
     (close_after_reply c \<longrightarrow> close_after_reply c') \<and>
     (\<exists>out. rb_content (reply_buf c') = rb_content (reply_buf c) @ out \<and>
        (\<not> discard_replies c \<and> \<not> close_after_reply c' \<longrightarrow> out = s))"

lemma replies_trans:
  assumes "replies s a b" "replies t b c"
  shows "replies (s @ t) a c"
proof -
  obtain o1 where 1: "rb_content (reply_buf b) = rb_content (reply_buf a) @ o1"
    "\<not> discard_replies a \<and> \<not> close_after_reply b \<longrightarrow> o1 = s" using assms(1) by (auto simp: replies_def)
  obtain o2 where 2: "rb_content (reply_buf c) = rb_content (reply_buf b) @ o2"
    "\<not> discard_replies b \<and> \<not> close_after_reply c \<longrightarrow> o2 = t" using assms(2) by (auto simp: replies_def)
  have "rb_content (reply_buf c) = rb_content (reply_buf a) @ o1 @ o2 \<and>
      (\<not> discard_replies a \<and> \<not> close_after_reply c \<longrightarrow> o1 @ o2 = s @ t)"
    using 1 2 assms by (auto simp: replies_def)
  then show ?thesis using assms same_frame_trans [of a b c] unfolding replies_def by blast
qed

lemma rb_ok_pending: "rb_ok b \<Longrightarrow> rb_pending b = length (rb_content b)"
  by (simp add: rb_ok_def)

lemma queued_replies:
  assumes "client_ok c" "rb_ok b" "rb_content b = rb_content (reply_buf c) @ s"
    and "length s \<le> hard_bytes (output_limits c)"
    "rb_pending (reply_buf c) \<le> hard_bytes (output_limits c) - length s"
  shows "replies s c (c\<lparr>reply_buf := b\<rparr>)"
  using assms rb_ok_pending [of b] rb_ok_pending [of "reply_buf c"]
  by (simp add: replies_def client_ok_def same_frame_def)

lemma unqueued_replies:
  "client_ok c \<Longrightarrow> replies s c (c\<lparr>close_after_reply := True\<rparr>)"
  "client_ok c \<Longrightarrow> discard_replies c \<Longrightarrow> replies s c (c\<lparr>reply_error := e\<rparr>)"
  "client_ok c \<Longrightarrow> discard_replies c \<Longrightarrow> replies s c c"
  "client_ok c \<Longrightarrow> replies [] c (c\<lparr>modified := m\<rparr>)"
  "client_ok c \<Longrightarrow> replies [] c (c\<lparr>protocol := p\<rparr>)"
  "client_ok c \<Longrightarrow> replies [] c c"
  by (simp_all add: replies_def client_ok_def same_frame_def)

abbreviation can_queue :: "client \<Rightarrow> nat \<Rightarrow> bool" where
  "can_queue c n \<equiv> n \<le> hard_bytes (output_limits c) \<and>
     rb_pending (reply_buf c) \<le> hard_bytes (output_limits c) - n"

lemma AddReply_view_ok:
  assumes c: "client_ok c"
  shows "\<exists>n c'. AddReply_view c s = Inr (n, c') \<and> replies s c c'"
proof (cases "\<not> discard_replies c \<and> can_queue c (length s)")
  case True
  obtain b where b: "ReplyBuffer_Append (reply_buf c) s = Inr (length s, b)" "rb_ok b"
    "rb_content b = rb_content (reply_buf c) @ s"
    using ReplyBuffer_Append_ok [of "reply_buf c" s] c by (auto simp: client_ok_def)
  then show ?thesis using True queued_replies [OF c b(2,3)]
    by (simp add: AddReply_view_def CanQueueReply_def PendingReplyBytes_def)
next
  case False
  then show ?thesis using unqueued_replies [OF c]
    by (auto simp: AddReply_view_def CanQueueReply_def PendingReplyBytes_def Let_def)
qed

lemma AddReply_string_ok:
  assumes c: "client_ok c" and cap: "length s \<le> cap"
  shows "\<exists>n c'. AddReply_string c s cap = Inr (n, c') \<and> replies s c c'"
proof (cases "\<not> discard_replies c \<and> can_queue c (length s)")
  case True
  obtain b where b: "ReplyBuffer_Append_string (reply_buf c) s cap = Inr (length s, b)" "rb_ok b"
    "rb_content b = rb_content (reply_buf c) @ s"
    using ReplyBuffer_Append_string_ok [OF _ cap, of "reply_buf c"] c by (auto simp: client_ok_def)
  then show ?thesis using True queued_replies [OF c b(2,3)]
    by (simp add: AddReply_string_def CanQueueReply_def PendingReplyBytes_def)
next
  case False
  then show ?thesis using unqueued_replies [OF c]
    by (auto simp: AddReply_string_def CanQueueReply_def PendingReplyBytes_def Let_def)
qed

lemma AddReply_pair_ok:
  assumes c: "client_ok c" and cap: "length h \<le> hcap" "length s \<le> cap"
  shows "\<exists>n c'. AddReply_pair c h hcap s cap = Inr (n, c') \<and> replies (h @ s) c c'"
proof (cases "\<not> discard_replies c \<and> can_queue c (length h + length s) \<and> length s \<le> SIZE_MAX - length h")
  case True
  obtain b where b: "ReplyBuffer_Append_string (reply_buf c) h hcap = Inr (length h, b)" "rb_ok b"
    "rb_content b = rb_content (reply_buf c) @ h"
    using ReplyBuffer_Append_string_ok [OF _ cap(1), of "reply_buf c"] c by (auto simp: client_ok_def)
  obtain d where d: "ReplyBuffer_Append_string b s cap = Inr (length s, d)" "rb_ok d"
    "rb_content d = rb_content (reply_buf c) @ h @ s"
    using ReplyBuffer_Append_string_ok [OF b(2) cap(2)] b(3) by auto
  show ?thesis using True b(1) d(1) queued_replies [OF c d(2,3)]
    by (simp add: AddReply_pair_def CanQueueReply_def PendingReplyBytes_def Let_def)
next
  case False
  then show ?thesis using unqueued_replies [OF c]
    by (auto simp: AddReply_pair_def CanQueueReply_def PendingReplyBytes_def Let_def)
qed

lemma apply_call_ok:
  assumes "client_ok c" "call_ok a"
  shows "\<exists>c'. apply_call a c = Inr c' \<and> replies (call_bytes a) c c'"
proof (cases a)
  case (Reply_view s)
  then show ?thesis using AddReply_view_ok [OF assms(1), of s] by auto
next
  case (Reply_string s cap)
  then show ?thesis using AddReply_string_ok [OF assms(1), of s cap] assms(2) by auto
next
  case (Reply_pair h hcap b bcap)
  then show ?thesis using AddReply_pair_ok [OF assms(1), of h hcap b bcap] assms(2) by auto
qed (use unqueued_replies [OF assms(1)] in auto)

lemma apply_calls_ok:
  "client_ok c \<Longrightarrow> list_all call_ok as \<Longrightarrow>
   \<exists>c'. apply_calls as c = Inr c' \<and> replies (concat (map call_bytes as)) c c'"
proof (induction as arbitrary: c)
  case Nil
  then show ?case using unqueued_replies(6) by simp
next
  case (Cons a as)
  obtain d where d: "apply_call a c = Inr d" "replies (call_bytes a) c d"
    using apply_call_ok [OF Cons.prems(1), of a] Cons.prems(2) by auto
  obtain e where e: "apply_calls as d = Inr e" "replies (concat (map call_bytes as)) d e"
    using Cons.IH [of d] d(2) Cons.prems(2) by (auto simp: replies_def)
  show ?case using d e(1) replies_trans [OF d(2) e(2)] by simp
qed

section \<open>Requests\<close>

lemma client_ok_simps [simp]:
  "client_ok (c\<lparr>cl_command := x\<rparr>) = client_ok c" "client_ok (c\<lparr>cl_args := a\<rparr>) = client_ok c"
  "client_ok (c\<lparr>modified := m\<rparr>) = client_ok c" "client_ok (c\<lparr>close_after_reply := b\<rparr>) = client_ok c"
  "client_ok (c\<lparr>reply_error := b\<rparr>) = client_ok c"
  by (simp_all add: client_ok_def)

lemma client_ok_query: "client_ok c \<Longrightarrow> db_ok b \<Longrightarrow> client_ok (c\<lparr>query_buf := b\<rparr>)"
  by (simp add: client_ok_def)

lemma db_ok_Clear: "db_ok b \<Longrightarrow> db_ok (DynamicBuffer_Clear b)"
  by (simp add: db_ok_def DynamicBuffer_Clear_def)

lemma reject_ok:
  assumes "client_ok c" "sur_ok sur"
  shows "\<exists>c'. reject sur c s = Inr (kRejected, c') \<and> client_ok c'"
  using AddReply_string_ok [OF assms(1), of s "reply_capacity sur s"] assms(2)
  by (auto simp: reject_def sur_ok_def replies_def)

text \<open>The result of one request, for the status the parser gives to the unread bytes.\<close>

definition request_post :: "client \<Rightarrow> RequestStatus \<Rightarrow> client \<Rightarrow> bool" where
  "request_post c st c' \<longleftrightarrow> client_ok c' \<and> (st = kReady \<longrightarrow> cl_command c' \<noteq> None) \<and>
     (st = kProtocolError \<longrightarrow> close_after_reply c') \<and>
     (st = kIncompleteRequest \<longrightarrow> query_buf c' = query_buf c \<and>
        (\<exists>k x. Parse False (db_content (query_buf c)) = Inr ((kIncomplete, k), x)))"

lemma ParseRequest_ok:
  assumes c: "client_ok c" and sur: "sur_ok sur"
  shows "\<exists>st c'. ParseRequest sur c = Inr (st, c') \<and> request_post c st c'"
proof -
  have v: "DynamicBuffer_View (query_buf c) = Inr (db_content (query_buf c))" and q: "db_ok (query_buf c)"
    using c DynamicBuffer_View_ok by (auto simp: client_ok_def)
  obtain ps k name args where p: "Parse False (db_content (query_buf c)) = Inr ((ps, k), name, args)"
    using Parse_safe_all by blast
  let ?c = "c\<lparr>cl_command := None, cl_args := args\<rparr>"
  let ?d = "?c\<lparr>query_buf := DynamicBuffer_Consume (query_buf c) k\<rparr>"
  have ok: "client_ok ?c" "client_ok ?d"
    using c client_ok_query [of ?c] DynamicBuffer_Consume_ok [OF q] by simp_all
  show ?thesis
  proof (cases ps)
    case kComplete
    have rej: "\<exists>st c'. reject sur ?d s = Inr (st, c') \<and> request_post c st c'" for s
      using reject_ok [OF ok(2) sur, of s] by (auto simp: request_post_def)
    show ?thesis
    proof (cases "name = []")
      case True
      then show ?thesis using rej kComplete by (simp add: ParseRequest_def v p)
    next
      case False
      show ?thesis
      proof (cases "Find name")
        case None
        then show ?thesis using rej kComplete False by (simp add: ParseRequest_def v p)
      next
        case (Some cmd)
        show ?thesis
        proof (cases "Accepts (cmd_arity cmd) (length args)")
          case True
          then show ?thesis using Some kComplete False ok(2)
            by (simp add: ParseRequest_def v p request_post_def client_ok_def)
        next
          case no: False
          then show ?thesis using rej Some kComplete False by (simp add: ParseRequest_def v p)
        qed
      qed
    qed
  next
    case kIncomplete
    then show ?thesis using ok(1) p by (simp add: ParseRequest_def v request_post_def)
  next
    case kInvalid
    let ?r = "FromError ''ERR Protocol error: invalid request''"
    have cap: "length ?r \<le> reply_capacity sur ?r" using sur unfolding sur_ok_def by blast
    obtain n e where e: "AddReply_string ?c ?r (reply_capacity sur ?r) = Inr (n, e)" "client_ok e"
      using AddReply_string_ok [OF ok(1) cap] unfolding replies_def by blast
    then have "client_ok (e\<lparr>query_buf := DynamicBuffer_Clear (query_buf e)\<rparr>)"
      using client_ok_query [OF e(2)] db_ok_Clear by (simp add: client_ok_def)
    then show ?thesis using kInvalid e(1)
      by (simp add: ParseRequest_def v p Let_def request_post_def client_ok_def)
  qed
qed

lemma run_callback_ok:
  assumes "client_ok c" "sur_ok sur"
  shows "\<exists>w' c'. run_callback sur cmd (w, c) = Inr (w', c') \<and> client_ok c'"
proof -
  obtain calls w' where h: "handler sur (cmd_callback cmd) (protocol c) (cl_args c) w = Inr (calls, w')"
    "list_all call_ok calls" using assms(2) unfolding sur_ok_def by blast
  then show ?thesis using apply_calls_ok [OF assms(1) h(2)] by (auto simp: run_callback_def replies_def)
qed

lemma ProcessCommand_ok:
  assumes "client_ok c" "sur_ok sur"
  shows "\<exists>st w' c'. ProcessCommand sur (w, c) = Inr (st, w', c') \<and> client_ok c'"
proof (cases "cl_command c")
  case (Some cmd)
  obtain v d where d: "run_callback sur cmd (w, c\<lparr>modified := False\<rparr>) = Inr (v, d)" "client_ok d"
    using run_callback_ok [of "c\<lparr>modified := False\<rparr>" sur cmd w] assms by auto
  show ?thesis
  proof (cases "if modified d then aof_append sur else None")
    case None
    then show ?thesis using Some d by (simp add: ProcessCommand_def)
  next
    case (Some app)
    then show ?thesis using \<open>cl_command c = Some cmd\<close> d
      by (cases "app (cmd_name cmd) (cl_args d) v") (simp add: ProcessCommand_def)
  qed
qed (use assms in \<open>simp add: ProcessCommand_def\<close>)

text \<open>When the loop ends there is no complete request left, unless the client is to be closed.\<close>

definition drained :: "client \<Rightarrow> bool" where
  "drained c \<longleftrightarrow> close_after_reply c \<or> db_content (query_buf c) = [] \<or>
     (\<exists>k x. Parse False (db_content (query_buf c)) = Inr ((kIncomplete, k), x))"

lemma ProcessInputBuffer_loop_ok:
  assumes "client_ok c" "sur_ok sur"
  shows "\<exists>st w' c'. ProcessInputBuffer_loop sur w c = Inr (st, w', c') \<and> client_ok c' \<and>
    (st = kOk \<longrightarrow> drained c')"
  using assms
proof (induction sur w c rule: ProcessInputBuffer_loop.induct)
  case (1 sur w c)
  show ?case
  proof (cases "\<not> close_after_reply c \<and> db_processed (query_buf c) < db_size (query_buf c)")
    case False
    then have "close_after_reply c \<or> db_content (query_buf c) = []" by (auto simp: db_content_def)
    then show ?thesis using False "1.prems"(1)
      by (subst ProcessInputBuffer_loop.simps) (auto simp: drained_def)
  next
    case True
    obtain st d where d: "ParseRequest sur c = Inr (st, d)" "request_post c st d"
      using ParseRequest_ok [OF "1.prems"] by blast
    have dok: "client_ok d" using d(2) by (simp add: request_post_def)
    note IH1 = "1.IH"(1) [OF True d(1) refl] and IH2 = "1.IH"(2) [OF True d(1) refl]
    consider "st = kIncompleteRequest \<or> st = kProtocolError" | "st = kRejected" | "st = kReady"
      by (cases st) auto
    then show ?thesis
    proof cases
      case 1
      then have "drained d" using d(2) by (auto simp: request_post_def drained_def)
      then show ?thesis using 1 True d(1) dok by (subst ProcessInputBuffer_loop.simps) simp
    next
      case 2
      then show ?thesis using IH1 True d(1) dok "1.prems"(2)
        by (subst ProcessInputBuffer_loop.simps) simp
    next
      case 3
      obtain r v e where e: "ProcessCommand sur (w, d) = Inr (r, v, e)" "client_ok e"
        using ProcessCommand_ok [OF dok "1.prems"(2)] by blast
      show ?thesis
      proof (cases r)
        case kOk
        then show ?thesis using IH2 [OF _ _ e(1) refl refl] 3 True d(1) e "1.prems"(2)
          by (subst ProcessInputBuffer_loop.simps) simp
      next
        case kError
        then show ?thesis using 3 True d(1) e by (subst ProcessInputBuffer_loop.simps) simp
      qed
    qed
  qed
qed

lemma ProcessInputBuffer_ok:
  assumes "client_ok c" "sur_ok sur"
  shows "\<exists>st w' c'. ProcessInputBuffer sur w c = Inr (st, w', c') \<and> client_ok c' \<and>
    (st = kOk \<longrightarrow> drained c')"
proof -
  obtain st v d where d: "ProcessInputBuffer_loop sur w c = Inr (st, v, d)" "client_ok d"
    "st = kOk \<longrightarrow> drained d" using ProcessInputBuffer_loop_ok [OF assms] by blast
  obtain b where b: "Compact (query_buf d) = Inr b" "db_ok b" "db_content b = db_content (query_buf d)"
    using Compact_ok [of "query_buf d"] d(2) unfolding client_ok_def by metis
  show ?thesis
  proof (cases st)
    case kOk
    then show ?thesis using d b client_ok_query [OF d(2) b(2)]
      by (simp add: ProcessInputBuffer_def drained_def)
  next
    case kError
    then show ?thesis using d by (simp add: ProcessInputBuffer_def)
  qed
qed

section \<open>The socket\<close>

lemma Compact_size: "Compact b = Inr b' \<Longrightarrow> db_size b' \<le> db_size b"
  by (auto simp: Compact_def bindE_eq_Inr UnreadSize_def split: if_splits)

lemma Resize_size: "DynamicBuffer_Resize b n = Inr b' \<Longrightarrow> db_size b' = db_size b"
  by (auto simp: DynamicBuffer_Resize_def bindE_eq_Inr Let_def)

lemma Append_size:
  assumes "DynamicBuffer_Append b (Some s) n = Inr b'"
  shows "db_size b' \<le> db_size b + n"
proof (cases "n = 0")
  case False
  obtain b1 where b1: "(if db_capacity b - db_size b < n \<and> db_processed b > 0 then Compact b else Inr b) = Inr b1"
    "(if n > SIZE_MAX - db_size b1 then Inl Length_error
      else bindE (if db_capacity b1 - db_size b1 < n then DynamicBuffer_Resize b1 (db_size b1 + n) else Inr b1) (\<lambda>b.
        bindE (rd_range s 0 n) (\<lambda>bytes. bindE (mem_copy (db_buf b) (db_size b) bytes) (\<lambda>buf.
          Inr (b\<lparr>db_buf := buf, db_size := db_size b + n\<rparr>))))) = Inr b'"
    using assms False unfolding DynamicBuffer_Append_def by (auto simp: bindE_eq_Inr simp del: bindE_Inr)
  have 1: "db_size b1 \<le> db_size b" using b1(1) Compact_size by (auto split: if_splits)
  obtain b2 where b2: "(if db_capacity b1 - db_size b1 < n then DynamicBuffer_Resize b1 (db_size b1 + n) else Inr b1) = Inr b2"
    "db_size b' = db_size b2 + n" using b1(2) by (auto simp: bindE_eq_Inr split: if_splits)
  have "db_size b2 = db_size b1" using b2(1) Resize_size by (auto split: if_splits)
  then show ?thesis using 1 b2(2) by simp
qed (use assms in \<open>simp add: DynamicBuffer_Append_def\<close>)

lemma ReadQuery_loop_ok:
  assumes "client_ok c" "db_size (query_buf c) \<le> kMaxQueryBufferSize"
  shows "\<exists>n c'. ReadQuery_loop chunks (nread, state) tot c = Inr (n, c') \<and> client_ok c' \<and>
    db_size (query_buf c') \<le> kMaxQueryBufferSize \<and>
    (n \<ge> 0 \<longrightarrow> n = int (tot + length (concat chunks)) \<and>
       db_content (query_buf c') = db_content (query_buf c) @ concat chunks)"
  using assms
proof (induction chunks arbitrary: tot c)
  case Nil
  then show ?case by (auto simp: client_ok_def Let_def)
next
  case (Cons chunk chunks)
  let ?q = "query_buf c"
  show ?case
  proof (cases "length chunk > kMaxQueryBufferSize - db_size ?q")
    case True
    then show ?thesis using Cons.prems by (auto simp: client_ok_def)
  next
    case False
    have room: "db_size ?q + length chunk \<le> kMaxQueryBufferSize" using False Cons.prems(2) by simp
    have "kMaxQueryBufferSize \<le> SIZE_MAX" by (simp add: kMaxQueryBufferSize_def)
    then obtain b where b: "DynamicBuffer_Append ?q (Some chunk) (length chunk) = Inr b" "db_ok b"
      "db_content b = db_content ?q @ chunk"
      using DynamicBuffer_Append_ok [of ?q "length chunk" chunk] room Cons.prems(1)
      by (auto simp: client_ok_def)
    have "db_size b \<le> kMaxQueryBufferSize" using Append_size [OF b(1)] room by simp
    then have IH: "\<exists>n c'. ReadQuery_loop chunks (nread, state) (tot + length chunk) (c\<lparr>query_buf := b\<rparr>) = Inr (n, c') \<and>
      client_ok c' \<and> db_size (query_buf c') \<le> kMaxQueryBufferSize \<and>
      (n \<ge> 0 \<longrightarrow> n = int (tot + length chunk + length (concat chunks)) \<and>
         db_content (query_buf c') = db_content b @ concat chunks)"
      using Cons.IH [of "c\<lparr>query_buf := b\<rparr>" "tot + length chunk"] client_ok_query [OF Cons.prems(1) b(2)]
      by simp
    have "ReadQuery_loop (chunk # chunks) (nread, state) tot c =
      ReadQuery_loop chunks (nread, state) (tot + length chunk) (c\<lparr>query_buf := b\<rparr>)"
      using False Cons.prems(2) b(1) by simp
    then show ?thesis using IH b(3) by (simp add: add.assoc)
  qed
qed

lemma unsent_content:
  assumes "rb_ok b" "rb_node_count b = 0"
  shows "rd_range (rb_buf b) (rb_sent b) (UnsentLength b) = Inr (rb_content b)"
  using assms by (auto simp: rb_ok_def rb_wf_def sent_ok_def rd_range_def UnsentLength_def rb_content_def
      rb_all_def drop_take split: if_splits)

lemma sent_client:
  assumes "client_ok c"
  shows "client_ok (c\<lparr>reply_buf := ReplyBuffer_Consume (reply_buf c) k\<rparr>)"
proof -
  have "rb_ok (reply_buf c)" using assms by (simp add: client_ok_def)
  from ReplyBuffer_Consume_ok [OF this, of k] show ?thesis
    using assms rb_ok_pending [of "reply_buf c"] rb_ok_pending [of "ReplyBuffer_Consume (reply_buf c) k"]
    by (auto simp: client_ok_def)
qed

lemma client_ok_new: "client_ok (Client_new state limits)"
  using rb_ok_new db_ok_new new_sizes by (simp add: client_ok_def Client_new_def)

section \<open>Properties\<close>





text \<open>
  C24: the query buffer never holds more than its limit; a read that succeeds appends exactly the
  bytes of the socket and returns their number.
\<close>

theorem ReadQuery_bounded:
  assumes "client_ok c" "conn_state c \<noteq> None" "db_size (query_buf c) \<le> kMaxQueryBufferSize"
  shows "\<exists>n c'. ReadQuery chunks (nread, state) c = Inr (n, c') \<and> client_ok c' \<and>
    db_size (query_buf c') \<le> kMaxQueryBufferSize \<and>
    (n \<ge> 0 \<longrightarrow> n = int (length (concat chunks)) \<and>
       db_content (query_buf c') = db_content (query_buf c) @ concat chunks)"
  using ReadQuery_loop_ok [OF assms(1,3), of chunks nread state 0] assms(2) by (simp add: ReadQuery_def)

theorem ReadQuery_bounded_witness:
  "\<exists>n c'. ReadQuery [''PING'', ''x''] (-1, kConnected) (Client_new (Some kConnected) default_limits) = Inr (n, c') \<and>
     db_size (query_buf c') \<le> kMaxQueryBufferSize"
proof -
  have "conn_state (Client_new (Some kConnected) default_limits) \<noteq> None"
    "db_size (query_buf (Client_new (Some kConnected) default_limits)) \<le> kMaxQueryBufferSize"
    by (simp_all add: Client_new_def new_sizes)
  from ReadQuery_bounded [OF client_ok_new this] show ?thesis by blast
qed



end
