(* ===== verification/Client_Pipeline.thy ===== *)
theory Client_Pipeline
  imports Client
begin

text \<open>
  Pipelining: a client that has sent several encoded requests gets them executed in their order,
  each once, up to the first one that closes the client.  The specification \<open>execute\<close> runs
  \<open>ProcessCommand\<close> on a list of requests and knows no buffer and no parser.
\<close>

section \<open>The specification\<close>

type_synonym request = "string \<times> string list"

definition encode_request :: "request \<Rightarrow> string" where
  "encode_request r = FromBulkStringArray (fst r # snd r)"

definition known_request :: "request \<Rightarrow> bool" where
  "known_request r = (length (snd r) < 1024 * 1024 \<and>
     (case Find (fst r) of None \<Rightarrow> False | Some cmd \<Rightarrow> Accepts (cmd_arity cmd) (length (snd r))))"

fun execute :: "'w surroundings \<Rightarrow> request list \<Rightarrow> 'w \<Rightarrow> client \<Rightarrow> (ClientStatus \<times> 'w \<times> client) res" where
  "execute sur [] w c = Inr (kOk, w, c)"
| "execute sur (r # rs) w c =
     (if close_after_reply c then Inr (kOk, w, c)
      else bindE (ProcessCommand sur (w, c\<lparr>cl_command := Find (fst r), cl_args := snd r\<rparr>)) (\<lambda>(result, w, c).
        if result = kError then Inr (kError, w, c) else execute sur rs w c))"

text \<open>A client without its query buffer.\<close>

definition strip :: "client \<Rightarrow> client" where
  "strip c = c\<lparr>query_buf := DynamicBuffer_new\<rparr>"

lemma strip_sel [simp]:
  "reply_buf (strip c) = reply_buf c" "output_limits (strip c) = output_limits c"
  "discard_replies (strip c) = discard_replies c" "close_after_reply (strip c) = close_after_reply c"
  "modified (strip c) = modified c" "protocol (strip c) = protocol c" "cl_args (strip c) = cl_args c"
  "cl_command (strip c) = cl_command c" "reply_error (strip c) = reply_error c"
  by (simp_all add: strip_def)

lemma strip_upd:
  "strip (c\<lparr>query_buf := b\<rparr>) = strip c"
  "strip (c\<lparr>reply_buf := b'\<rparr>) = strip c\<lparr>reply_buf := b'\<rparr>"
  "strip (c\<lparr>close_after_reply := x\<rparr>) = strip c\<lparr>close_after_reply := x\<rparr>"
  "strip (c\<lparr>reply_error := x\<rparr>) = strip c\<lparr>reply_error := x\<rparr>"
  "strip (c\<lparr>modified := x\<rparr>) = strip c\<lparr>modified := x\<rparr>"
  "strip (c\<lparr>protocol := p\<rparr>) = strip c\<lparr>protocol := p\<rparr>"
  "strip (c\<lparr>cl_args := a\<rparr>) = strip c\<lparr>cl_args := a\<rparr>"
  "strip (c\<lparr>cl_command := m\<rparr>) = strip c\<lparr>cl_command := m\<rparr>"
  by (simp_all add: strip_def)

section \<open>A handler does not see the query buffer\<close>

lemma AddReply_strip:
  "AddReply_view c s = Inr (n, c') \<Longrightarrow> AddReply_view (strip c) s = Inr (n, strip c')"
  "AddReply_string c s cap = Inr (n, c') \<Longrightarrow> AddReply_string (strip c) s cap = Inr (n, strip c')"
  by (auto simp: AddReply_view_def AddReply_string_def CanQueueReply_def PendingReplyBytes_def Let_def
      bindE_eq_Inr strip_upd split: if_splits)

lemma AddReply_pair_strip:
  "AddReply_pair c h hc s sc = Inr (n, c') \<Longrightarrow> AddReply_pair (strip c) h hc s sc = Inr (n, strip c')"
  by (auto simp: AddReply_pair_def CanQueueReply_def PendingReplyBytes_def Let_def
      bindE_eq_Inr strip_upd split: if_splits)

lemma apply_call_strip: "apply_call a c = Inr c' \<Longrightarrow> apply_call a (strip c) = Inr (strip c')"
proof (induction a c rule: apply_call.induct)
  case (1 s c)
  then show ?case using AddReply_strip(1) [of c s] by (auto simp: bindE_eq_Inr)
next
  case (2 s cap c)
  then show ?case using AddReply_strip(2) [of c s cap] by (auto simp: bindE_eq_Inr)
next
  case (3 h hcap b bcap c)
  then show ?case using AddReply_pair_strip [of c h hcap b bcap] by (auto simp: bindE_eq_Inr)
qed (auto simp: strip_upd)

lemma apply_calls_strip: "apply_calls as c = Inr c' \<Longrightarrow> apply_calls as (strip c) = Inr (strip c')"
proof (induction as arbitrary: c)
  case (Cons a as)
  then obtain d where "apply_call a c = Inr d" "apply_calls as d = Inr c'" by (auto simp: bindE_eq_Inr)
  then show ?case using Cons.IH apply_call_strip by simp
qed simp

lemma run_callback_strip:
  assumes "run_callback sur cmd (w, c) = Inr (w', c')"
  shows "run_callback sur cmd (w, strip c) = Inr (w', strip c')"
proof -
  obtain calls where "handler sur (cmd_callback cmd) (protocol c) (cl_args c) w = Inr (calls, w')"
    "apply_calls calls c = Inr c'" using assms by (auto simp: run_callback_def bindE_eq_Inr)
  then show ?thesis using apply_calls_strip [of calls c c'] by (simp add: run_callback_def)
qed

lemma ProcessCommand_strip:
  assumes "ProcessCommand sur (w, c) = Inr (st, w', c')"
  shows "ProcessCommand sur (w, strip c) = Inr (st, w', strip c')"
proof (cases "cl_command c")
  case (Some cmd)
  obtain v d where d: "run_callback sur cmd (w, c\<lparr>modified := False\<rparr>) = Inr (v, d)"
    using assms Some by (auto simp: ProcessCommand_def bindE_eq_Inr)
  have "run_callback sur cmd (w, strip c\<lparr>modified := False\<rparr>) = Inr (v, strip d)"
    using run_callback_strip [OF d] by (simp add: strip_upd)
  then show ?thesis using assms Some d
    by (auto simp: ProcessCommand_def Let_def case_prod_beta strip_upd split: option.splits if_splits)
qed (use assms in \<open>simp add: ProcessCommand_def\<close>)

section \<open>The loop follows the specification\<close>

lemma ParseRequest_known:
  assumes c: "client_ok c" and r: "known_request r"
    and q: "db_content (query_buf c) = encode_request r @ rest"
  shows "ParseRequest sur c = Inr (kReady, c\<lparr>cl_command := Find (fst r), cl_args := snd r,
    query_buf := DynamicBuffer_Consume (query_buf c) (length (encode_request r))\<rparr>)"
proof -
  have ok: "db_ok (query_buf c)" using c by (simp add: client_ok_def)
  have len: "length (encode_request r @ rest) \<le> SIZE_MAX"
    using db_content_length [OF ok] ok unfolding q by (auto simp: db_ok_def UnreadSize_def)
  obtain cmd where cmd: "Find (fst r) = Some cmd" "Accepts (cmd_arity cmd) (length (snd r))"
    "length (snd r) < 1024 * 1024"
    using r by (auto simp: known_request_def split: option.splits)
  have p: "Parse False (db_content (query_buf c)) =
      Inr ((kComplete, length (encode_request r)), fst r, snd r)"
    using Parse_request [OF len [unfolded encode_request_def] cmd(3)] unfolding q encode_request_def .
  have ne: "fst r \<noteq> []"
  proof
    assume "fst r = []"
    then have "EqualsIgnoreCase [] (cmd_name cmd) \<and> cmd \<in> set kCommandTable" using cmd(1) Find_iff by metis
    then show False by (auto simp: kCommandTable_def command_row_defs EqualsIgnoreCase_key name_key_def)
  qed
  show ?thesis using p cmd ne by (cases r) (simp add: ParseRequest_def DynamicBuffer_View_ok [OF ok])
qed

lemma Find_PING:
  "Find ''PING'' = Some (ConnectionCommand ''PING'' ''session::HandlePing'' \<lparr>arity_min = 0, arity_max = 1\<rparr>)"
proof -
  have "ConnectionCommand ''PING'' ''session::HandlePing'' \<lparr>arity_min = 0, arity_max = 1\<rparr> \<in> set kCommandTable"
    unfolding kCommandTable_def by (simp only: list.set insert_iff simp_thms)
  then show ?thesis
    unfolding Find_iff by (simp add: ConnectionCommand_def EqualsIgnoreCase_key)
qed

lemma encode_request_Cons: "encode_request r \<noteq> []"
  by (simp add: encode_request_def FromBulkStringArray_bulk)

lemma loop_executes:
  assumes "client_ok c" "sur_ok sur" "\<forall>r\<in>set rs. known_request r"
    "db_content (query_buf c) = concat (map encode_request rs)"
  shows "\<exists>st w' c'. ProcessInputBuffer_loop sur w c = Inr (st, w', c') \<and> client_ok c' \<and>
    execute sur rs w (strip c) = Inr (st, w', strip c') \<and>
    (st = kOk \<and> \<not> close_after_reply c' \<longrightarrow> db_content (query_buf c') = [])"
  using assms
proof (induction rs arbitrary: w c)
  case Nil
  have "UnreadSize (query_buf c) = 0" using Nil db_content_length by (fastforce simp: client_ok_def)
  then show ?case using Nil by (subst ProcessInputBuffer_loop.simps) (simp add: UnreadSize_def)
next
  case (Cons r rs)
  show ?case
  proof (cases "close_after_reply c")
    case True
    then show ?thesis using Cons.prems by (subst ProcessInputBuffer_loop.simps) simp
  next
    case False
    have ok: "db_ok (query_buf c)" using Cons.prems(1) by (simp add: client_ok_def)
    have q: "db_content (query_buf c) = encode_request r @ concat (map encode_request rs)"
      using Cons.prems(4) by simp
    have "length (db_content (query_buf c)) > 0" using q encode_request_Cons [of r] by simp
    then have more: "db_processed (query_buf c) < db_size (query_buf c)"
      using db_content_length [OF ok] by (simp add: UnreadSize_def)
    define d where "d = c\<lparr>cl_command := Find (fst r), cl_args := snd r,
      query_buf := DynamicBuffer_Consume (query_buf c) (length (encode_request r))\<rparr>"
    have p: "ParseRequest sur c = Inr (kReady, d)"
      unfolding d_def by (rule ParseRequest_known [OF Cons.prems(1) _ q]) (use Cons.prems(3) in simp)
    have d: "client_ok d" "db_content (query_buf d) = concat (map encode_request rs)"
      using Cons.prems(1) DynamicBuffer_Consume_ok [OF ok, of "length (encode_request r)"] q
      by (simp_all add: d_def client_ok_def)
    have sd: "strip d = strip c\<lparr>cl_command := Find (fst r), cl_args := snd r\<rparr>"
      by (simp add: d_def strip_upd)
    obtain res v e where e: "ProcessCommand sur (w, d) = Inr (res, v, e)" "client_ok e"
      using ProcessCommand_ok [OF d(1) Cons.prems(2)] by blast
    have qe: "db_content (query_buf e) = concat (map encode_request rs)"
      using ProcessCommand_query [OF e(1)] d(2) by simp
    have s: "ProcessCommand sur (w, strip c\<lparr>cl_command := Find (fst r), cl_args := snd r\<rparr>) = Inr (res, v, strip e)"
      using ProcessCommand_strip [OF e(1)] unfolding sd .
    show ?thesis
    proof (cases res)
      case kOk
      then show ?thesis using Cons.IH [OF e(2) Cons.prems(2) _ qe, of v] Cons.prems(3) False more p e(1) s
        by (subst ProcessInputBuffer_loop.simps) simp
    next
      case kError
      then show ?thesis using False more p e s by (subst ProcessInputBuffer_loop.simps) simp
    qed
  qed
qed

lemma ProcessInputBuffer_executes:
  assumes "client_ok c" "sur_ok sur" "\<forall>r\<in>set rs. known_request r"
    "db_content (query_buf c) = concat (map encode_request rs)"
  shows "\<exists>st w' c'. ProcessInputBuffer sur w c = Inr (st, w', c') \<and>
    execute sur rs w (strip c) = Inr (st, w', strip c') \<and>
    (st = kOk \<and> \<not> close_after_reply c' \<longrightarrow> db_content (query_buf c') = [])"
proof -
  obtain st v d where d: "ProcessInputBuffer_loop sur w c = Inr (st, v, d)" "client_ok d"
    "execute sur rs w (strip c) = Inr (st, v, strip d)"
    "st = kOk \<and> \<not> close_after_reply d \<longrightarrow> db_content (query_buf d) = []"
    using loop_executes [OF assms] by blast
  obtain b where b: "Compact (query_buf d) = Inr b" "db_ok b" "db_content b = db_content (query_buf d)"
    using Compact_ok [of "query_buf d"] d(2) unfolding client_ok_def by metis
  show ?thesis
  proof (cases st)
    case kOk
    then show ?thesis using d b by (simp add: ProcessInputBuffer_def strip_upd)
  next
    case kError
    then show ?thesis using d by (simp add: ProcessInputBuffer_def)
  qed
qed

section \<open>Properties\<close>

text \<open>
  C21: a client that has sent a sequence of encoded requests gets them executed in this order, each
  once, until one closes the client or fails; nothing of them is left in the query buffer.
\<close>

theorem ProcessInputBuffer_pipeline:
  assumes "client_ok c" "sur_ok sur" "list_all known_request rs"
    and "db_content (query_buf c) = concat (map encode_request rs)"
  shows "\<exists>status w' c'. ProcessInputBuffer sur w c = Inr (status, w', c') \<and>
    execute sur rs w (strip c) = Inr (status, w', strip c') \<and>
    (status = kOk \<and> \<not> close_after_reply c' \<longrightarrow> db_content (query_buf c') = [])"
  using ProcessInputBuffer_executes [OF assms(1,2) _ assms(4)] assms(3) by (simp add: list_all_iff)

theorem ProcessInputBuffer_pipeline_witness:
  "\<exists>c status w' c'. db_content (query_buf c) = concat (map encode_request [(''PING'', []), (''PING'', [''hi''])]) \<and>
     ProcessInputBuffer \<lparr>handler = \<lambda>name p args w. Inr ([Reply_view ''+PONG''], w + length args),
       aof_append = None, server_stop = id, reply_capacity = length\<rparr> (0::nat) c = Inr (status, w', c')"
proof -
  define s where "s = concat (map encode_request [(''PING'', []), (''PING'', [''hi''])])"
  let ?c = "Client_new (Some kConnected) default_limits\<lparr>query_buf :=
    \<lparr>db_buf = s, db_capacity = length s, db_size = length s, db_processed = 0\<rparr>\<rparr>"
  let ?sur = "\<lparr>handler = \<lambda>name p args w. Inr ([Reply_view ''+PONG''], w + length args),
     aof_append = None, server_stop = id, reply_capacity = length\<rparr> :: nat surroundings"
  have "length s \<le> SIZE_MAX"
    by (simp add: s_def encode_request_def FromBulkStringArray_bulk bulk_def dec.simps)
  then have c: "client_ok ?c" using client_ok_query [OF client_ok_new] by (simp add: db_ok_def)
  have q: "db_content (query_buf ?c) = concat (map encode_request [(''PING'', []), (''PING'', [''hi''])])"
    by (simp add: db_content_def s_def)
  have k: "list_all known_request [(''PING'', []), (''PING'', [''hi''])]"
    by (simp add: known_request_def Find_PING ConnectionCommand_def Accepts_def)
  have sur: "sur_ok ?sur" by (simp add: sur_ok_def)
  from ProcessInputBuffer_pipeline [OF c sur k q, of 0] show ?thesis using q by blast
qed

end
