(* ===== verification/Containers.thy ===== *)
theory Containers
  imports Listpack_Refinement Dict_Refinement
begin

text \<open>
  What the data types share in their use of the containers: pointers that may be null, dicts of a
  given capacity, and single steps on a listpack and on a dict.
\<close>

section \<open>Pointers\<close>

definition deref :: "'a option \<Rightarrow> 'a res" where
  "deref p = (case p of None \<Rightarrow> Inl Null_deref | Some x \<Rightarrow> Inr x)"

lemma deref_Some [simp]: "deref (Some x) = Inr x"
  by (simp add: deref_def)

section \<open>Dicts of a given capacity\<close>

lemma NextExp_loop_bound:
  assumes "sz \<le> 2 ^ 60" "e \<le> 60" "60 \<le> e + k"
  shows "\<exists>m. m \<le> 60 \<and> NextExp_loop k sz (2 ^ e) (int e) = int m \<and> sz \<le> 2 ^ m"
  using assms
proof (induction k arbitrary: e)
  case 0
  then have "e = 60" by simp
  then show ?case using 0 by (intro exI [of _ 60]) simp
next
  case (Suc k)
  show ?case
  proof (cases "2 ^ e < sz")
    case True
    then have "(2::nat) ^ e < 2 ^ 60" using Suc.prems(1) by (rule less_le_trans)
    then have e: "e < 60" by (rule power_less_imp_less_exp [rotated]) simp
    then have "(2::nat) ^ e \<le> 2 ^ 60" by (intro power_increasing) simp_all
    then have "\<not> 2 ^ e > SIZE_MAX div 2" by simp
    then show ?thesis using True Suc.IH [of "Suc e"] Suc.prems(1,3) e by (simp add: mult.commute add.commute)
  next
    case False
    then show ?thesis using Suc.prems(2) by (intro exI [of _ e]) simp
  qed
qed

lemma Dict_Create_small:
  assumes "n \<le> 2 ^ 60"
  shows "\<exists>d :: ('k, 'v) dict. Dict_Create n = Some d"
proof -
  obtain m where m: "m \<le> 60" "NextExp n = int m" "n \<le> 2 ^ m"
    using NextExp_loop_bound [OF assms, of 1 64] by (auto simp: NextExp_def)
  have "(2::nat) ^ m \<le> 2 ^ 60" using m(1) by (intro power_increasing) simp_all
  then have "\<not> (2::nat) ^ m > SIZE_MAX div 8" by simp
  moreover have "TableSize (int m) = 2 ^ m" using m(1) by (simp add: TableSize_def push_bit_eq_mult)
  ultimately show ?thesis using m
    by (simp add: Dict_Create_def Dict_Expand_def Dict_init_def IsRehashing_def Reset_def Let_def)
qed

section \<open>Single steps\<close>

lemma dom_put:
  assumes "dict_ok hf d"
  shows "dict_ok hf (Dict_Set hf d k v)" "dom (dict_map (Dict_Set hf d k v)) = insert k (dom (dict_map d))"
  using dict.put [OF assms, of k v] by simp_all

lemma ListPack_Append_element:
  assumes "ListPack_repr lp es" "element ss ii e" "lp_fits (es @ [e])"
  shows "\<exists>lp'. bindE (ListPack_TotalBytes lp) (\<lambda>total. Insert_at lp (total - 1) kInsertBefore ss ii)
      = Inr (True, lp') \<and> ListPack_repr lp' (es @ [e])"
  using repr_Insert_before [OF assms(1) order_refl assms(2)] assms(3) repr_off_end [OF assms(1)]
    repr_TotalBytes [OF assms(1)] by simp

end
