(* ===== verification/Command_Env.thy ===== *)
theory Command_Env
  imports Client_Pipeline Db_Refinement Containers
begin

text \<open>
  What the command handlers of \<open>src/server/commands\<close> share.  A handler reads its arguments and the
  protocol of its client, works on the database of the server and makes calls on the client; it is a
  function of the arguments and the database to those calls and the new database.  The pointer
  \<open>client->Db()\<close> may be null: \<open>None\<close>.  A pointer to an object that a lookup returned is written
  through by \<open>StoreObject\<close>: the dictionary owns the object, so the entry of the key changes.

  The parameters of a handler are a record: the hash function of the dictionaries with string keys,
  the readings of the clock in the order the handler makes them, the capacity of the strings that
  are moved into the reply buffer.
\<close>

section \<open>Definitions\<close>

record server_env =
  key_hash :: "string \<Rightarrow> nat"
  clock :: "nat \<Rightarrow> int"
  capacity :: "string \<Rightarrow> nat"

type_synonym 'o handled = "(client_call list \<times> 'o redis_db option) res"

definition reply :: "server_env \<Rightarrow> string \<Rightarrow> client_call list" where
  "reply env s = [Reply_string s (capacity env s)]"

definition with_db :: "server_env \<Rightarrow> 'o redis_db option \<Rightarrow> ('o redis_db \<Rightarrow> (client_call list \<times> 'o redis_db) res)
    \<Rightarrow> 'o handled" where
  "with_db env redis_db f = (case redis_db of
     None \<Rightarrow> Inr (reply env (FromError ''ERR db unavailable''), None)
   | Some db \<Rightarrow> bindE (f db) (\<lambda>(calls, db). Inr (calls, Some db)))"

definition StoreObject :: "server_env \<Rightarrow> 'o redis_db \<Rightarrow> string \<Rightarrow> 'o \<Rightarrow> 'o redis_db" where
  "StoreObject env db key ob =
     db\<lparr>db_dict := SetVal_existing (db_dict db) (key_hash env key) key ob\<rparr>"

text \<open>The copies of \<open>ToReplyInteger\<close> in the string, set, hash and list commands are the same.\<close>

definition ToReplyInteger :: "nat \<Rightarrow> int option" where
  "ToReplyInteger n = (if int n > INT64_MAX then None else Some (int n))"

text \<open>
  The replies of the handlers of hashes, lists and sets, whose operations return an optional number or
  an optional encoded reply.
\<close>

definition integer_reply :: "server_env \<Rightarrow> int option \<Rightarrow> client_call list" where
  "integer_reply env result = reply env (case result of Some n \<Rightarrow> FromInt64 n | None \<Rightarrow> WrongTypeError)"

definition encoded_reply :: "server_env \<Rightarrow> string option \<Rightarrow> client_call list" where
  "encoded_reply env result = reply env (case result of Some s \<Rightarrow> s | None \<Rightarrow> WrongTypeError)"

section \<open>Lemmas\<close>

lemma with_db_simps [simp]:
  "with_db env None f = Inr (reply env (FromError ''ERR db unavailable''), None)"
  "with_db env (Some db) f = bindE (f db) (\<lambda>(calls, db). Inr (calls, Some db))"
  by (simp_all add: with_db_def)

lemma StoreObject_ok:
  assumes ok: "Db_Refinement.db_ok (key_hash env) db" and k: "objects db key \<noteq> None"
  shows "db_to (key_hash env) db (StoreObject env db key ob) ((objects db)(key \<mapsto> ob)) (expiries db)"
proof -
  note o = db_okD [OF ok]
  obtain e where e: "find_entry (db_dict db) (key_hash env key) key = Some e"
    using find_entry_map [OF o(1), of key] k by (cases "find_entry (db_dict db) (key_hash env key) key") auto
  show ?thesis using SetVal_existing_ok [OF o(1) e, of ob] o(2,3)
    by (auto simp: StoreObject_def db_to_def Db_Refinement.db_ok_def)
qed

text \<open>A lookup with the state it leaves, as one case distinction.\<close>

lemma LookupKey_cases:
  assumes ok: "Db_Refinement.db_ok hf db"
  obtains (missing) db' where "LookupKey hf now db key = (None, db')" "visible now db key = None"
      "db_to hf db db' (drop_expired now db key (objects db)) (drop_expired now db key (expiries db))"
      "Db_Refinement.db_ok hf db'" "objects db' key = None"
  | (found) ob db' where "LookupKey hf now db key = (Some ob, db')" "visible now db key = Some ob"
      "db_to hf db db' (objects db) (expiries db)" "Db_Refinement.db_ok hf db'"
      "objects db' = objects db" "expiries db' = expiries db" "objects db key = Some ob" "\<not> expired now db key"
      "loading db' = loading db"
proof -
  obtain r db' where l: "LookupKey hf now db key = (r, db')" by fastforce
  show thesis
  proof (cases r)
    case None
    have *: "visible now db key = None"
      "db_to hf db db' (drop_expired now db key (objects db)) (drop_expired now db key (expiries db))"
      using LookupKey_ok [OF ok l] None by simp_all
    then have "objects db' key = None" by (auto simp: visible_def db_to_def drop_expired_def split: if_splits)
    then show thesis using missing [of db'] l None * by (simp add: db_to_def)
  next
    case (Some ob)
    then show thesis using found LookupKey_found [OF ok l [unfolded Some]] l by blast
  qed
qed

text \<open>What the others see of a database after a key was dropped or changed.\<close>

lemma visible_to:
  assumes "db_to hf db db' m x"
  shows "visible t db' k = (if \<not> loading db \<and> (\<exists>e. x k = Some e \<and> e \<le> t) then None else m k)"
  using assms by (auto simp: visible_def expired_def db_to_def)

lemma visible_drop:
  assumes "db_to hf db db' (drop_expired now db key (objects db)) (drop_expired now db key (expiries db))" "now \<le> t"
  shows "visible t db' k = visible t db k"
  unfolding visible_to [OF assms(1)] using assms(2)
  by (auto simp: visible_def expired_def drop_expired_def)

lemma visible_other:
  assumes "db_to hf db db' m x" "m j = objects db j" "x j = expiries db j"
  shows "visible t db' j = visible t db j"
  unfolding visible_to [OF assms(1)] using assms(2,3) by (auto simp: visible_def expired_def)

end
