(* ===== verification/Dict_Iterator.thy ===== *)
theory Dict_Iterator
  imports Dict_Refinement IntSet_Refinement
begin

text \<open>
  The iterators of \<open>Dict\<close> (\<open>src/memory/dict.h\<close>) and \<open>IntSet\<close> (\<open>src/memory/intset.h\<close>).  The pointer
  \<open>entry_\<close> into a chain is the entry with those behind it, the null pointer the empty list.  A
  traversal visits every element once: that of a dict in the order of the buckets of both tables,
  that of an integer set in ascending order.
\<close>

section \<open>Definitions\<close>

record ('k, 'v) dict_iterator =
  it_table :: nat
  it_idx :: "nat option"
  it_entry :: "('k, 'v) dict_entry list"

definition iter_table :: "('k, 'v) dict \<Rightarrow> nat \<Rightarrow> ('k, 'v) table" where
  "iter_table d i = (if i = 0 then ht0 d else ht1 d)"

definition Iterator_new :: "('k, 'v) dict_iterator" where
  "Iterator_new = \<lparr>it_table = 0, it_idx = None, it_entry = []\<rparr>"

definition Iterator_Valid :: "('k, 'v) dict_iterator \<Rightarrow> bool" where
  "Iterator_Valid it = (it_entry it \<noteq> [])"

text \<open>The loop that looks for the next bucket with entries.\<close>

function NextBucket :: "('k, 'v) table \<Rightarrow> nat \<Rightarrow> nat" where
  "NextBucket h idx =
     (if idx < length (buckets h) \<and> buckets h ! idx = [] then NextBucket h (idx + 1) else idx)"
  by auto
termination
  by (relation "measure (\<lambda>(h, idx). length (buckets h) - idx)") auto

declare NextBucket.simps [simp del]

function SeekToNextEntry :: "('k, 'v) dict \<Rightarrow> ('k, 'v) dict_iterator \<Rightarrow> ('k, 'v) dict_iterator" where
  "SeekToNextEntry d it =
     (if it_entry it \<noteq> [] \<and> tl (it_entry it) \<noteq> [] then it\<lparr>it_entry := tl (it_entry it)\<rparr>
      else
        let h = iter_table d (it_table it);
            idx = NextBucket h (case it_idx it of Some i \<Rightarrow> i + 1 | None \<Rightarrow> 0)
        in if idx < length (buckets h) then it\<lparr>it_idx := Some idx, it_entry := buckets h ! idx\<rparr>
           else if it_table it = 1 \<or> \<not> IsRehashing d then it\<lparr>it_idx := Some idx, it_entry := []\<rparr>
           else SeekToNextEntry d (it\<lparr>it_idx := None, it_table := 1\<rparr>))"
  by auto
termination
  by (relation "measure (\<lambda>(d, it). if it_table it = 1 then 0 else 1)") auto

declare SeekToNextEntry.simps [simp del]

definition Iterator_SeekToFirst :: "('k, 'v) dict \<Rightarrow> ('k, 'v) dict_iterator" where
  "Iterator_SeekToFirst d = SeekToNextEntry d \<lparr>it_table = 0, it_idx = None, it_entry = []\<rparr>"

definition Iterator_Next :: "('k, 'v) dict \<Rightarrow> ('k, 'v) dict_iterator \<Rightarrow> ('k, 'v) dict_iterator" where
  "Iterator_Next d it = SeekToNextEntry d it"

text \<open>\<open>SeekToLast\<close>: the last bucket with entries, of the last table that has one, and its last entry.\<close>

fun LastBucket :: "('k, 'v) table \<Rightarrow> nat \<Rightarrow> nat option" where
  "LastBucket h 0 = None"
| "LastBucket h (Suc index) = (if buckets h ! index = [] then LastBucket h index else Some index)"

definition Iterator_SeekToLast :: "('k, 'v) dict \<Rightarrow> ('k, 'v) dict_iterator" where
  "Iterator_SeekToLast d =
     (let at = (\<lambda>t. map_option (\<lambda>i. \<lparr>it_table = t, it_idx = Some i,
            it_entry = [last (buckets (iter_table d t) ! i)]\<rparr>)
            (LastBucket (iter_table d t) (length (buckets (iter_table d t)))))
      in case (if IsRehashing d then at 1 else None) of
           Some it \<Rightarrow> it
         | None \<Rightarrow> (case at 0 of Some it \<Rightarrow> it
             | None \<Rightarrow> \<lparr>it_table = 0, it_idx = None, it_entry = []\<rparr>))"

section \<open>What is left of a traversal\<close>

definition later_entries :: "('k, 'v) dict \<Rightarrow> ('k, 'v) dict_iterator \<Rightarrow> ('k, 'v) dict_entry list" where
  "later_entries d it =
     concat (drop (case it_idx it of Some i \<Rightarrow> i + 1 | None \<Rightarrow> 0) (buckets (iter_table d (it_table it)))) @
     (if it_table it \<noteq> 1 \<and> IsRehashing d then entries (ht1 d) else [])"

definition iter_left :: "('k, 'v) dict \<Rightarrow> ('k, 'v) dict_iterator \<Rightarrow> ('k, 'v) dict_entry list" where
  "iter_left d it = it_entry it @ later_entries d it"

lemma NextBucket_drop:
  "NextBucket h i \<ge> i \<and> concat (drop (NextBucket h i) (buckets h)) = concat (drop i (buckets h)) \<and>
   (NextBucket h i < length (buckets h) \<longrightarrow> buckets h ! NextBucket h i \<noteq> [])"
proof (induction h i rule: NextBucket.induct)
  case (1 h i)
  show ?case
  proof (cases "i < length (buckets h) \<and> buckets h ! i = []")
    case True
    then have "drop i (buckets h) = [] # drop (i + 1) (buckets h)" by (metis Cons_nth_drop_Suc Suc_eq_plus1)
    moreover have "NextBucket h i = NextBucket h (i + 1)" using True by (subst NextBucket.simps) simp
    ultimately show ?thesis using 1 [OF True] by simp
  next
    case False
    then have "NextBucket h i = i" by (subst NextBucket.simps) auto
    then show ?thesis using False by auto
  qed
qed

text \<open>A step drops the entry it stands on and nothing else.\<close>

lemma SeekToNextEntry_left:
  shows "iter_left d (SeekToNextEntry d it) = tl (it_entry it) @ later_entries d it"
    and "it_entry (SeekToNextEntry d it) = [] \<Longrightarrow> tl (it_entry it) @ later_entries d it = []"
proof -
  have "iter_left d (SeekToNextEntry d it) = tl (it_entry it) @ later_entries d it \<and>
      (it_entry (SeekToNextEntry d it) = [] \<longrightarrow> tl (it_entry it) @ later_entries d it = [])"
  proof (induction d it rule: SeekToNextEntry.induct)
    case (1 d it)
    show ?case
    proof (cases "it_entry it \<noteq> [] \<and> tl (it_entry it) \<noteq> []")
      case True
      then have "SeekToNextEntry d it = it\<lparr>it_entry := tl (it_entry it)\<rparr>" by (subst SeekToNextEntry.simps) simp
      then show ?thesis using True by (simp add: iter_left_def later_entries_def)
    next
      case False
      then have t: "tl (it_entry it) = []" by auto
      define h where "h = iter_table d (it_table it)"
      define i where "i = (case it_idx it of Some i \<Rightarrow> i + 1 | None \<Rightarrow> 0)"
      define idx where "idx = NextBucket h i"
      note nb = NextBucket_drop [of i h, folded idx_def]
      have eq: "SeekToNextEntry d it =
         (if idx < length (buckets h) then it\<lparr>it_idx := Some idx, it_entry := buckets h ! idx\<rparr>
          else if it_table it = 1 \<or> \<not> IsRehashing d then it\<lparr>it_idx := Some idx, it_entry := []\<rparr>
          else SeekToNextEntry d (it\<lparr>it_idx := None, it_table := 1\<rparr>))"
        by (subst SeekToNextEntry.simps) (simp only: if_not_P [OF False] Let_def h_def i_def idx_def)
      have l: "later_entries d it = concat (drop i (buckets h)) @
          (if it_table it \<noteq> 1 \<and> IsRehashing d then entries (ht1 d) else [])"
        by (simp add: later_entries_def h_def i_def)
      show ?thesis
      proof (cases "idx < length (buckets h)")
        case True
        then have "concat (drop i (buckets h)) = buckets h ! idx @ concat (drop (Suc idx) (buckets h))"
          using nb by (metis Cons_nth_drop_Suc concat.simps(2))
        then show ?thesis using True nb t l unfolding eq
          by (simp add: iter_left_def later_entries_def h_def)
      next
        case out: False
        then have e: "concat (drop i (buckets h)) = []" using nb by simp
        show ?thesis
        proof (cases "it_table it = 1 \<or> \<not> IsRehashing d")
          case True
          then show ?thesis using out e t l unfolding eq
            by (auto simp: iter_left_def later_entries_def h_def)
        next
          case F2: False
          let ?it = "it\<lparr>it_idx := None, it_table := 1\<rparr>"
          have "later_entries d ?it = entries (ht1 d)"
            using F2 by (simp add: later_entries_def iter_table_def entries_def)
          then show ?thesis using "1.IH" [OF False h_def idx_def [unfolded i_def] out F2] out e t l F2 unfolding eq
            by (auto simp: idx_def i_def)
        qed
      qed
    qed
  qed
  then show "iter_left d (SeekToNextEntry d it) = tl (it_entry it) @ later_entries d it"
    and "it_entry (SeekToNextEntry d it) = [] \<Longrightarrow> tl (it_entry it) @ later_entries d it = []" by blast+
qed

section \<open>Traversals\<close>

text \<open>
  The loop of a client: it visits the entry the iterator stands on and moves on, until there is
  none or the visitor asks to stop.
\<close>

function ForEach_dict ::
  "('k, 'v) dict \<Rightarrow> ('k \<Rightarrow> 'v \<Rightarrow> 's \<Rightarrow> bool \<times> 's) \<Rightarrow> ('k, 'v) dict_iterator \<Rightarrow> 's \<Rightarrow> bool \<times> 's" where
  "ForEach_dict d visitor it s =
     (case it_entry it of
        [] \<Rightarrow> (True, s)
      | e # _ \<Rightarrow>
          (case visitor (de_key e) (de_val e) s of (go, s) \<Rightarrow>
             if \<not> go then (False, s) else ForEach_dict d visitor (Iterator_Next d it) s))"
  by auto
termination
proof (relation "measure (\<lambda>(d, visitor, it, s). length (iter_left d it))", goal_cases)
  case 2
  then show ?case by (simp add: Iterator_Next_def SeekToNextEntry_left(1)) (simp add: iter_left_def)
qed simp

declare ForEach_dict.simps [simp del]

fun visit_entries :: "('k \<Rightarrow> 'v \<Rightarrow> 's \<Rightarrow> bool \<times> 's) \<Rightarrow> ('k, 'v) dict_entry list \<Rightarrow> 's \<Rightarrow> bool \<times> 's" where
  "visit_entries f [] s = (True, s)"
| "visit_entries f (e # es) s =
     (case f (de_key e) (de_val e) s of (go, s) \<Rightarrow> if go then visit_entries f es s else (False, s))"

lemma ForEach_dict_left:
  assumes "it_entry it = [] \<Longrightarrow> later_entries d it = []"
  shows "ForEach_dict d f it s = visit_entries f (iter_left d it) s"
  using assms
proof (induction d f it s rule: ForEach_dict.induct)
  case (1 d f it s)
  show ?case
  proof (cases "it_entry it")
    case Nil
    then show ?thesis using "1.prems" by (subst ForEach_dict.simps) (simp add: iter_left_def)
  next
    case (Cons e es)
    obtain go s' where v: "f (de_key e) (de_val e) s = (go, s')" by fastforce
    have l: "iter_left d it = e # es @ later_entries d it" using Cons by (simp add: iter_left_def)
    show ?thesis
    proof (cases go)
      case False
      then show ?thesis using Cons v l by (subst ForEach_dict.simps) simp
    next
      case True
      have n: "iter_left d (Iterator_Next d it) = es @ later_entries d it"
        using SeekToNextEntry_left(1) [of d it] Cons by (simp add: Iterator_Next_def)
      have "later_entries d (Iterator_Next d it) = []" if "it_entry (Iterator_Next d it) = []"
        using SeekToNextEntry_left(2) [of d it] that Cons n by (simp add: Iterator_Next_def iter_left_def)
      then show ?thesis using "1.IH" [OF Cons v [symmetric]] True Cons v l n by (subst ForEach_dict.simps) simp
    qed
  qed
qed

lemma Iterator_all:
  assumes "dict_ok hf d"
  shows "ForEach_dict d f (Iterator_SeekToFirst d) s = visit_entries f (dict_entries d) s"
proof -
  let ?it = "\<lparr>it_table = 0, it_idx = None, it_entry = []\<rparr> :: ('a, 'b) dict_iterator"
  have "\<not> IsRehashing d \<Longrightarrow> entries (ht1 d) = []"
    using assms by (auto simp: dict_ok_def IsRehashing_def)
  then have l: "later_entries d ?it = dict_entries d"
    by (auto simp: later_entries_def iter_table_def dict_entries_def entries_def)
  have "iter_left d (Iterator_SeekToFirst d) = dict_entries d"
    "it_entry (Iterator_SeekToFirst d) = [] \<Longrightarrow> dict_entries d = []"
    using SeekToNextEntry_left [of d ?it] by (simp_all add: Iterator_SeekToFirst_def l)
  moreover from this have "it_entry (Iterator_SeekToFirst d) = [] \<Longrightarrow> later_entries d (Iterator_SeekToFirst d) = []"
    by (metis append_Nil iter_left_def)
  ultimately show ?thesis using ForEach_dict_left [of "Iterator_SeekToFirst d" d f s] by metis
qed

section \<open>The iterator of an integer set\<close>

definition IntSet_Iterator_Valid :: "intset \<Rightarrow> nat \<Rightarrow> bool" where
  "IntSet_Iterator_Valid i idx = (idx < IntSet_Size i)"

definition IntSet_SeekToFirst :: nat where
  "IntSet_SeekToFirst = 0"

definition IntSet_SeekToLast :: "intset \<Rightarrow> nat" where
  "IntSet_SeekToLast i = (IntSet_Size i + 2 ^ 32 - 1) mod 2 ^ 32"

text \<open>The loop of a client over the values; the visitor gets the value.\<close>

function ForEach_intset :: "intset \<Rightarrow> (int \<Rightarrow> 's \<Rightarrow> bool \<times> 's) \<Rightarrow> nat \<Rightarrow> 's \<Rightarrow> (bool \<times> 's) res" where
  "ForEach_intset i visitor idx s =
     (if \<not> IntSet_Iterator_Valid i idx then Inr (True, s)
      else bindE (IntSet_Get i idx) (\<lambda>v.
        case visitor v s of (go, s) \<Rightarrow>
          if \<not> go then Inr (False, s) else ForEach_intset i visitor (idx + 1) s))"
  by auto
termination
  by (relation "measure (\<lambda>(i, visitor, idx, s). IntSet_Size i - idx)") (auto simp: IntSet_Iterator_Valid_def)

declare ForEach_intset.simps [simp del]

fun visit_ints :: "(int \<Rightarrow> 's \<Rightarrow> bool \<times> 's) \<Rightarrow> int list \<Rightarrow> 's \<Rightarrow> bool \<times> 's" where
  "visit_ints f [] s = (True, s)"
| "visit_ints f (v # vs) s = (case f v s of (go, s) \<Rightarrow> if go then visit_ints f vs s else (False, s))"

lemma ForEach_intset_repr:
  assumes "intset_repr i xs"
  shows "ForEach_intset i f k s = Inr (visit_ints f (drop k xs) s)"
proof (induction "length xs - k" arbitrary: k s)
  case 0
  then show ?case using assms
    by (subst ForEach_intset.simps) (simp add: IntSet_Iterator_Valid_def IntSet_Size_def intset_repr_def)
next
  case (Suc n)
  then have k: "k < length xs" "n = length xs - (k + 1)" by simp_all
  have g: "IntSet_Get i k = Inr (xs ! k)" using EncodedValue_repr [OF assms k(1)] by (simp add: IntSet_Get_def)
  have d: "drop k xs = xs ! k # drop (k + 1) xs" using k(1) by (simp add: Cons_nth_drop_Suc)
  have "IntSet_Iterator_Valid i k" using assms k(1) by (simp add: IntSet_Iterator_Valid_def IntSet_Size_def intset_repr_def)
  then show ?case using g d Suc.hyps(1) [OF k(2)]
    by (subst ForEach_intset.simps) (simp split: prod.split)
qed

end
