(* ===== verification/Hash_Type.thy ===== *)
theory Hash_Type
  imports Containers Dict_Iterator
begin

text \<open>
  The hash type (\<open>src/data_types/hash/hash.cpp\<close>, \<open>hash.h\<close>): a map from strings to strings that is
  held in a \<open>ListPack\<close> of alternating fields and values while it is small, and in a \<open>Dict\<close>
  otherwise.  \<open>hf\<close> is the hash of a key; a lookup in the dict takes its step of a running rehash, so
  that the operations that are \<open>const\<close> return the hash as well.
\<close>

section \<open>Definitions\<close>

datatype HashEncoding = kListPack | kDict

record hash_obj =
  hash_encoding :: HashEncoding
  hash_listpack :: "bytes option"
  hash_dict :: "(string, string) dict option"

definition kHashMaxEntries :: nat where
  "kHashMaxEntries = 128"

definition kListPackMaxElementLength :: nat where
  "kListPackMaxElementLength = 64"

definition CanStoreInListPack :: "string \<Rightarrow> string \<Rightarrow> bool" where
  "CanStoreInListPack field val =
     (length field \<le> kListPackMaxElementLength \<and> length val \<le> kListPackMaxElementLength)"

definition Hash_new :: "hash_obj res" where
  "Hash_new = bindE ListPack_new (\<lambda>lp.
     Inr \<lparr>hash_encoding = kListPack, hash_listpack = Some lp, hash_dict = None\<rparr>)"

definition FindListPackField :: "hash_obj \<Rightarrow> string \<Rightarrow> nat option res" where
  "FindListPackField h field = bindE (deref (hash_listpack h)) (\<lambda>lp. ListPack_FindAndSkip lp field 1)"

definition Hash_Size :: "hash_obj \<Rightarrow> (nat \<times> hash_obj) res" where
  "Hash_Size h = (case hash_encoding h of
     kListPack \<Rightarrow> (case hash_listpack h of
       None \<Rightarrow> Inr (0, h)
     | Some lp \<Rightarrow> bindE (ListPack_Size lp) (\<lambda>(n, lp). Inr (n div 2, h\<lparr>hash_listpack := Some lp\<rparr>)))
   | kDict \<Rightarrow> Inr (case hash_dict h of None \<Rightarrow> 0 | Some d \<Rightarrow> Dict_Size d, h))"

text \<open>The result is whether the field was found, and the state the visitor leaves.\<close>

definition VisitValue :: "(string \<Rightarrow> nat) \<Rightarrow> hash_obj \<Rightarrow> string \<Rightarrow> (string \<Rightarrow> 's \<Rightarrow> 's) \<Rightarrow> 's
    \<Rightarrow> (bool \<times> 's \<times> hash_obj) res" where
  "VisitValue hf h field visitor s = (case hash_encoding h of
     kListPack \<Rightarrow> bindE (FindListPackField h field) (\<lambda>field_idx.
       case field_idx of
         None \<Rightarrow> Inr (False, s, h)
       | Some i \<Rightarrow> bindE (deref (hash_listpack h)) (\<lambda>lp. bindE (ListPack_Next lp i) (\<lambda>value_idx.
           case value_idx of
             None \<Rightarrow> Inr (False, s, h)
           | Some j \<Rightarrow> bindE (ListPack_Get lp j) (\<lambda>data.
               case data of
                 None \<Rightarrow> Inr (False, s, h)
               | Some v \<Rightarrow> Inr (True, visitor v s, h)))))
   | kDict \<Rightarrow> bindE (deref (hash_dict h)) (\<lambda>d.
       case Dict_Get hf d field of
         (None, d) \<Rightarrow> Inr (False, s, h\<lparr>hash_dict := Some d\<rparr>)
       | (Some v, d) \<Rightarrow> Inr (True, visitor v s, h\<lparr>hash_dict := Some d\<rparr>)))"

definition Hash_Get :: "(string \<Rightarrow> nat) \<Rightarrow> hash_obj \<Rightarrow> string \<Rightarrow> (string option \<times> hash_obj) res" where
  "Hash_Get hf h field = bindE (VisitValue hf h field (\<lambda>v _. Some v) None) (\<lambda>(_, r, h). Inr (r, h))"

definition Hash_Delete :: "(string \<Rightarrow> nat) \<Rightarrow> hash_obj \<Rightarrow> string \<Rightarrow> (bool \<times> hash_obj) res" where
  "Hash_Delete hf h field = (case hash_encoding h of
     kListPack \<Rightarrow> bindE (FindListPackField h field) (\<lambda>field_idx.
       case field_idx of
         None \<Rightarrow> Inr (False, h)
       | Some i \<Rightarrow> bindE (deref (hash_listpack h)) (\<lambda>lp. bindE (ListPack_DeleteRange lp i 2) (\<lambda>(_, lp).
           Inr (True, h\<lparr>hash_listpack := Some lp\<rparr>))))
   | kDict \<Rightarrow> bindE (deref (hash_dict h)) (\<lambda>d.
       case Dict_Delete hf d field of (b, d) \<Rightarrow> Inr (b, h\<lparr>hash_dict := Some d\<rparr>)))"

definition Hash_Exists :: "(string \<Rightarrow> nat) \<Rightarrow> hash_obj \<Rightarrow> string \<Rightarrow> (bool \<times> hash_obj) res" where
  "Hash_Exists hf h field = (case hash_encoding h of
     kListPack \<Rightarrow> bindE (FindListPackField h field) (\<lambda>field_idx. Inr (field_idx \<noteq> None, h))
   | kDict \<Rightarrow> bindE (deref (hash_dict h)) (\<lambda>d.
       case Dict_Get hf d field of (v, d) \<Rightarrow> Inr (v \<noteq> None, h\<lparr>hash_dict := Some d\<rparr>)))"

definition ForEachEntry :: "hash_obj \<Rightarrow> (string \<Rightarrow> string \<Rightarrow> 's \<Rightarrow> bool \<times> 's) \<Rightarrow> 's \<Rightarrow> (bool \<times> 's \<times> hash_obj) res" where
  "ForEachEntry h visitor s = bindE (Hash_Size h) (\<lambda>(n, h).
     if n = 0 then Inr (True, s, h)
     else case hash_encoding h of
       kListPack \<Rightarrow> bindE (deref (hash_listpack h)) (\<lambda>lp.
         bindE (ListPack_ForEachPair lp visitor s) (\<lambda>(r, s). Inr (r, s, h)))
     | kDict \<Rightarrow> bindE (deref (hash_dict h)) (\<lambda>d.
         case ForEach_dict d visitor (Iterator_SeekToFirst d) s of (r, s) \<Rightarrow> Inr (r, s, h)))"

definition ForEachField :: "hash_obj \<Rightarrow> (string \<Rightarrow> 's \<Rightarrow> bool \<times> 's) \<Rightarrow> 's \<Rightarrow> (bool \<times> 's \<times> hash_obj) res" where
  "ForEachField h visitor s = ForEachEntry h (\<lambda>field val. visitor field) s"

definition ForEachValue :: "hash_obj \<Rightarrow> (string \<Rightarrow> 's \<Rightarrow> bool \<times> 's) \<Rightarrow> 's \<Rightarrow> (bool \<times> 's \<times> hash_obj) res" where
  "ForEachValue h visitor s = ForEachEntry h (\<lambda>field val. visitor val) s"

definition Hash_Entries :: "hash_obj \<Rightarrow> ((string \<times> string) list \<times> hash_obj) res" where
  "Hash_Entries h = bindE (Hash_Size h) (\<lambda>(_, h).
     bindE (ForEachEntry h (\<lambda>field val entries. (True, entries @ [(field, val)])) []) (\<lambda>(_, entries, h).
       Inr (entries, h)))"

text \<open>The sum is of type \<open>size_t\<close>.\<close>

definition CanAppendToListPack :: "hash_obj \<Rightarrow> string \<Rightarrow> string \<Rightarrow> (bool \<times> hash_obj) res" where
  "CanAppendToListPack h field val = bindE (Hash_Size h) (\<lambda>(n, h).
     if n < kHashMaxEntries \<and> CanStoreInListPack field val then
       bindE (ListPack_SafeToAdd (hash_listpack h)
           ((ListPack_EstimateEntryBytes field + ListPack_EstimateEntryBytes val) mod 2 ^ 64)) (\<lambda>b. Inr (b, h))
     else Inr (False, h))"

definition SetDict :: "(string \<Rightarrow> nat) \<Rightarrow> hash_obj \<Rightarrow> string \<Rightarrow> string \<Rightarrow> (bool \<times> hash_obj) res" where
  "SetDict hf h field val =
     bindE (deref (case hash_dict h of None \<Rightarrow> Dict_Create 2 | Some d \<Rightarrow> Some d)) (\<lambda>d.
       case Dict_Get hf d field of
         (Some _, d) \<Rightarrow> Inr (False, h\<lparr>hash_dict := Some (SetVal_existing d (hf field) field val)\<rparr>)
       | (None, d) \<Rightarrow> Inr (True, h\<lparr>hash_dict := Some (Dict_Set hf d field val)\<rparr>))"

text \<open>The visitor of the conversion follows the pointer to the dict.\<close>

definition Hash_ConvertListPackToDict :: "(string \<Rightarrow> nat) \<Rightarrow> hash_obj \<Rightarrow> nat \<Rightarrow> hash_obj res" where
  "Hash_ConvertListPackToDict hf h capacity =
     bindE (case hash_listpack h of
         None \<Rightarrow> Inr (Inr (Dict_Create capacity))
       | Some lp \<Rightarrow> bindE (ListPack_ForEachPair lp
           (\<lambda>field val r. (True, bindE r (\<lambda>d. bindE (deref d) (\<lambda>d. Inr (Some (Dict_Set hf d field val))))))
           (Inr (Dict_Create capacity))) (\<lambda>(_, r). Inr r)) (\<lambda>r.
     bindE r (\<lambda>d. Inr (h\<lparr>hash_dict := d, hash_listpack := None, hash_encoding := kDict\<rparr>)))"

definition SetListPack :: "(string \<Rightarrow> nat) \<Rightarrow> hash_obj \<Rightarrow> string \<Rightarrow> string \<Rightarrow> (bool \<times> hash_obj) res" where
  "SetListPack hf h field val = bindE (FindListPackField h field) (\<lambda>field_idx.
     case field_idx of
       Some i \<Rightarrow>
         if \<not> CanStoreInListPack field val then
           bindE (Hash_Size h) (\<lambda>(n, h). bindE (Hash_ConvertListPackToDict hf h n) (\<lambda>h.
             bindE (SetDict hf h field val) (\<lambda>(_, h). Inr (False, h))))
         else bindE (deref (hash_listpack h)) (\<lambda>lp. bindE (ListPack_Next lp i) (\<lambda>value_idx.
           case value_idx of
             None \<Rightarrow> Inr (False, h)
           | Some j \<Rightarrow> bindE (ListPack_Replace lp j val) (\<lambda>(_, lp).
               Inr (False, h\<lparr>hash_listpack := Some lp\<rparr>))))
     | None \<Rightarrow>
         bindE (CanAppendToListPack h field val) (\<lambda>(ok, h).
         if \<not> ok then
           bindE (Hash_Size h) (\<lambda>(n, h). bindE (Hash_ConvertListPackToDict hf h (n + 1)) (\<lambda>h.
             bindE (SetDict hf h field val) (\<lambda>(_, h). Inr (True, h))))
         else bindE (deref (hash_listpack h)) (\<lambda>lp.
           bindE (ListPack_BatchAppend lp
             [\<lparr>le_str = field, le_sval = 0, le_is_integer = False\<rparr>,
              \<lparr>le_str = val, le_sval = 0, le_is_integer = False\<rparr>]) (\<lambda>(b, lp).
             Inr (b, h\<lparr>hash_listpack := Some lp\<rparr>)))))"

definition Hash_Set :: "(string \<Rightarrow> nat) \<Rightarrow> hash_obj \<Rightarrow> string \<Rightarrow> string \<Rightarrow> (bool \<times> hash_obj) res" where
  "Hash_Set hf h field val = (case hash_encoding h of
     kListPack \<Rightarrow> SetListPack hf h field val
   | kDict \<Rightarrow> SetDict hf h field val)"


text \<open>A sequence of changes to a hash, and what it does to a map.\<close>

datatype hash_change = HashSet string string | HashDelete string

fun hash_run :: "(string \<Rightarrow> nat) \<Rightarrow> hash_change list \<Rightarrow> hash_obj \<Rightarrow> hash_obj res" where
  "hash_run hf [] h = Inr h"
| "hash_run hf (HashSet field val # cs) h = bindE (Hash_Set hf h field val) (\<lambda>(_, h). hash_run hf cs h)"
| "hash_run hf (HashDelete field # cs) h = bindE (Hash_Delete hf h field) (\<lambda>(_, h). hash_run hf cs h)"

fun map_run :: "hash_change list \<Rightarrow> (string \<rightharpoonup> string) \<Rightarrow> (string \<rightharpoonup> string)" where
  "map_run [] m = m"
| "map_run (HashSet field val # cs) m = map_run cs (m(field \<mapsto> val))"
| "map_run (HashDelete field # cs) m = map_run cs (m(field := None))"

section \<open>The map a hash stands for\<close>

fun pairs_of :: "'a list \<Rightarrow> ('a \<times> 'a) list" where
  "pairs_of (x # y # xs) = (x, y) # pairs_of xs"
| "pairs_of _ = []"

definition flat :: "('a \<times> 'a) list \<Rightarrow> 'a list" where
  "flat ps = concat (map (\<lambda>(x, y). [x, y]) ps)"

definition pairs_hold :: "bytes \<Rightarrow> (string \<times> string) list \<Rightarrow> bool" where
  "pairs_hold lp ps \<longleftrightarrow> (\<exists>es. ListPack_repr lp es \<and> map entry_str es = flat ps) \<and> distinct (map fst ps)
     \<and> length ps \<le> 128 \<and> (\<forall>(x, y)\<in>set ps. length x \<le> 64 \<and> length y \<le> 64)"

definition hash_holds :: "(string \<Rightarrow> nat) \<Rightarrow> hash_obj \<Rightarrow> (string \<rightharpoonup> string) \<Rightarrow> bool" where
  "hash_holds hf h m = (case hash_encoding h of
     kListPack \<Rightarrow> (case hash_listpack h of None \<Rightarrow> False | Some lp \<Rightarrow> (\<exists>ps. pairs_hold lp ps \<and> m = map_of ps))
   | kDict \<Rightarrow> (case hash_dict h of None \<Rightarrow> False | Some d \<Rightarrow> dict_ok hf d \<and> m = dict_map d))"

lemma hash_holds_cases:
  assumes "hash_holds hf h m"
  obtains (listpack) lp ps es where "hash_encoding h = kListPack" "hash_listpack h = Some lp" "pairs_hold lp ps"
      "m = map_of ps" "ListPack_repr lp es" "map entry_str es = flat ps" "distinct (map fst ps)"
    | (dict) d where "hash_encoding h = kDict" "hash_dict h = Some d" "dict_ok hf d" "m = dict_map d"
  using assms by (auto simp: hash_holds_def pairs_hold_def split: HashEncoding.splits option.splits)

lemma flat_simps [simp]: "flat [] = []" "flat (p # ps) = fst p # snd p # flat ps" "flat (ps @ qs) = flat ps @ flat qs"
  by (auto simp: flat_def split: prod.split)

lemma length_flat [simp]: "length (flat ps) = 2 * length ps"
  by (induction ps) auto

lemma flat_nth: "i < length ps \<Longrightarrow> flat ps ! (2 * i) = fst (ps ! i) \<and> flat ps ! Suc (2 * i) = snd (ps ! i)"
proof (induction ps arbitrary: i)
  case (Cons p ps)
  then show ?case by (cases i) auto
qed simp

lemma flat_take: "take (2 * i) (flat ps) = flat (take i ps)"
proof (induction ps arbitrary: i)
  case (Cons p ps)
  then show ?case by (cases i) auto
qed simp

lemma flat_drop: "drop (2 * i) (flat ps) = flat (drop i ps)"
proof (induction ps arbitrary: i)
  case (Cons p ps)
  then show ?case by (cases i) auto
qed simp

lemma flat_update: "i < length ps \<Longrightarrow> (flat ps)[Suc (2 * i) := v] = flat (ps[i := (fst (ps ! i), v)])"
proof (induction ps arbitrary: i)
  case (Cons p ps)
  then show ?case by (cases i) auto
qed simp

fun visit_kv :: "(string \<Rightarrow> string \<Rightarrow> 's \<Rightarrow> bool \<times> 's) \<Rightarrow> (string \<times> string) list \<Rightarrow> 's \<Rightarrow> bool \<times> 's" where
  "visit_kv f [] s = (True, s)"
| "visit_kv f (p # ps) s = (case f (fst p) (snd p) s of (go, s) \<Rightarrow> if go then visit_kv f ps s else (False, s))"

lemma visit_pairs_flat: "visit_pairs f (flat ps) s = visit_kv f ps s"
  by (induction ps arbitrary: s) (auto split: prod.splits)

lemma visit_entries_kv: "visit_entries f es s = visit_kv f (map (\<lambda>e. (de_key e, de_val e)) es) s"
  by (induction es arbitrary: s) (auto split: prod.splits)

text \<open>A search that skips the values finds the field with its position among the pairs.\<close>

lemma find_skip_flat:
  "map entry_str es = flat ps \<Longrightarrow>
   find_skip x 1 0 es = (if x \<in> fst ` set ps then Some (2 * length (takeWhile (\<lambda>p. fst p \<noteq> x) ps)) else None)"
proof (induction ps arbitrary: es)
  case (Cons p ps)
  then obtain a b fs where "es = a # b # fs" "entry_str a = fst p" "entry_str b = snd p" "map entry_str fs = flat ps"
    by (auto simp: map_eq_Cons_conv)
  then show ?case using Cons.IH [of fs] by auto
qed simp

lemma find_field:
  assumes "map entry_str es = flat ps" "distinct (map fst ps)"
  obtains (absent) "find_skip x 1 0 es = None" "map_of ps x = None"
    | (present) i where "find_skip x 1 0 es = Some (2 * i)" "i < length ps" "fst (ps ! i) = x" "map_of ps x = Some (snd (ps ! i))"
proof (cases "x \<in> fst ` set ps")
  case False
  then show ?thesis using absent find_skip_flat [OF assms(1), of x] by (simp add: map_of_eq_None_iff)
next
  case True
  define i where "i = length (takeWhile (\<lambda>p. fst p \<noteq> x) ps)"
  have "i < length ps" unfolding i_def using True by (induction ps) auto
  moreover from this have "fst (ps ! i) = x" unfolding i_def using nth_length_takeWhile by blast
  moreover from calculation have "map_of ps x = Some (snd (ps ! i))"
    using assms(2) by (simp add: map_of_eq_Some_iff) (metis nth_mem prod.collapse)
  ultimately show ?thesis using present [of i] find_skip_flat [OF assms(1), of x] True by (simp add: i_def)
qed


section \<open>The operations that do not insert\<close>

lemma card_dom_map_of: "distinct (map fst ps) \<Longrightarrow> card (dom (map_of ps)) = length ps"
  using distinct_card [of "map fst ps"] by (simp add: dom_map_of_conv_image_fst)

lemma Hash_new_holds: "\<exists>h. Hash_new = Inr h \<and> hash_holds hf h Map.empty"
proof -
  obtain lp where "ListPack_new = Inr lp" "ListPack_repr lp []" using repr_new by blast
  then have n: "pairs_hold lp []" "ListPack_new = Inr lp" by (simp_all add: pairs_hold_def)
  have "Hash_new = Inr \<lparr>hash_encoding = kListPack, hash_listpack = Some lp, hash_dict = None\<rparr>"
    unfolding Hash_new_def by (subst n(2)) simp
  then show ?thesis using n(1) by (intro exI conjI) (assumption, auto simp: hash_holds_def intro: exI [of _ "[]"])
qed

lemma FindListPackField_holds:
  assumes "hash_listpack h = Some lp" "ListPack_repr lp es"
  shows "FindListPackField h x = Inr (map_option (lp_off es) (find_skip x 1 0 es))"
  using assms repr_FindAndSkip [OF assms(2)] by (simp add: FindListPackField_def)

lemma Hash_Size_holds:
  assumes "hash_holds hf h m"
  shows "\<exists>h'. Hash_Size h = Inr (card (dom m), h') \<and> hash_holds hf h' m \<and> hash_encoding h' = hash_encoding h"
  using assms
proof (cases rule: hash_holds_cases)
  case (listpack lp ps es)
  obtain lp' where lp': "ListPack_Size lp = Inr (length es, lp')" "ListPack_repr lp' es"
    by (rule repr_Size [OF listpack(5)])
  have "length es = 2 * length ps" using arg_cong [OF listpack(6), of length] by simp
  moreover have "pairs_hold lp' ps" using listpack(3,6) lp'(2) by (auto simp: pairs_hold_def)
  ultimately show ?thesis using listpack lp'(1) card_dom_map_of [OF listpack(7)]
    by (auto simp: Hash_Size_def hash_holds_def)
next
  case (dict d)
  then show ?thesis using assms dict.card_of [OF dict(3)] by (simp add: Hash_Size_def)
qed

lemma VisitValue_holds:
  assumes "hash_holds hf h m"
  shows "\<exists>h'. VisitValue hf h field f s =
      Inr (m field \<noteq> None, case m field of None \<Rightarrow> s | Some v \<Rightarrow> f v s, h') \<and> hash_holds hf h' m"
  using assms
proof (cases rule: hash_holds_cases)
  case (listpack lp ps es)
  note F = FindListPackField_holds [OF listpack(2,5), of field]
  have len: "length es = 2 * length ps" using arg_cong [OF listpack(6), of length] by simp
  show ?thesis using listpack(6,7)
  proof (cases rule: find_field [of _ _ field])
    case absent
    then show ?thesis using listpack F assms by (simp add: VisitValue_def)
  next
    case (present i)
    then have i: "2 * i < length es" "Suc (2 * i) < length es" using len by simp_all
    have "entry_str (es ! Suc (2 * i)) = snd (ps ! i)"
      using flat_nth [OF present(2)] listpack(6) i(2) by (metis nth_map)
    then show ?thesis
      using listpack F assms present repr_Next [OF listpack(5) i(1)] repr_Get [OF listpack(5), of "Suc (2 * i)"] i(2)
      by (simp add: VisitValue_def)
  qed
next
  case (dict d)
  obtain r d' where g: "Dict_Get hf d field = (r, d')" by fastforce
  have r: "r = dict_map d field" "dict_ok hf d'" "dict_map d' = dict_map d" using dict.get [OF dict(3) g] by simp_all
  show ?thesis using dict(1,2,4) g r(2,3) r(1) [symmetric] by (cases r) (simp_all add: VisitValue_def hash_holds_def)
qed

lemma Hash_Get_holds:
  assumes "hash_holds hf h m"
  shows "\<exists>h'. Hash_Get hf h field = Inr (m field, h') \<and> hash_holds hf h' m"
proof -
  obtain h' where "VisitValue hf h field (\<lambda>v _. Some v) None =
      Inr (m field \<noteq> None, case m field of None \<Rightarrow> None | Some v \<Rightarrow> Some v, h')" "hash_holds hf h' m"
    using VisitValue_holds [OF assms, of field "\<lambda>v _. Some v" None] by blast
  then show ?thesis by (cases "m field") (simp_all add: Hash_Get_def)
qed

lemma Hash_Exists_holds:
  assumes "hash_holds hf h m"
  shows "\<exists>h'. Hash_Exists hf h field = Inr (m field \<noteq> None, h') \<and> hash_holds hf h' m"
  using assms
proof (cases rule: hash_holds_cases)
  case (listpack lp ps es)
  note F = FindListPackField_holds [OF listpack(2,5), of field]
  show ?thesis using listpack(6,7)
  proof (cases rule: find_field [of _ _ field])
    case absent
    then show ?thesis using listpack F assms by (simp add: Hash_Exists_def)
  next
    case (present i)
    then show ?thesis using listpack F assms by (simp add: Hash_Exists_def)
  qed
next
  case (dict d)
  obtain r d' where g: "Dict_Get hf d field = (r, d')" by fastforce
  then show ?thesis using dict.get [OF dict(3) g] dict by (auto simp: Hash_Exists_def hash_holds_def)
qed

lemma map_of_delete:
  assumes "distinct (map fst ps)" "i < length ps"
  shows "map_of (take i ps @ drop (Suc i) ps) = (map_of ps)(fst (ps ! i) := None)"
    "distinct (map fst (take i ps @ drop (Suc i) ps))"
proof -
  have ps: "ps = take i ps @ ps ! i # drop (Suc i) ps" using assms(2) by (rule id_take_nth_drop)
  let ?x = "fst (ps ! i)"
  have d: "distinct (map fst (take i ps @ ps ! i # drop (Suc i) ps))" using assms(1) ps by simp
  then show "distinct (map fst (take i ps @ drop (Suc i) ps))" by auto
  have n: "map_of (take i ps) ?x = None" "map_of (drop (Suc i) ps) ?x = None"
    using d by (simp_all only: map_of_eq_None_iff) auto
  have "map_of ps = map_of (take i ps @ ps ! i # drop (Suc i) ps)" using ps by simp
  also have "\<dots> = map_of (drop (Suc i) ps) ++ [?x \<mapsto> snd (ps ! i)] ++ map_of (take i ps)"
    by (cases "ps ! i") (auto simp: map_add_def fun_eq_iff split: option.splits)
  finally have e: "map_of ps = map_of (drop (Suc i) ps) ++ [?x \<mapsto> snd (ps ! i)] ++ map_of (take i ps)" .
  show "map_of (take i ps @ drop (Suc i) ps) = (map_of ps)(?x := None)"
    unfolding e using n by (auto simp: fun_eq_iff map_add_def split: option.split)
qed

lemma Hash_Delete_holds:
  assumes "hash_holds hf h m"
  shows "\<exists>h'. Hash_Delete hf h field = Inr (m field \<noteq> None, h') \<and> hash_holds hf h' (m(field := None))"
  using assms
proof (cases rule: hash_holds_cases)
  case (listpack lp ps es)
  note F = FindListPackField_holds [OF listpack(2,5), of field]
  show ?thesis using listpack(6,7)
  proof (cases rule: find_field [of _ _ field])
    case absent
    then have "(map_of ps)(field := None) = map_of ps" by auto
    then show ?thesis using absent listpack F assms by (simp add: Hash_Delete_def)
  next
    case (present i)
    let ?es = "take (2 * i) es @ drop (2 * i + 2) es" and ?ps = "take i ps @ drop (Suc i) ps"
    have "2 * i < length es" using present(2) arg_cong [OF listpack(6), of length] by simp
    then obtain n lp' where lp': "ListPack_DeleteRange lp (lp_off es (2 * i)) 2 = Inr (n, lp')" "ListPack_repr lp' ?es"
      using repr_DeleteRange [OF listpack(5), of "2 * i" 2] by blast
    have "map entry_str ?es = flat ?ps"
      using listpack(6) flat_take [of i ps] flat_drop [of "Suc i" ps] by (simp add: take_map [symmetric] drop_map [symmetric])
    moreover have "distinct (map fst ?ps)" using map_of_delete(2) [OF listpack(7) present(2)] .
    moreover have "set ?ps \<subseteq> set ps" using set_take_subset set_drop_subset by fastforce
    moreover have "length ?ps \<le> length ps" by simp
    ultimately have "pairs_hold lp' ?ps" using lp'(2) listpack(3) by (auto simp: pairs_hold_def)
    then show ?thesis using lp'(1) present listpack F map_of_delete(1) [OF listpack(7) present(2)]
      by (auto simp: Hash_Delete_def hash_holds_def)
  qed
next
  case (dict d)
  obtain r d' where g: "Dict_Delete hf d field = (r, d')" by fastforce
  then show ?thesis using dict.del [OF dict(3) g] dict by (auto simp: Hash_Delete_def hash_holds_def)
qed

lemma ForEachEntry_holds:
  assumes "hash_holds hf h m"
  shows "\<exists>ps h'. distinct (map fst ps) \<and> map_of ps = m \<and> hash_holds hf h' m \<and>
    (\<forall>f s. ForEachEntry h f (s :: 's) = Inr (fst (visit_kv f ps s), snd (visit_kv f ps s), h'))"
proof -
  obtain h' where h': "Hash_Size h = Inr (card (dom m), h')" "hash_holds hf h' m" "hash_encoding h' = hash_encoding h"
    using Hash_Size_holds [OF assms] by blast
  show ?thesis using h'(2)
  proof (cases rule: hash_holds_cases)
    case (listpack lp ps es)
    have "card (dom m) = length ps" using listpack(4,7) card_dom_map_of by simp
    then have "ForEachEntry h f (s :: 's) = Inr (fst (visit_kv f ps s), snd (visit_kv f ps s), h')" for f s
      using h'(1) listpack(1,2,4,7) repr_ForEachPair [OF listpack(5), of f s] card_dom_map_of
      by (cases ps) (simp_all add: ForEachEntry_def listpack(6) visit_pairs_flat case_prod_beta)
    then show ?thesis using listpack(4,7) h'(2) by blast
  next
    case (dict d)
    let ?ps = "map (\<lambda>e. (de_key e, de_val e)) (dict_entries d)"
    have ps: "distinct (map fst ?ps)" "map_of ?ps = m"
      using dict(3,4) by (auto simp: dict_ok_def dict_map_def entry_map_def comp_def)
    then have "card (dom m) = length ?ps" using card_dom_map_of by metis
    then have "ForEachEntry h f (s :: 's) = Inr (fst (visit_kv f ?ps s), snd (visit_kv f ?ps s), h')" for f s
      using h'(1) dict Iterator_all [OF dict(3), of f s]
      by (cases "dict_entries d") (simp_all add: ForEachEntry_def visit_entries_kv case_prod_beta)
    then show ?thesis using ps h'(2) by blast
  qed
qed

lemma visit_kv_collect: "visit_kv (\<lambda>x y acc. (True, acc @ [(x, y)])) ps acc = (True, acc @ ps)"
  by (induction ps arbitrary: acc) auto

lemma Hash_Entries_holds:
  assumes "hash_holds hf h m"
  shows "\<exists>ps h'. Hash_Entries h = Inr (ps, h') \<and> distinct (map fst ps) \<and> map_of ps = m \<and> hash_holds hf h' m"
proof -
  obtain t where t: "Hash_Size h = Inr (card (dom m), t)" "hash_holds hf t m"
    using Hash_Size_holds [OF assms] by blast
  obtain ps h' where "distinct (map fst ps)" "map_of ps = m" "hash_holds hf h' m"
    "\<forall>f s. ForEachEntry t f (s :: (string \<times> string) list) = Inr (fst (visit_kv f ps s), snd (visit_kv f ps s), h')"
    using ForEachEntry_holds [OF t(2)] by blast
  then show ?thesis using t(1) by (auto simp: Hash_Entries_def visit_kv_collect)
qed


section \<open>Insertion\<close>

lemma SetDict_holds:
  assumes "hash_encoding h = kDict" "hash_holds hf h m"
  shows "\<exists>h'. SetDict hf h field val = Inr (m field = None, h') \<and> hash_encoding h' = kDict \<and>
    hash_holds hf h' (m(field \<mapsto> val))"
proof -
  obtain d where d: "hash_dict h = Some d" "dict_ok hf d" "m = dict_map d"
    using assms by (auto simp: hash_holds_def split: option.splits)
  obtain r d' where g: "Dict_Get hf d field = (r, d')" by fastforce
  have r: "r = dict_map d field" "dict_ok hf d'" "dict_map d' = dict_map d" using dict.get [OF d(2) g] by simp_all
  show ?thesis
  proof (cases r)
    case None
    then show ?thesis using assms(1) d g r(3) r(1) [symmetric] dict.put [OF r(2), of field val]
      by (simp add: SetDict_def hash_holds_def)
  next
    case (Some u)
    then obtain e where e: "find_entry d' (hf field) field = Some e"
      using g by (auto simp: Dict_Get_def FindEntry_def Let_def)
    show ?thesis using Some assms(1) d g r(3) r(1) [symmetric] SetVal_existing_ok [OF r(2) e, of val]
      by (simp add: SetDict_def hash_holds_def)
  qed
qed

lemma visit_kv_put:
  assumes "dict_ok hf d"
  shows "\<exists>d'. visit_kv (\<lambda>x y r. (True, bindE r (\<lambda>d. bindE (deref d) (\<lambda>d. Inr (Some (Dict_Set hf d x y))))))
        ps (Inr (Some d)) = (True, Inr (Some d')) \<and> dict_ok hf d' \<and> dict_map d' = dict_map d ++ map_of (rev ps)"
  using assms
proof (induction ps arbitrary: d)
  case (Cons p ps)
  have p: "dict_ok hf (Dict_Set hf d (fst p) (snd p))"
    "dict_map (Dict_Set hf d (fst p) (snd p)) = (dict_map d)(fst p \<mapsto> snd p)"
    using dict.put [OF Cons.prems, of "fst p" "snd p"] by simp_all
  have "map_of (rev (p # ps)) = [fst p \<mapsto> snd p] ++ map_of (rev ps)" by (simp add: prod.case_eq_if)
  then show ?case using Cons.IH [OF p(1)] p(2) by (auto simp: map_add_assoc simp del: fun_upd_apply)
qed simp

lemma map_of_rev: "distinct (map fst ps) \<Longrightarrow> map_of (rev ps) = map_of ps"
  using map_of_inject_set [of "rev ps" ps] by (simp add: rev_map [symmetric])

lemma Hash_ConvertListPackToDict_holds:
  assumes "hash_encoding h = kListPack" "hash_holds hf h m" "n \<le> 2 ^ 60"
  shows "\<exists>h'. Hash_ConvertListPackToDict hf h n = Inr h' \<and> hash_encoding h' = kDict \<and> hash_holds hf h' m"
  using assms(2)
proof (cases rule: hash_holds_cases)
  case (listpack lp ps es)
  obtain d :: "(string, string) dict" where d: "Dict_Create n = Some d" using Dict_Create_small [OF assms(3)] by blast
  obtain d' where d': "visit_kv (\<lambda>x y r. (True, bindE r (\<lambda>d. bindE (deref d) (\<lambda>d. Inr (Some (Dict_Set hf d x y))))))
        ps (Inr (Some d)) = (True, Inr (Some d'))" "dict_ok hf d'" "dict_map d' = m"
    using visit_kv_put [OF Dict_Create_ok(1) [OF d], of hf ps] Dict_Create_ok(2) [OF d] map_of_rev [OF listpack(7)]
      listpack(4) by auto
  then show ?thesis using d listpack(2)
    by (simp add: Hash_ConvertListPackToDict_def hash_holds_def repr_ForEachPair [OF listpack(5)] listpack(6) visit_pairs_flat)
next
  case (dict d)
  then show ?thesis using assms(1) by simp
qed

lemma length_enc_bound: "length (enc e) \<le> length (entry_str e) + 19"
proof (cases e)
  case (LInt v)
  have "enc_len (LInt v) \<le> 9" using int_len_le [of "entry_type (LInt v)"] by (simp add: encode_LInt)
  then show ?thesis using LInt by (simp add: length_enc BacklenBytes_def)
next
  case (LStr s)
  have "enc_len (LStr s) \<le> length s + 5" using str_head_len_le [of "entry_type (LStr s)"] by (simp add: encode_LStr)
  then show ?thesis using LStr by (simp add: length_enc BacklenBytes_def)
qed

lemma lp_body_bound: "(\<forall>e\<in>set es. length (entry_str e) \<le> 64) \<Longrightarrow> length (lp_body es) \<le> 83 * length es"
proof (induction es)
  case (Cons e es)
  then show ?case using length_enc_bound [of e] by simp
qed simp

lemma pairs_fit:
  assumes "map entry_str es = flat ps" "length ps \<le> 128" "\<forall>(x, y)\<in>set ps. length x \<le> 64 \<and> length y \<le> 64"
  shows "lp_fits es"
proof -
  have "\<forall>x\<in>set (flat ps). length x \<le> 64" using assms(3) by (induction ps) auto
  then have "\<forall>e\<in>set es. length (entry_str e) \<le> 64" using assms(1) by (metis (no_types) image_eqI set_map)
  moreover have "length es = 2 * length ps" using arg_cong [OF assms(1), of length] by simp
  ultimately show ?thesis using lp_body_bound [of es] assms(2) by (simp add: lp_fits_def)
qed

lemma map_of_update:
  assumes "distinct (map fst ps)" "i < length ps"
  shows "map_of (ps[i := (fst (ps ! i), v)]) = (map_of ps)(fst (ps ! i) \<mapsto> v)"
    "map fst (ps[i := (fst (ps ! i), v)]) = map fst ps"
proof -
  show f: "map fst (ps[i := (fst (ps ! i), v)]) = map fst ps" using assms(2)
    by (simp add: map_update) (metis list_update_id nth_map)
  show "map_of (ps[i := (fst (ps ! i), v)]) = (map_of ps)(fst (ps ! i) \<mapsto> v)"
  proof
    fix x
    consider "x = fst (ps ! i)" | "x \<noteq> fst (ps ! i)" by blast
    then show "map_of (ps[i := (fst (ps ! i), v)]) x = ((map_of ps)(fst (ps ! i) \<mapsto> v)) x"
    proof cases
      case 1
      have "distinct (map fst (ps[i := (fst (ps ! i), v)]))" using f assms(1) by simp
      moreover have "(x, v) \<in> set (ps[i := (fst (ps ! i), v)])" using 1 assms(2) by (simp add: set_update_memI)
      ultimately show ?thesis using 1 by simp
    next
      case 2
      then show ?thesis using assms
      proof (induction ps arbitrary: i)
        case (Cons p ps)
        then show ?case by (cases i) auto
      qed simp
    qed
  qed
qed


lemma SetListPack_replace:
  assumes "hash_encoding h = kListPack" "hash_listpack h = Some lp" "pairs_hold lp ps" "ListPack_repr lp es"
    "map entry_str es = flat ps" "i < length ps" "find_skip (fst (ps ! i)) 1 0 es = Some (2 * i)" "length val \<le> 64"
  shows "\<exists>h'. SetListPack hf h (fst (ps ! i)) val = Inr (False, h') \<and>
    hash_holds hf h' ((map_of ps)(fst (ps ! i) \<mapsto> val))"
proof -
  let ?x = "fst (ps ! i)" and ?ps = "ps[i := (fst (ps ! i), val)]" and ?es = "es[Suc (2 * i) := entry_of val]"
  have p: "distinct (map fst ps)" "length ps \<le> 128" "\<forall>(x, y)\<in>set ps. length x \<le> 64 \<and> length y \<le> 64"
    using assms(3) by (simp_all add: pairs_hold_def)
  have ix: "2 * i < length es" "Suc (2 * i) < length es"
    using assms(6) arg_cong [OF assms(5), of length] by simp_all
  have "(?x, snd (ps ! i)) \<in> set ps" using nth_mem [OF assms(6)] by simp
  then have x64: "length ?x \<le> 64" using p(3) by auto
  have e: "map entry_str ?es = flat ?ps" using flat_update [OF assms(6), of val] assms(5) by (simp add: map_update)
  have b: "\<forall>(x, y)\<in>set ?ps. length x \<le> 64 \<and> length y \<le> 64"
    using p(3) x64 assms(8) set_update_subset_insert [of ps i "(?x, val)"] by auto
  have "lp_fits ?es" using pairs_fit [OF e _ b] p(2) by simp
  moreover have "element (Some val) None (entry_of val)" using assms(8) by (intro element_str) simp
  ultimately obtain lp' where lp': "ListPack_Replace lp (lp_off es (Suc (2 * i))) val = Inr (True, lp')"
    "ListPack_repr lp' ?es"
    using repr_Insert_replace [OF assms(4) ix(2), of "Some val" None "entry_of val"] by (auto simp: ListPack_Replace_def)
  have "pairs_hold lp' ?ps"
    using lp'(2) e b p(1,2) map_of_update(2) [OF p(1) assms(6), of val] by (auto simp: pairs_hold_def)
  then have "hash_holds hf (h\<lparr>hash_listpack := Some lp'\<rparr>) ((map_of ps)(?x \<mapsto> val))"
    using assms(1) map_of_update(1) [OF p(1) assms(6), of val] by (auto simp: hash_holds_def)
  moreover have "SetListPack hf h ?x val = Inr (False, h\<lparr>hash_listpack := Some lp'\<rparr>)"
    using FindListPackField_holds [OF assms(2,4), of ?x] assms(2,7,8) x64 repr_Next [OF assms(4) ix(1)] ix(2) lp'(1)
    by (simp add: SetListPack_def CanStoreInListPack_def kListPackMaxElementLength_def)
  ultimately show ?thesis by blast
qed

lemma SetListPack_convert:
  assumes "hash_encoding h = kListPack" "hash_holds hf h m" "k \<le> 1"
  shows "\<exists>h'. bindE (Hash_Size h) (\<lambda>(n, h). bindE (Hash_ConvertListPackToDict hf h (n + k)) (\<lambda>h.
      bindE (SetDict hf h field val) (\<lambda>(_, h). Inr (b, h)))) = Inr (b, h') \<and> hash_holds hf h' (m(field \<mapsto> val))"
proof -
  obtain t where t: "Hash_Size h = Inr (card (dom m), t)" "hash_holds hf t m" "hash_encoding t = kListPack"
    using Hash_Size_holds [OF assms(2)] assms(1) by auto
  have "card (dom m) \<le> 128" using assms(2)
  proof (cases rule: hash_holds_cases)
    case (listpack lp ps es)
    then show ?thesis using card_dom_map_of [OF listpack(7)] by (simp add: pairs_hold_def)
  next
    case (dict d)
    then show ?thesis using assms(1) by simp
  qed
  then have "card (dom m) + k \<le> 2 ^ 60" using assms(3) by simp
  then obtain u where u: "Hash_ConvertListPackToDict hf t (card (dom m) + k) = Inr u" "hash_encoding u = kDict"
    "hash_holds hf u m" using Hash_ConvertListPackToDict_holds [OF t(3,2)] by blast
  obtain v where "SetDict hf u field val = Inr (m field = None, v)" "hash_holds hf v (m(field \<mapsto> val))"
    using SetDict_holds [OF u(2,3)] by blast
  then show ?thesis using t(1) u(1) by simp
qed

lemma CanAppendToListPack_holds:
  assumes "hash_encoding h = kListPack" "hash_holds hf h m"
  shows "\<exists>b h'. CanAppendToListPack h field val = Inr (b, h') \<and> hash_encoding h' = kListPack \<and> hash_holds hf h' m \<and>
    (b \<longrightarrow> card (dom m) < 128 \<and> length field \<le> 64 \<and> length val \<le> 64)"
proof -
  obtain t where t: "Hash_Size h = Inr (card (dom m), t)" "hash_holds hf t m" "hash_encoding t = kListPack"
    using Hash_Size_holds [OF assms(2)] assms(1) by auto
  obtain lp where lp: "hash_listpack t = Some lp" "ListPack_TotalBytes lp = Inr (length lp)"
    using t(2,3) repr_TotalBytes by (auto simp: hash_holds_def pairs_hold_def split: option.splits)
  show ?thesis using t lp
    by (auto simp: CanAppendToListPack_def CanStoreInListPack_def kHashMaxEntries_def kListPackMaxElementLength_def
        ListPack_SafeToAdd_def)
qed

lemma SetListPack_append:
  assumes "hash_listpack h = Some lp" "pairs_hold lp ps" "x \<notin> fst ` set ps" "hash_encoding h = kListPack"
    "length ps < 128" "length x \<le> 64" "length val \<le> 64"
  shows "\<exists>lp'. ListPack_BatchAppend lp [\<lparr>le_str = x, le_sval = 0, le_is_integer = False\<rparr>,
        \<lparr>le_str = val, le_sval = 0, le_is_integer = False\<rparr>] = Inr (True, lp') \<and>
    hash_holds hf (h\<lparr>hash_listpack := Some lp'\<rparr>) ((map_of ps)(x \<mapsto> val))"
proof -
  obtain es where es: "ListPack_repr lp es" "map entry_str es = flat ps" "distinct (map fst ps)"
    "\<forall>(x, y)\<in>set ps. length x \<le> 64 \<and> length y \<le> 64" using assms(2) by (auto simp: pairs_hold_def)
  let ?bs = "[\<lparr>le_str = x, le_sval = 0, le_is_integer = False\<rparr>, \<lparr>le_str = val, le_sval = 0, le_is_integer = False\<rparr>]"
  let ?es = "es @ map batch_entry ?bs" and ?ps = "ps @ [(x, val)]"
  have e: "map entry_str ?es = flat ?ps" using es(2) by (simp add: batch_entry_def)
  have b: "\<forall>(x, y)\<in>set ?ps. length x \<le> 64 \<and> length y \<le> 64" using es(4) assms(6,7) by auto
  have "lp_fits ?es" using pairs_fit [OF e _ b] assms(5) by simp
  moreover have "list_all batch_ok ?bs" using assms(6,7) by (simp add: batch_ok_def)
  ultimately obtain lp' where lp': "BatchInsert_at lp (lp_off es (length es)) kInsertBefore ?bs = Inr (True, lp')"
    "ListPack_repr lp' ?es" using repr_BatchInsert [OF es(1) order_refl, of ?bs] by auto
  have "pairs_hold lp' ?ps" using lp'(2) e b es(3) assms(3,5) by (auto simp: pairs_hold_def)
  moreover have "map_of ?ps = (map_of ps)(x \<mapsto> val)"
    using assms(3) by (auto simp: fun_eq_iff map_add_def map_of_eq_None_iff [symmetric] split: option.split)
  ultimately have "hash_holds hf (h\<lparr>hash_listpack := Some lp'\<rparr>) ((map_of ps)(x \<mapsto> val))"
    using assms(4) by (auto simp: hash_holds_def)
  then show ?thesis using lp'(1) repr_TotalBytes [OF es(1)] repr_off_end [OF es(1)]
    by (simp add: ListPack_BatchAppend_def)
qed

lemma SetListPack_holds:
  assumes h: "hash_encoding h = kListPack" "hash_holds hf h m"
  shows "\<exists>h'. SetListPack hf h x val = Inr (m x = None, h') \<and> hash_holds hf h' (m(x \<mapsto> val))"
  using h(2)
proof (cases rule: hash_holds_cases)
  case (listpack lp ps es)
  note F = FindListPackField_holds [OF listpack(2,5), of x]
  show ?thesis using listpack(6,7)
  proof (cases rule: find_field [of _ _ x])
    case (present i)
    have mx: "(m x = None) = False" using present(4) listpack(4) by simp
    show ?thesis
    proof (cases "length val \<le> 64")
      case True
      then show ?thesis
        using SetListPack_replace [OF listpack(1,2,3,5,6) present(2), of val hf] present(1,3)
        unfolding mx unfolding listpack(4) by simp
    next
      case False
      then show ?thesis using SetListPack_convert [OF h, of 0 x val False] F present(1) unfolding mx
        by (simp add: SetListPack_def CanStoreInListPack_def kListPackMaxElementLength_def)
    qed
  next
    case absent
    have mx: "m x = None" using absent(2) listpack(4) by simp
    obtain b t where t: "CanAppendToListPack h x val = Inr (b, t)" "hash_encoding t = kListPack" "hash_holds hf t m"
      "b \<longrightarrow> card (dom m) < 128 \<and> length x \<le> 64 \<and> length val \<le> 64"
      using CanAppendToListPack_holds [OF h] by blast
    show ?thesis
    proof (cases b)
      case False
      then show ?thesis using SetListPack_convert [OF t(2,3), of 1 x val True] F absent(1) mx t(1)
        by (simp add: SetListPack_def)
    next
      case True
      show ?thesis using t(3)
      proof (cases rule: hash_holds_cases)
        case l2: (listpack lp2 ps2 es2)
        have "x \<notin> fst ` set ps2" "length ps2 < 128"
          using mx l2(4,7) True t(4) card_dom_map_of [OF l2(7)] by (auto simp: map_of_eq_None_iff)
        then obtain lp' where "ListPack_BatchAppend lp2 [\<lparr>le_str = x, le_sval = 0, le_is_integer = False\<rparr>,
            \<lparr>le_str = val, le_sval = 0, le_is_integer = False\<rparr>] = Inr (True, lp')"
          "hash_holds hf (t\<lparr>hash_listpack := Some lp'\<rparr>) (m(x \<mapsto> val))"
          using SetListPack_append [OF l2(2,3) _ t(2), of x val hf] True t(4) l2(4) by auto
        then show ?thesis using F absent(1) mx t(1) True l2(2) by (simp add: SetListPack_def)
      next
        case (dict d)
        then show ?thesis using t(2) by simp
      qed
    qed
  qed
next
  case (dict d)
  then show ?thesis using h(1) by simp
qed

lemma Hash_Set_holds:
  assumes "hash_holds hf h m"
  shows "\<exists>h'. Hash_Set hf h x val = Inr (m x = None, h') \<and> hash_holds hf h' (m(x \<mapsto> val))"
  using SetListPack_holds [OF _ assms] SetDict_holds [OF _ assms, of x val]
  by (cases "hash_encoding h") (auto simp: Hash_Set_def)


lemma hash_run_holds:
  "hash_holds hf h m \<Longrightarrow> \<exists>h'. hash_run hf cs h = Inr h' \<and> hash_holds hf h' (map_run cs m)"
proof (induction cs arbitrary: h m)
  case (Cons c cs)
  show ?case
  proof (cases c)
    case (HashSet field val)
    then show ?thesis using Hash_Set_holds [OF Cons.prems, of field val] Cons.IH by fastforce
  next
    case (HashDelete field)
    then show ?thesis using Hash_Delete_holds [OF Cons.prems, of field] Cons.IH by fastforce
  qed
qed simp

section \<open>Properties\<close>

text \<open>
  C31: a hash behaves as a map from fields to values, whatever its encoding: after any sequence of
  \<open>Set\<close> and \<open>Delete\<close> on a new hash, with the conversion from the listpack to the dict wherever it
  falls, no call fails, \<open>Get\<close> and \<open>Exists\<close> answer as the map with those changes, \<open>Size\<close> is the
  number of its fields, and \<open>Entries\<close> lists every field once, with its value.
\<close>

theorem Hash_behaves:
  "\<exists>h. bindE Hash_new (hash_run hf cs) = Inr h \<and>
    (\<forall>field. \<exists>h'. Hash_Get hf h field = Inr (map_run cs Map.empty field, h')) \<and>
    (\<forall>field. \<exists>h'. Hash_Exists hf h field = Inr (map_run cs Map.empty field \<noteq> None, h')) \<and>
    (\<exists>h'. Hash_Size h = Inr (card (dom (map_run cs Map.empty)), h')) \<and>
    (\<exists>ps h'. Hash_Entries h = Inr (ps, h') \<and> distinct (map fst ps) \<and> map_of ps = map_run cs Map.empty)"
proof -
  let ?m = "map_run cs Map.empty"
  obtain h0 where h0: "Hash_new = Inr h0" "hash_holds hf h0 Map.empty" using Hash_new_holds by blast
  obtain h where h: "hash_run hf cs h0 = Inr h" "hash_holds hf h ?m" using hash_run_holds [OF h0(2)] by blast
  have "bindE Hash_new (hash_run hf cs) = Inr h" unfolding h0(1) using h(1) by simp
  then show ?thesis
    using Hash_Get_holds [OF h(2)] Hash_Exists_holds [OF h(2)] Hash_Size_holds [OF h(2)] Hash_Entries_holds [OF h(2)]
    by blast
qed

end
