(* ===== verification/String_Commands.thy ===== *)
theory String_Commands
  imports Command_Env Hash_Type
begin

text \<open>
  The string commands: \<open>src/server/commands/string/get.cpp\<close>, \<open>set.cpp\<close> and \<open>string.cpp\<close>.  The
  definitions have the names of the source, with the command in front where several files use the
  same name.
\<close>

section \<open>Definitions\<close>

text \<open>The only bit of \<open>flags\<close> is \<open>SetKeyFlag::kKeepTtl\<close>.\<close>

record StringArgs =
  sa_key :: string
  sa_value :: string
  sa_expire :: int
  sa_keep_ttl :: bool

datatype GetStatus = kGetOk | kGetMissing | kGetWrongType

definition Get_ParseArgs :: "string list \<Rightarrow> StringArgs option" where
  "Get_ParseArgs args = (case args of
     [key] \<Rightarrow> Some \<lparr>sa_key = key, sa_value = [], sa_expire = 0, sa_keep_ttl = False\<rparr>
   | _ \<Rightarrow> None)"

definition Get :: "server_env \<Rightarrow> ('s, 'l, 'z, 'h) redis_object redis_db \<Rightarrow> StringArgs
    \<Rightarrow> ((string option \<times> GetStatus) \<times> ('s, 'l, 'z, 'h) redis_object redis_db) res" where
  "Get env db args = (case LookupKey (key_hash env) (clock env 0) db (sa_key args) of
     (None, db) \<Rightarrow> Inr ((None, kGetMissing), db)
   | (Some ob, db) \<Rightarrow>
       if RedisObject_Type ob \<noteq> kString then Inr ((None, kGetWrongType), db)
       else bindE (RedisObject_String ob) (\<lambda>v. Inr ((Some v, kGetOk), db)))"

definition HandleGet :: "server_env \<Rightarrow> ProtocolVersion \<Rightarrow> string list
    \<Rightarrow> ('s, 'l, 'z, 'h) redis_object redis_db option \<Rightarrow> ('s, 'l, 'z, 'h) redis_object handled" where
  "HandleGet env p args redis_db = (case Get_ParseArgs args of
     None \<Rightarrow> Inr (reply env WrongNumberOfArguments, redis_db)
   | Some a \<Rightarrow> with_db env redis_db (\<lambda>db.
       bindE (Get env db a) (\<lambda>((val, status), db).
         Inr (reply env (if status = kGetWrongType then WrongTypeError
           else case val of Some v \<Rightarrow> FromBulkString v | None \<Rightarrow> Null p), db))))"

definition Set_ExpireAtFromTtl :: "int \<Rightarrow> int \<Rightarrow> int \<Rightarrow> int option" where
  "Set_ExpireAtFromTtl ttl multiplier now =
     (if ttl \<le> 0 then None
      else if ttl > INT64_MAX div multiplier then None
      else let ttl_ms = ttl * multiplier in
        if ttl_ms > INT64_MAX - now then None else Some (now + ttl_ms))"

text \<open>The index behind the option and the arguments with the option, or \<open>None\<close> for \<open>-1\<close>.\<close>

definition ParseSetOption :: "int \<Rightarrow> string list \<Rightarrow> nat \<Rightarrow> StringArgs \<Rightarrow> (nat \<times> StringArgs) option" where
  "ParseSetOption now args idx a =
     (let option = args ! idx in
      if EqualsIgnoreCase option ''KEEPTTL'' then
        if sa_expire a > 0 then None else Some (idx + 1, a\<lparr>sa_keep_ttl := True\<rparr>)
      else
        let expires_in_seconds = EqualsIgnoreCase option ''EX'';
            expires_in_milliseconds = EqualsIgnoreCase option ''PX'' in
        if \<not> expires_in_seconds \<and> \<not> expires_in_milliseconds then None
        else if sa_keep_ttl a \<or> sa_expire a > 0 \<or> idx + 1 \<ge> length args then None
        else case ToInt64 (args ! (idx + 1)) of
            None \<Rightarrow> None
          | Some ttl \<Rightarrow>
              if ttl \<le> 0 then None
              else case Set_ExpireAtFromTtl ttl (if expires_in_seconds then 1000 else 1) now of
                  None \<Rightarrow> None
                | Some expire \<Rightarrow> Some (idx + 2, a\<lparr>sa_expire := expire\<rparr>))"

lemma ParseSetOption_next: "ParseSetOption now args idx a = Some (j, a') \<Longrightarrow> idx < j"
  by (auto simp: ParseSetOption_def Let_def split: if_splits option.splits)

function Set_ParseArgs_loop :: "server_env \<Rightarrow> string list \<Rightarrow> nat \<Rightarrow> StringArgs \<Rightarrow> StringArgs option" where
  "Set_ParseArgs_loop env args i a =
     (if i < length args then
        (case ParseSetOption (clock env i) args i a of
           None \<Rightarrow> None
         | Some (j, a) \<Rightarrow> Set_ParseArgs_loop env args j a)
      else Some a)"
  by auto
termination
  by (relation "measure (\<lambda>(env, args, i, a). length args - i)") (auto dest: ParseSetOption_next)

declare Set_ParseArgs_loop.simps [simp del]

definition Set_ParseArgs :: "server_env \<Rightarrow> string list \<Rightarrow> StringArgs option" where
  "Set_ParseArgs env args =
     (if length args < 2 then None
      else Set_ParseArgs_loop env args 2
        \<lparr>sa_key = args ! 0, sa_value = args ! 1, sa_expire = 0, sa_keep_ttl = False\<rparr>)"

definition Set_set :: "server_env \<Rightarrow> ('s, 'l, 'z, 'h) redis_object redis_db \<Rightarrow> StringArgs
    \<Rightarrow> int \<times> ('s, 'l, 'z, 'h) redis_object redis_db" where
  "Set_set env db a =
     (case SetKey (key_hash env) db (sa_key a) (Some (String_value (sa_value a))) (sa_expire a) (sa_keep_ttl a) of
        (status, db) \<Rightarrow> (if status = DbStatus.kError then -1 else 0, db))"

definition HandleSet :: "server_env \<Rightarrow> ProtocolVersion \<Rightarrow> string list
    \<Rightarrow> ('s, 'l, 'z, 'h) redis_object redis_db option \<Rightarrow> ('s, 'l, 'z, 'h) redis_object handled" where
  "HandleSet env p args redis_db = (case Set_ParseArgs env args of
     None \<Rightarrow> Inr (reply env SyntaxError, redis_db)
   | Some a \<Rightarrow> with_db env redis_db (\<lambda>db. case Set_set env db a of (result, db) \<Rightarrow>
       if result < 0 then Inr (reply env (FromError ''ERR failed to set key''), db)
       else Inr (MarkModified # reply env (FromString ''OK''), db)))"

datatype StringStatus = kStringOk | kStringMissing | kStringWrongType | kStringError

definition LookupString :: "server_env \<Rightarrow> int \<Rightarrow> ('s, 'l, 'z, 'h) redis_object redis_db \<Rightarrow> string
    \<Rightarrow> ((string option \<times> StringStatus) \<times> ('s, 'l, 'z, 'h) redis_object redis_db) res" where
  "LookupString env now db key = (case LookupKey (key_hash env) now db key of
     (None, db) \<Rightarrow> Inr ((None, kStringMissing), db)
   | (Some ob, db) \<Rightarrow>
       if RedisObject_Type ob \<noteq> kString then Inr ((None, kStringWrongType), db)
       else bindE (RedisObject_String ob) (\<lambda>v. Inr ((Some v, kStringOk), db)))"

definition IncrementValue :: "int \<Rightarrow> int \<Rightarrow> int option" where
  "IncrementValue val increment =
     (if (increment > 0 \<and> val > INT64_MAX - increment) \<or> (increment < 0 \<and> val < INT64_MIN - increment)
      then None else Some (val + increment))"

definition HandleIncrement :: "int \<Rightarrow> server_env \<Rightarrow> ProtocolVersion \<Rightarrow> string list
    \<Rightarrow> ('s, 'l, 'z, 'h) redis_object redis_db option \<Rightarrow> ('s, 'l, 'z, 'h) redis_object handled" where
  "HandleIncrement increment env p args redis_db =
     (if length args \<noteq> 1 then Inr (reply env WrongNumberOfArguments, redis_db)
      else with_db env redis_db (\<lambda>db.
        case LookupKey (key_hash env) (clock env 0) db (args ! 0) of (object, db) \<Rightarrow>
        if (case object of Some ob \<Rightarrow> RedisObject_Type ob \<noteq> kString | None \<Rightarrow> False) then Inr (reply env WrongTypeError, db)
        else bindE (case object of None \<Rightarrow> Inr (Some 0) | Some ob \<Rightarrow> bindE (RedisObject_String ob) (\<lambda>s. Inr (ToInt64 s)))
        (\<lambda>val. case val of
           None \<Rightarrow> Inr (reply env (FromError ''ERR value is not an integer''), db)
         | Some v \<Rightarrow> (case IncrementValue v increment of
             None \<Rightarrow> Inr (reply env (FromError ''ERR increment or decrement would overflow''), db)
           | Some nxt \<Rightarrow>
               if object \<noteq> None
               then Inr (MarkModified # reply env (FromInt64 nxt), StoreObject env db (args ! 0) (String_value (dec_int nxt)))
               else case SetKey (key_hash env) db (args ! 0) (Some (String_value (dec_int nxt))) 0 False of (status, db) \<Rightarrow>
                 if status = DbStatus.kError then Inr (reply env (FromError ''ERR failed to set key''), db)
                 else Inr (MarkModified # reply env (FromInt64 nxt), db)))))"

definition HandleIncr :: "server_env \<Rightarrow> ProtocolVersion \<Rightarrow> string list
    \<Rightarrow> ('s, 'l, 'z, 'h) redis_object redis_db option \<Rightarrow> ('s, 'l, 'z, 'h) redis_object handled" where
  "HandleIncr = HandleIncrement 1"

definition HandleDecr :: "server_env \<Rightarrow> ProtocolVersion \<Rightarrow> string list
    \<Rightarrow> ('s, 'l, 'z, 'h) redis_object redis_db option \<Rightarrow> ('s, 'l, 'z, 'h) redis_object handled" where
  "HandleDecr = HandleIncrement (-1)"

definition HandleAppend :: "server_env \<Rightarrow> ProtocolVersion \<Rightarrow> string list
    \<Rightarrow> ('s, 'l, 'z, 'h) redis_object redis_db option \<Rightarrow> ('s, 'l, 'z, 'h) redis_object handled" where
  "HandleAppend env p args redis_db =
     (if length args \<noteq> 2 then Inr (reply env WrongNumberOfArguments, redis_db)
      else with_db env redis_db (\<lambda>db.
        let key = args ! 0; value_to_append = args ! 1 in
        case LookupKey (key_hash env) (clock env 0) db key of
          (None, db) \<Rightarrow> (case ToReplyInteger (length value_to_append) of
              None \<Rightarrow> Inr (reply env (FromError ''ERR string length out of range''), db)
            | Some n \<Rightarrow>
                (case SetKey (key_hash env) db key (Some (String_value value_to_append)) 0 False of (status, db) \<Rightarrow>
                 if status = DbStatus.kError then Inr (reply env (FromError ''ERR failed to set key''), db)
                 else Inr (MarkModified # reply env (FromInt64 n), db)))
        | (Some ob, db) \<Rightarrow>
            if RedisObject_Type ob \<noteq> kString then Inr (reply env WrongTypeError, db)
            else bindE (RedisObject_String ob) (\<lambda>s.
              let val = s @ value_to_append; db = StoreObject env db key (String_value val) in
              Inr (MarkModified # reply env (case ToReplyInteger (length val) of
                  Some n \<Rightarrow> FromInt64 n
                | None \<Rightarrow> FromError ''ERR string length out of range''), db))))"

fun HandleMGet_loop :: "server_env \<Rightarrow> ProtocolVersion \<Rightarrow> nat \<Rightarrow> string list \<Rightarrow> string
    \<Rightarrow> ('s, 'l, 'z, 'h) redis_object redis_db \<Rightarrow> (string \<times> ('s, 'l, 'z, 'h) redis_object redis_db) res" where
  "HandleMGet_loop env p i [] encoded db = Inr (encoded, db)"
| "HandleMGet_loop env p i (key # keys) encoded db =
     bindE (LookupString env (clock env i) db key) (\<lambda>((val, status), db).
       bindE (if status = kStringOk then bindE (deref val) (\<lambda>v. Inr (AppendBulkString v encoded))
              else Inr (encoded @ Null p))
         (\<lambda>encoded. HandleMGet_loop env p (Suc i) keys encoded db))"

definition HandleMGet :: "server_env \<Rightarrow> ProtocolVersion \<Rightarrow> string list
    \<Rightarrow> ('s, 'l, 'z, 'h) redis_object redis_db option \<Rightarrow> ('s, 'l, 'z, 'h) redis_object handled" where
  "HandleMGet env p keys redis_db =
     (if keys = [] then Inr (reply env WrongNumberOfArguments, redis_db)
      else with_db env redis_db (\<lambda>db.
        bindE (HandleMGet_loop env p 0 keys (FromArrayHeader (length keys)) db) (\<lambda>(encoded, db).
          Inr (reply env encoded, db))))"

fun HandleMSet_loop :: "server_env \<Rightarrow> string list \<Rightarrow> ('s, 'l, 'z, 'h) redis_object redis_db
    \<Rightarrow> ('s, 'l, 'z, 'h) redis_object redis_db res" where
  "HandleMSet_loop env [] db = Inr db"
| "HandleMSet_loop env [key] db = Inl Out_of_bounds"
| "HandleMSet_loop env (key # val # args) db =
     HandleMSet_loop env args (snd (SetKey (key_hash env) db key (Some (String_value val)) 0 False))"

definition HandleMSet :: "server_env \<Rightarrow> ProtocolVersion \<Rightarrow> string list
    \<Rightarrow> ('s, 'l, 'z, 'h) redis_object redis_db option \<Rightarrow> ('s, 'l, 'z, 'h) redis_object handled" where
  "HandleMSet env p args redis_db =
     (if args = [] \<or> length args mod 2 \<noteq> 0 then Inr (reply env WrongNumberOfArguments, redis_db)
      else with_db env redis_db (\<lambda>db.
        bindE (HandleMSet_loop env args db) (\<lambda>db. Inr (MarkModified # reply env (FromString ''OK''), db))))"

section \<open>Lemmas\<close>

lemma HandleSet_ok:
  assumes ok: "Db_Refinement.db_ok (key_hash env) db" and a: "Set_ParseArgs env args = Some a"
  shows "\<exists>db'. HandleSet env p args (Some db) = Inr (MarkModified # reply env (FromString ''OK''), Some db') \<and>
    db_to (key_hash env) db db' ((objects db)(sa_key a \<mapsto> String_value (sa_value a)))
      (if sa_expire a > 0 then (expiries db)(sa_key a \<mapsto> sa_expire a)
       else if sa_expire a = 0 \<and> \<not> sa_keep_ttl a then (expiries db)(sa_key a := None) else expiries db)"
proof -
  obtain st db' where s: "SetKey (key_hash env) db (sa_key a) (Some (String_value (sa_value a))) (sa_expire a)
      (sa_keep_ttl a) = (st, db')" by fastforce
  have "HandleSet env p args (Some db) = Inr (MarkModified # reply env (FromString ''OK''), Some db')"
    using SetKey_ok [OF ok s] s a by (simp add: HandleSet_def Set_set_def)
  then show ?thesis using SetKey_ok [OF ok s] by blast
qed

definition get_reply :: "ProtocolVersion \<Rightarrow> ('s, 'l, 'z, 'h) redis_object option \<Rightarrow> string" where
  "get_reply p ob = (case ob of None \<Rightarrow> Null p | Some (String_value v) \<Rightarrow> FromBulkString v | Some _ \<Rightarrow> WrongTypeError)"

lemma HandleGet_ok:
  assumes ok: "Db_Refinement.db_ok (key_hash env) db"
  shows "\<exists>db'. HandleGet env p [k] (Some db) = Inr (reply env (get_reply p (visible (clock env 0) db k)), Some db') \<and>
    db_to (key_hash env) db db' (drop_expired (clock env 0) db k (objects db)) (drop_expired (clock env 0) db k (expiries db))"
  using ok
proof (cases rule: LookupKey_cases [where now = "clock env 0" and key = k])
  case (missing db')
  then show ?thesis by (simp add: HandleGet_def Get_ParseArgs_def Get_def get_reply_def)
next
  case (found ob db')
  then show ?thesis
    by (cases ob) (simp_all add: HandleGet_def Get_ParseArgs_def Get_def get_reply_def RedisObject_Type_def RedisObject_String_def)
qed

lemma Set_ParseArgs_plain:
  "Set_ParseArgs env [k, v] = Some \<lparr>sa_key = k, sa_value = v, sa_expire = 0, sa_keep_ttl = False\<rparr>"
  unfolding Set_ParseArgs_def by (subst Set_ParseArgs_loop.simps) simp

definition ttl_unit :: "string \<Rightarrow> int \<Rightarrow> bool" where
  "ttl_unit option multiplier \<longleftrightarrow> \<not> EqualsIgnoreCase option ''KEEPTTL'' \<and>
     (if EqualsIgnoreCase option ''EX'' then multiplier = 1000
      else EqualsIgnoreCase option ''PX'' \<and> multiplier = 1)"

lemma ttl_unit_names: "ttl_unit ''EX'' 1000" "ttl_unit ''PX'' 1"
  by (simp_all add: ttl_unit_def Strings.EqualsIgnoreCase_def FoldAsciiCase_def)

lemma Set_ExpireAtFromTtl_Some:
  assumes "0 < ttl" "0 < m" "0 \<le> now" "now + ttl * m \<le> INT64_MAX"
  shows "Set_ExpireAtFromTtl ttl m now = Some (now + ttl * m)"
proof -
  have "ttl * m \<le> INT64_MAX" using assms(3,4) by simp
  then have "ttl \<le> INT64_MAX div m" using assms(2) zdiv_mono1 [of "ttl * m" INT64_MAX m] by simp
  then show ?thesis using assms by (simp add: Set_ExpireAtFromTtl_def Let_def)
qed

lemma Set_ParseArgs_ttl:
  assumes u: "ttl_unit option m" and n: "ToInt64 n = Some ttl" "0 < ttl" and now: "0 \<le> clock env 2"
    and fits: "clock env 2 + ttl * m \<le> INT64_MAX"
  shows "Set_ParseArgs env [k, v, option, n] =
    Some \<lparr>sa_key = k, sa_value = v, sa_expire = clock env 2 + ttl * m, sa_keep_ttl = False\<rparr>"
proof -
  have m: "0 < m" using u by (simp add: ttl_unit_def split: if_splits)
  note e = Set_ExpireAtFromTtl_Some [OF n(2) m now fits]
  have "ParseSetOption (clock env 2) [k, v, option, n] 2
      \<lparr>sa_key = k, sa_value = v, sa_expire = 0, sa_keep_ttl = False\<rparr> =
    Some (4, \<lparr>sa_key = k, sa_value = v, sa_expire = clock env 2 + ttl * m, sa_keep_ttl = False\<rparr>)"
    using u n e by (auto simp: ParseSetOption_def ttl_unit_def numeral_2_eq_2 split: if_splits)
  then show ?thesis unfolding Set_ParseArgs_def
    by (subst Set_ParseArgs_loop.simps, simp) (subst Set_ParseArgs_loop.simps, simp)
qed

text \<open>The number a key counts from, or the error reply.\<close>

definition counter_value :: "('s, 'l, 'z, 'h) redis_object option \<Rightarrow> string + int" where
  "counter_value ob = (case ob of
     None \<Rightarrow> Inr 0
   | Some (String_value s) \<Rightarrow> (case ToInt64 s of Some v \<Rightarrow> Inr v | None \<Rightarrow> Inl (FromError ''ERR value is not an integer''))
   | Some _ \<Rightarrow> Inl WrongTypeError)"

lemma IncrementValue_eq:
  assumes "is_int64 v"
  shows "IncrementValue v inc = (if is_int64 (v + inc) then Some (v + inc) else None)"
  using assms by (auto simp: IncrementValue_def is_int64_def)

lemma counter_int64: "counter_value ob = Inr v \<Longrightarrow> is_int64 v"
  by (auto simp: counter_value_def is_int64_def
      dest!: ToInt64_Some_int64 split: option.splits redis_object.splits)

definition increments :: "int \<Rightarrow> int \<Rightarrow> ('s, 'l, 'z, 'h) redis_object redis_db \<Rightarrow> string \<Rightarrow> server_env \<Rightarrow>
    client_call list \<Rightarrow> ('s, 'l, 'z, 'h) redis_object redis_db \<Rightarrow> bool" where
  "increments inc now db k env calls db' = (case counter_value (visible now db k) of
     Inl e \<Rightarrow> calls = reply env e \<and> (\<forall>t\<ge>now. visible t db' = visible t db)
   | Inr v \<Rightarrow>
       if is_int64 (v + inc) then
         calls = MarkModified # reply env (FromInt64 (v + inc)) \<and>
         objects db' k = Some (String_value (dec_int (v + inc))) \<and>
         expiries db' k = drop_expired now db k (expiries db) k \<and>
         (\<forall>t\<ge>now. \<forall>j. j \<noteq> k \<longrightarrow> visible t db' j = visible t db j)
       else calls = reply env (FromError ''ERR increment or decrement would overflow'') \<and>
         (\<forall>t\<ge>now. visible t db' = visible t db))"

lemma HandleIncrement_ok:
  assumes ok: "Db_Refinement.db_ok (key_hash env) db"
  shows "\<exists>calls db'. HandleIncrement inc env p [k] (Some db) = Inr (calls, Some db') \<and>
    Db_Refinement.db_ok (key_hash env) db' \<and> increments inc (clock env 0) db k env calls db'"
  using ok
proof (cases rule: LookupKey_cases [where now = "clock env 0" and key = k])
  case (missing db1)
  have c: "counter_value (visible (clock env 0) db k) = Inr 0" using missing(2) by (simp add: counter_value_def)
  have i: "IncrementValue 0 inc = (if is_int64 (0 + inc) then Some (0 + inc) else None)"
    by (rule IncrementValue_eq) (rule counter_int64 [OF c])
  obtain st db' where s: "SetKey (key_hash env) db1 k (Some (String_value (dec_int inc))) 0 False = (st, db')" by fastforce
  note t = SetKey_ok [OF missing(4) s]
  have e1: "expiries db1 k = None" using missing(4,5) by (meson db_okD(3) dom_sub_None)
  have vis: "visible t db1 = visible t db" if "clock env 0 \<le> t" for t
    using visible_drop [OF missing(3) that] by blast
  have ex: "drop_expired (clock env 0) db k (expiries db) k = None"
    using missing(3) e1 by (simp add: db_to_def)
  show ?thesis
  proof (cases "is_int64 inc")
    case True
    have r: "HandleIncrement inc env p [k] (Some db) = Inr (MarkModified # reply env (FromInt64 inc), Some db')"
      using missing(1) i True s t by (simp add: HandleIncrement_def)
    have other: "visible t db' j = visible t db j" if "clock env 0 \<le> t" "j \<noteq> k" for t j
    proof -
      have "visible t db' j = visible t db1 j" using t that(2) by (auto intro!: visible_other)
      then show ?thesis using vis [OF that(1)] by simp
    qed
    have o: "objects db' k = Some (String_value (dec_int inc))" "expiries db' k = None" "Db_Refinement.db_ok (key_hash env) db'"
      using t by (simp_all add: db_to_def)
    have "increments inc (clock env 0) db k env (MarkModified # reply env (FromInt64 inc)) db'"
      unfolding increments_def c using True o(1,2) ex other by simp
    with r o(3) show ?thesis by blast
  next
    case False
    have r: "HandleIncrement inc env p [k] (Some db) =
        Inr (reply env (FromError ''ERR increment or decrement would overflow''), Some db1)"
      using missing(1) i False by (simp add: HandleIncrement_def)
    have "increments inc (clock env 0) db k env (reply env (FromError ''ERR increment or decrement would overflow'')) db1"
      unfolding increments_def c using False vis by simp
    with r missing(4) show ?thesis by blast
  qed
next
  case (found ob db1)
  have vis: "visible t db1 = visible t db" for t using found by (auto simp: visible_def expired_def fun_eq_iff)
  show ?thesis
  proof (cases "counter_value (visible (clock env 0) db k)")
    case (Inl e)
    have r: "HandleIncrement inc env p [k] (Some db) = Inr (reply env e, Some db1)"
      using found(1,2) Inl by (cases ob) (simp_all add: HandleIncrement_def counter_value_def RedisObject_Type_def
          RedisObject_String_def split: option.splits)
    have "increments inc (clock env 0) db k env (reply env e) db1" unfolding increments_def Inl using vis by simp
    with r found(4) show ?thesis by blast
  next
    case (Inr v)
    then obtain s where s: "ob = String_value s" "ToInt64 s = Some v"
      using found(2) by (cases ob) (auto simp: counter_value_def split: option.splits)
    note i = IncrementValue_eq [OF counter_int64 [OF Inr], of inc]
    let ?db' = "StoreObject env db1 k (String_value (dec_int (v + inc)))"
    have k1: "objects db1 k \<noteq> None" using found(5,7) by simp
    note t = StoreObject_ok [OF found(4) k1, of "String_value (dec_int (v + inc))"]
    have other: "visible t ?db' j = visible t db j" if "j \<noteq> k" for t j
      using visible_other [OF t, of j] that vis [of t] by simp
    show ?thesis
    proof (cases "is_int64 (v + inc)")
      case True
      have r: "HandleIncrement inc env p [k] (Some db) = Inr (MarkModified # reply env (FromInt64 (v + inc)), Some ?db')"
        using found(1) i True s by (simp add: HandleIncrement_def RedisObject_Type_def RedisObject_String_def)
      have o: "objects ?db' k = Some (String_value (dec_int (v + inc)))" "expiries ?db' k = expiries db k"
        "Db_Refinement.db_ok (key_hash env) ?db'" using t found(6) by (simp_all add: db_to_def)
      have "increments inc (clock env 0) db k env (MarkModified # reply env (FromInt64 (v + inc))) ?db'"
        unfolding increments_def Inr using True o(1,2) other found(8) by simp
      with r o(3) show ?thesis by blast
    next
      case False
      have r: "HandleIncrement inc env p [k] (Some db) =
          Inr (reply env (FromError ''ERR increment or decrement would overflow''), Some db1)"
        using found(1) i False s by (simp add: HandleIncrement_def RedisObject_Type_def RedisObject_String_def)
      have "increments inc (clock env 0) db k env (reply env (FromError ''ERR increment or decrement would overflow'')) db1"
        unfolding increments_def Inr using False vis by simp
      with r found(4) show ?thesis by blast
    qed
  qed
qed

text \<open>\<open>MSET\<close> sets the pairs from the left; \<open>MGET\<close> appends an item per key.\<close>

lemma HandleMSet_loop_ok:
  assumes "Db_Refinement.db_ok (key_hash env) db" "even (length args)"
  shows "\<exists>db'. HandleMSet_loop env args db = Inr db' \<and>
    db_to (key_hash env) db db' (\<lambda>k. case map_of (rev (pairs_of args)) k of Some v \<Rightarrow> Some (String_value v) | None \<Rightarrow> objects db k)
      (\<lambda>k. case map_of (rev (pairs_of args)) k of Some v \<Rightarrow> None | None \<Rightarrow> expiries db k)"
  using assms
proof (induction env args db rule: HandleMSet_loop.induct)
  case (1 env db)
  then show ?case by (simp add: db_to_self)
next
  case (3 env key val args db)
  obtain st db1 where s: "SetKey (key_hash env) db key (Some (String_value val)) 0 False = (st, db1)" by fastforce
  have t: "db_to (key_hash env) db db1 ((objects db)(key \<mapsto> String_value val)) ((expiries db)(key := None))"
    using SetKey_ok [OF 3(2) s] by simp
  then have ok1: "Db_Refinement.db_ok (key_hash env) db1" "objects db1 = (objects db)(key \<mapsto> String_value val)"
    "expiries db1 = (expiries db)(key := None)" by (simp_all add: db_to_def)
  obtain db' where r: "HandleMSet_loop env args db1 = Inr db'"
    "db_to (key_hash env) db1 db' (\<lambda>k. case map_of (rev (pairs_of args)) k of Some v \<Rightarrow> Some (String_value v) | None \<Rightarrow> objects db1 k)
      (\<lambda>k. case map_of (rev (pairs_of args)) k of Some v \<Rightarrow> None | None \<Rightarrow> expiries db1 k)"
    using 3(1) [unfolded s snd_conv, OF ok1(1)] 3(3) by auto
  have m: "map_of (rev (pairs_of (key # val # args))) k =
      (case map_of (rev (pairs_of args)) k of None \<Rightarrow> if k = key then Some val else None | Some v \<Rightarrow> Some v)" for k
    by (simp add: map_add_def split: option.split)
  have "(\<lambda>k. case map_of (rev (pairs_of args)) k of Some v \<Rightarrow> Some (String_value v) | None \<Rightarrow> objects db1 k) =
      (\<lambda>k. case map_of (rev (pairs_of (key # val # args))) k of Some v \<Rightarrow> Some (String_value v) | None \<Rightarrow> objects db k)"
    "(\<lambda>k. case map_of (rev (pairs_of args)) k of Some v \<Rightarrow> None | None \<Rightarrow> expiries db1 k) =
      (\<lambda>k. case map_of (rev (pairs_of (key # val # args))) k of Some v \<Rightarrow> None | None \<Rightarrow> expiries db k)"
    unfolding m ok1(2,3) by (auto simp: fun_eq_iff split: option.split)
  then show ?case using r s db_to_trans [OF t r(2)] by simp
qed simp

definition mget_item :: "ProtocolVersion \<Rightarrow> ('s, 'l, 'z, 'h) redis_object option \<Rightarrow> string" where
  "mget_item p ob = (case ob of Some (String_value v) \<Rightarrow> FromBulkString v | _ \<Rightarrow> Null p)"

fun mget_items :: "server_env \<Rightarrow> ProtocolVersion \<Rightarrow> nat \<Rightarrow> ('s, 'l, 'z, 'h) redis_object redis_db \<Rightarrow> string list \<Rightarrow> string" where
  "mget_items env p i db [] = []"
| "mget_items env p i db (k # ks) = mget_item p (visible (clock env i) db k) @ mget_items env p (Suc i) db ks"

lemma mget_items_cong:
  assumes "mono (clock env)" "\<And>t. clock env i \<le> t \<Longrightarrow> visible t db1 = visible t db"
  shows "mget_items env p i db1 ks = mget_items env p i db ks"
  using assms(2)
proof (induction ks arbitrary: i)
  case (Cons k ks)
  have "clock env i \<le> clock env (Suc i)" using assms(1) by (simp add: monoD)
  then show ?case using Cons by simp
qed simp

lemma LookupString_ok:
  assumes ok: "Db_Refinement.db_ok (key_hash env) db"
  shows "\<exists>val status db1. LookupString env now db k = Inr ((val, status), db1) \<and>
    Db_Refinement.db_ok (key_hash env) db1 \<and> (\<forall>t\<ge>now. visible t db1 = visible t db) \<and>
    (case visible now db k of Some (String_value v) \<Rightarrow> status = kStringOk \<and> val = Some v | _ \<Rightarrow> status \<noteq> kStringOk)"
  using ok
proof (cases rule: LookupKey_cases [where now = now and key = k])
  case (missing db')
  have "visible t db' = visible t db" if "now \<le> t" for t using visible_drop [OF missing(3) that] by blast
  then show ?thesis using missing(1,2,4) by (simp add: LookupString_def)
next
  case (found ob db')
  have "visible t db' = visible t db" for t using visible_other [OF found(3)] by auto
  then show ?thesis using found(1,2,4)
    by (cases ob) (simp_all add: LookupString_def RedisObject_Type_def RedisObject_String_def)
qed

lemma HandleMGet_loop_ok:
  assumes "Db_Refinement.db_ok (key_hash env) db" and mono: "mono (clock env)"
  shows "\<exists>db'. HandleMGet_loop env p i keys acc db = Inr (acc @ mget_items env p i db keys, db') \<and>
    Db_Refinement.db_ok (key_hash env) db'"
  using assms(1)
proof (induction keys arbitrary: i acc db)
  case (Cons k keys)
  obtain val status db1 where l: "LookupString env (clock env i) db k = Inr ((val, status), db1)"
    "Db_Refinement.db_ok (key_hash env) db1" "\<forall>t\<ge>clock env i. visible t db1 = visible t db"
    "case visible (clock env i) db k of Some (String_value v) \<Rightarrow> status = kStringOk \<and> val = Some v | _ \<Rightarrow> status \<noteq> kStringOk"
    using LookupString_ok [OF Cons.prems, of "clock env i" k] by blast
  have "clock env i \<le> clock env (Suc i)" using mono by (simp add: monoD)
  then have c: "mget_items env p (Suc i) db1 keys = mget_items env p (Suc i) db keys"
    using l(3) by (intro mget_items_cong [OF mono]) auto
  have e: "bindE (if status = kStringOk then bindE (deref val) (\<lambda>v. Inr (AppendBulkString v acc)) else Inr (acc @ Null p)) f =
      f (acc @ mget_item p (visible (clock env i) db k))" for f :: "string \<Rightarrow> (string \<times> ('a, 'b, 'c, 'd) redis_object redis_db) res"
    using l(4) by (auto simp: mget_item_def FromBulkString_def deref_def split: option.splits redis_object.splits)
  have "HandleMGet_loop env p i (k # keys) acc db =
      HandleMGet_loop env p (Suc i) keys (acc @ mget_item p (visible (clock env i) db k)) db1"
    using l(1) e by simp
  then show ?case using Cons.IH [OF l(2), of "Suc i" "acc @ mget_item p (visible (clock env i) db k)"] c by simp
qed simp

lemma mget_items_stored:
  assumes "\<And>k t. k \<in> set keys \<Longrightarrow> visible t db k = Some (String_value (f k))"
  shows "mget_items env p i db keys = concat (map (\<lambda>k. bulk (f k)) keys)"
  using assms by (induction keys arbitrary: i) (simp_all add: mget_item_def FromBulkString_def)

section \<open>Properties\<close>

text \<open>
  C33: \<open>SET key value EX n\<close> (or \<open>PX n\<close>) followed by \<open>GET key\<close>: the first replies OK and marks the
  client modified, the second replies the value exactly as long as the clock is before the time of
  the first plus the time to live, and null from then on, whatever the key held before.
\<close>

theorem Set_then_Get:
  assumes "Db_Refinement.db_ok (key_hash env) db" "\<not> loading db" "key_hash env' = key_hash env"
    and "ttl_unit option multiplier" "ToInt64 n = Some ttl" "0 < ttl" "0 \<le> clock env 2"
    and "clock env 2 + ttl * multiplier \<le> INT64_MAX"
  shows "\<exists>db' db''. HandleSet env p [key, val, option, n] (Some db) =
      Inr (MarkModified # reply env (FromString ''OK''), Some db') \<and>
    HandleGet env' p' [key] (Some db') = Inr (reply env' (if clock env' 0 < clock env 2 + ttl * multiplier
      then FromBulkString val else Null p'), db'')"
proof -
  have m: "0 < multiplier" using assms(4) by (simp add: ttl_unit_def split: if_splits)
  have e: "0 < clock env 2 + ttl * multiplier" using m assms(6,7) by (simp add: add_nonneg_pos)
  obtain db' where s: "HandleSet env p [key, val, option, n] (Some db) =
      Inr (MarkModified # reply env (FromString ''OK''), Some db')"
    "db_to (key_hash env) db db' ((objects db)(key \<mapsto> String_value val))
      ((expiries db)(key \<mapsto> clock env 2 + ttl * multiplier))"
    using HandleSet_ok [OF assms(1) Set_ParseArgs_ttl [OF assms(4-8), where k = key and v = val], of p] e by auto
  have v: "visible t db' key = (if clock env 2 + ttl * multiplier \<le> t then None else Some (String_value val))" for t
    unfolding visible_to [OF s(2)] using assms(2) by simp
  have ok: "Db_Refinement.db_ok (key_hash env') db'" using s(2) assms(3) by (simp add: db_to_def)
  obtain db'' where g: "HandleGet env' p' [key] (Some db') =
      Inr (reply env' (get_reply p' (visible (clock env' 0) db' key)), Some db'')" using HandleGet_ok [OF ok] by blast
  have r: "get_reply p' (visible (clock env' 0) db' key) =
      (if clock env' 0 < clock env 2 + ttl * multiplier then FromBulkString val else Null p')"
    unfolding v by (simp add: get_reply_def)
  show ?thesis using s(1) g unfolding r by (intro exI [of _ db'] exI [of _ "Some db''"] conjI)
qed

theorem Set_then_Get_witness:
  "\<exists>db' db''. HandleSet \<lparr>key_hash = length, clock = \<lambda>_. 5, capacity = length\<rparr> kResp2
       [''k'', ''v'', ''EX'', dec 2] (Some (empty_db :: (unit, unit, unit, unit) redis_object redis_db)) =
      Inr ([MarkModified, Reply_string (FromString ''OK'') 5], Some db') \<and>
    HandleGet \<lparr>key_hash = length, clock = \<lambda>_. 2005, capacity = length\<rparr> kResp3 [''k''] (Some db') =
      Inr ([Reply_string (Null kResp3) 3], db'')"
proof -
  let ?e = "\<lparr>key_hash = length, clock = \<lambda>_. 5, capacity = length\<rparr> :: server_env"
    and ?e' = "\<lparr>key_hash = length, clock = \<lambda>_. 2005, capacity = length\<rparr> :: server_env"
  have two: "ToInt64 (dec 2) = Some 2" using ToInt64_dec [of 2] by simp
  have "\<exists>db' db''. HandleSet ?e kResp2 [''k'', ''v'', ''EX'', dec 2]
        (Some (empty_db :: (unit, unit, unit, unit) redis_object redis_db)) =
      Inr (MarkModified # reply ?e (FromString ''OK''), Some db') \<and>
    HandleGet ?e' kResp3 [''k''] (Some db') = Inr (reply ?e' (if clock ?e' 0 < clock ?e 2 + 2 * 1000
      then FromBulkString ''v'' else Null kResp3), db'')"
    by (rule Set_then_Get [OF _ _ _ ttl_unit_names(1) two]) (simp_all add: empty_db_ok)
  then show ?thesis by (simp add: reply_def FromString_def Null_def kCrlf_def eval_nat_numeral)
qed

text \<open>
  C34: \<open>INCR\<close> and \<open>DECR\<close> count: on a key that is not visible or holds the text of an integer the
  reply is the next number, the key holds its text and keeps its expiry time; the wrong type, a text
  that is not an integer and a step outside of 64 bits give their error replies and change nothing a
  client can see.  No other key changes.
\<close>

theorem HandleIncrement_counts:
  assumes "Db_Refinement.db_ok (key_hash env) db"
  shows "\<exists>calls db'. HandleIncrement inc env p [k] (Some db) = Inr (calls, Some db') \<and>
    Db_Refinement.db_ok (key_hash env) db' \<and>
    (case counter_value (visible (clock env 0) db k) of
       Inl e \<Rightarrow> calls = reply env e \<and> (\<forall>t\<ge>clock env 0. visible t db' = visible t db)
     | Inr v \<Rightarrow>
         if is_int64 (v + inc) then
           calls = MarkModified # reply env (FromInt64 (v + inc)) \<and>
           objects db' k = Some (String_value (dec_int (v + inc))) \<and>
           expiries db' k = drop_expired (clock env 0) db k (expiries db) k \<and>
           (\<forall>t\<ge>clock env 0. \<forall>j. j \<noteq> k \<longrightarrow> visible t db' j = visible t db j)
         else calls = reply env (FromError ''ERR increment or decrement would overflow'') \<and>
           (\<forall>t\<ge>clock env 0. visible t db' = visible t db))"
  using HandleIncrement_ok [OF assms, unfolded increments_def] .

theorem HandleIncrement_counts_witness:
  "\<exists>calls db'. HandleIncrement (-1) \<lparr>key_hash = length, clock = \<lambda>_. 5, capacity = length\<rparr> kResp2 [''k'']
      (Some (empty_db :: (unit, unit, unit, unit) redis_object redis_db)) = Inr (calls, Some db') \<and>
    calls = MarkModified # reply \<lparr>key_hash = length, clock = \<lambda>_. 5, capacity = length\<rparr> (FromInt64 (-1)) \<and>
    objects db' ''k'' = Some (String_value (dec_int (-1)))"
proof -
  have c: "counter_value (visible 5 (empty_db :: (unit, unit, unit, unit) redis_object redis_db) ''k'') = Inr 0"
    by (simp add: counter_value_def visible_def empty_db_ok)
  let ?e = "\<lparr>key_hash = length, clock = \<lambda>_. 5, capacity = length\<rparr> :: server_env"
  have ok: "Db_Refinement.db_ok (key_hash ?e) (empty_db :: (unit, unit, unit, unit) redis_object redis_db)"
    by (simp add: empty_db_ok)
  have i: "is_int64 (-1)" by (simp add: is_int64_def)
  have t: "clock ?e 0 = 5" by simp
  show ?thesis
    using HandleIncrement_counts [OF ok, of "-1" kResp2 "''k''", unfolded t c sum.case add_0 if_P [OF i]]
    by blast
qed



end
