(* ===== verification/Key_Commands.thy ===== *)
theory Key_Commands
  imports Command_Env
begin

text \<open>
  The key commands: \<open>del.cpp\<close>, \<open>exists.cpp\<close>, \<open>type.cpp\<close>, \<open>expire.cpp\<close> and \<open>scan.cpp\<close> of
  \<open>src/server/commands/key\<close>.  A handler that works on several keys reads the clock once per key.
\<close>

section \<open>Definitions\<close>

text \<open>The operation is \<open>DeleteKey\<close> or \<open>UnlinkKey\<close>, with the number of the reading of the clock.\<close>

fun Del_DeleteKeys :: "(nat \<Rightarrow> 'o redis_db \<Rightarrow> string \<Rightarrow> DbStatus \<times> 'o redis_db) \<Rightarrow> nat \<Rightarrow> string list
    \<Rightarrow> int \<Rightarrow> 'o redis_db \<Rightarrow> int \<times> 'o redis_db" where
  "Del_DeleteKeys operation i [] deleted db = (deleted, db)"
| "Del_DeleteKeys operation i (key # keys) deleted db =
     (case operation i db key of (status, db) \<Rightarrow>
        Del_DeleteKeys operation (Suc i) keys (if status = DbStatus.kOk then deleted + 1 else deleted) db)"

definition AddDeleteReply :: "server_env \<Rightarrow> (nat \<Rightarrow> 'o redis_db \<Rightarrow> string \<Rightarrow> DbStatus \<times> 'o redis_db)
    \<Rightarrow> string list \<Rightarrow> 'o redis_db option \<Rightarrow> 'o handled" where
  "AddDeleteReply env operation keys redis_db =
     (if keys = [] then Inr (reply env WrongNumberOfArguments, redis_db)
      else with_db env redis_db (\<lambda>db.
        case Del_DeleteKeys operation 0 keys 0 db of (deleted, db) \<Rightarrow>
          Inr ((if deleted > 0 then [MarkModified] else []) @ reply env (FromInt64 deleted), db)))"

definition HandleDel :: "server_env \<Rightarrow> ProtocolVersion \<Rightarrow> string list \<Rightarrow> 'o redis_db option \<Rightarrow> 'o handled" where
  "HandleDel env p args redis_db = AddDeleteReply env (\<lambda>i db key. DeleteKey (key_hash env) db key) args redis_db"

definition HandleUnlink :: "server_env \<Rightarrow> ProtocolVersion \<Rightarrow> string list \<Rightarrow> 'o redis_db option \<Rightarrow> 'o handled" where
  "HandleUnlink env p args redis_db =
     AddDeleteReply env (\<lambda>i db key. UnlinkKey (key_hash env) (clock env i) db key) args redis_db"

fun CountExistingKeys :: "server_env \<Rightarrow> nat \<Rightarrow> string list \<Rightarrow> int \<Rightarrow> 'o redis_db \<Rightarrow> int \<times> 'o redis_db" where
  "CountExistingKeys env i [] existing db = (existing, db)"
| "CountExistingKeys env i (key # keys) existing db =
     (case LookupKey (key_hash env) (clock env i) db key of (object, db) \<Rightarrow>
        CountExistingKeys env (Suc i) keys (if object \<noteq> None then existing + 1 else existing) db)"

definition HandleExists :: "server_env \<Rightarrow> ProtocolVersion \<Rightarrow> string list \<Rightarrow> 'o redis_db option \<Rightarrow> 'o handled" where
  "HandleExists env p keys redis_db =
     (if keys = [] then Inr (reply env WrongNumberOfArguments, redis_db)
      else with_db env redis_db (\<lambda>db.
        case CountExistingKeys env 0 keys 0 db of (existing, db) \<Rightarrow> Inr (reply env (FromInt64 existing), db)))"

definition ParseKeyArgs :: "string list \<Rightarrow> string option" where
  "ParseKeyArgs args = (case args of [key] \<Rightarrow> Some key | _ \<Rightarrow> None)"

definition ObjectTypeName :: "('s, 'l, 'z, 'h) redis_object option \<Rightarrow> string" where
  "ObjectTypeName object = (case object of
     None \<Rightarrow> ''none''
   | Some ob \<Rightarrow> (case RedisObject_Type ob of
       kString \<Rightarrow> ''string'' | kSet \<Rightarrow> ''set'' | kList \<Rightarrow> ''list'' | kZSet \<Rightarrow> ''zset'' | kHash \<Rightarrow> ''hash''))"

definition HandleType :: "server_env \<Rightarrow> ProtocolVersion \<Rightarrow> string list
    \<Rightarrow> ('s, 'l, 'z, 'h) redis_object redis_db option \<Rightarrow> ('s, 'l, 'z, 'h) redis_object handled" where
  "HandleType env p args redis_db = (case ParseKeyArgs args of
     None \<Rightarrow> Inr (reply env WrongNumberOfArguments, redis_db)
   | Some key \<Rightarrow> with_db env redis_db (\<lambda>db.
       case LookupKey (key_hash env) (clock env 0) db key of (object, db) \<Rightarrow>
         Inr (reply env (FromString (ObjectTypeName object)), db)))"

definition ParseExpireArgs :: "string list \<Rightarrow> (string \<times> int) option" where
  "ParseExpireArgs args =
     (if length args \<noteq> 2 then None
      else case ToInt64 (args ! 1) of None \<Rightarrow> None | Some ttl \<Rightarrow> Some (args ! 0, ttl))"

definition ParseRenameArgs :: "string list \<Rightarrow> (string \<times> string) option" where
  "ParseRenameArgs args = (case args of [old_key, new_key] \<Rightarrow> Some (old_key, new_key) | _ \<Rightarrow> None)"

definition Key_ExpireAtFromTtl :: "int \<Rightarrow> int \<Rightarrow> int \<Rightarrow> int option" where
  "Key_ExpireAtFromTtl ttl multiplier now =
     (if ttl \<le> 0 then Some (now - 1)
      else if ttl > INT64_MAX div multiplier then None
      else let ttl_ms = ttl * multiplier in
        if ttl_ms > INT64_MAX - now then None else Some (now + ttl_ms))"

text \<open>The reply of the commands that answer 1 when the status is \<open>kOk\<close>.\<close>

definition status_reply :: "server_env \<Rightarrow> DbStatus \<Rightarrow> client_call list" where
  "status_reply env status =
     (if status = DbStatus.kOk then [MarkModified] else []) @
     reply env (FromInt64 (if status = DbStatus.kOk then 1 else 0))"

definition AddExpireReply :: "int \<Rightarrow> server_env \<Rightarrow> ProtocolVersion \<Rightarrow> string list \<Rightarrow> 'o redis_db option \<Rightarrow> 'o handled" where
  "AddExpireReply ttl_ms env p args redis_db = (case ParseExpireArgs args of
     None \<Rightarrow> Inr (reply env WrongNumberOfArguments, redis_db)
   | Some (key, ttl) \<Rightarrow> with_db env redis_db (\<lambda>db.
       case Key_ExpireAtFromTtl ttl ttl_ms (clock env 0) of
         None \<Rightarrow> Inr (reply env (FromError ''ERR invalid expire time''), db)
       | Some expire \<Rightarrow> (case ExpireKeyAt (key_hash env) (clock env 1) (clock env 2) db key expire of
           (status, db) \<Rightarrow> Inr (status_reply env status, db))))"

definition AddExpireAtReply :: "server_env \<Rightarrow> ProtocolVersion \<Rightarrow> string list \<Rightarrow> 'o redis_db option \<Rightarrow> 'o handled" where
  "AddExpireAtReply env p args redis_db = (case ParseExpireArgs args of
     None \<Rightarrow> Inr (reply env WrongNumberOfArguments, redis_db)
   | Some (key, ttl) \<Rightarrow> with_db env redis_db (\<lambda>db.
       case ExpireKeyAt (key_hash env) (clock env 0) (clock env 1) db key ttl of
         (status, db) \<Rightarrow> Inr (status_reply env status, db)))"

definition AddTtlReply :: "TtlResolution \<Rightarrow> server_env \<Rightarrow> ProtocolVersion \<Rightarrow> string list \<Rightarrow> 'o redis_db option \<Rightarrow> 'o handled" where
  "AddTtlReply resolution env p args redis_db = (case ParseKeyArgs args of
     None \<Rightarrow> Inr (reply env WrongNumberOfArguments, redis_db)
   | Some key \<Rightarrow> with_db env redis_db (\<lambda>db.
       case TimeToLive (key_hash env) (clock env 0) (clock env 1) db key resolution of
         (ttl, db) \<Rightarrow> Inr (reply env (FromInt64 ttl), db)))"

definition HandleExpire :: "server_env \<Rightarrow> ProtocolVersion \<Rightarrow> string list \<Rightarrow> 'o redis_db option \<Rightarrow> 'o handled" where
  "HandleExpire = AddExpireReply 1000"

definition HandlePExpire :: "server_env \<Rightarrow> ProtocolVersion \<Rightarrow> string list \<Rightarrow> 'o redis_db option \<Rightarrow> 'o handled" where
  "HandlePExpire = AddExpireReply 1"

definition HandlePExpireAt :: "server_env \<Rightarrow> ProtocolVersion \<Rightarrow> string list \<Rightarrow> 'o redis_db option \<Rightarrow> 'o handled" where
  "HandlePExpireAt = AddExpireAtReply"

definition HandleTtl :: "server_env \<Rightarrow> ProtocolVersion \<Rightarrow> string list \<Rightarrow> 'o redis_db option \<Rightarrow> 'o handled" where
  "HandleTtl = AddTtlReply kSeconds"

definition HandlePTtl :: "server_env \<Rightarrow> ProtocolVersion \<Rightarrow> string list \<Rightarrow> 'o redis_db option \<Rightarrow> 'o handled" where
  "HandlePTtl = AddTtlReply kMilliseconds"

definition HandlePersist :: "server_env \<Rightarrow> ProtocolVersion \<Rightarrow> string list \<Rightarrow> 'o redis_db option \<Rightarrow> 'o handled" where
  "HandlePersist env p args redis_db = (case ParseKeyArgs args of
     None \<Rightarrow> Inr (reply env WrongNumberOfArguments, redis_db)
   | Some key \<Rightarrow> with_db env redis_db (\<lambda>db.
       case PersistKey (key_hash env) (clock env 0) db key of (status, db) \<Rightarrow> Inr (status_reply env status, db)))"

definition HandleRename :: "server_env \<Rightarrow> ProtocolVersion \<Rightarrow> string list \<Rightarrow> 'o redis_db option \<Rightarrow> 'o handled" where
  "HandleRename env p args redis_db = (case ParseRenameArgs args of
     None \<Rightarrow> Inr (reply env WrongNumberOfArguments, redis_db)
   | Some (old_key, new_key) \<Rightarrow> with_db env redis_db (\<lambda>db.
       case RenameKey (key_hash env) (clock env 0) db old_key new_key of (status, db) \<Rightarrow>
         if status \<noteq> DbStatus.kOk then Inr (reply env (FromError ''ERR no such key''), db)
         else Inr ((if old_key \<noteq> new_key then [MarkModified] else []) @ reply env (FromString ''OK''), db)))"

definition HandleDbSize :: "server_env \<Rightarrow> ProtocolVersion \<Rightarrow> string list \<Rightarrow> 'o redis_db option \<Rightarrow> 'o handled" where
  "HandleDbSize env p args redis_db =
     (if args \<noteq> [] then Inr (reply env WrongNumberOfArguments, redis_db)
      else with_db env redis_db (\<lambda>db.
        if int (KeyCount db) > INT64_MAX then Inr (reply env (FromError ''ERR db size out of range''), db)
        else Inr (reply env (FromInt64 (int (KeyCount db))), db)))"

definition HandleFlushDb :: "server_env \<Rightarrow> ProtocolVersion \<Rightarrow> string list \<Rightarrow> 'o redis_db option \<Rightarrow> 'o handled" where
  "HandleFlushDb env p args redis_db =
     (if args \<noteq> [] then Inr (reply env WrongNumberOfArguments, redis_db)
      else with_db env redis_db (\<lambda>db.
        Inr ((if KeyCount db > 0 then [MarkModified] else []) @ reply env (FromString ''OK''), Flush db)))"

definition kDefaultScanCount :: nat where
  "kDefaultScanCount = 10"

datatype ScanParseStatus = kScanOk | kWrongArgumentCount | kInvalidCursor | kInvalidCount | kSyntaxError

record ScanArgs =
  scan_cursor :: nat
  scan_count :: nat
  scan_pattern :: "string option"

definition FitsInSizeT :: "int \<Rightarrow> bool" where
  "FitsInSizeT v = (v \<ge> 0 \<and> nat v \<le> SIZE_MAX)"

fun ParseScanArgs_loop :: "string list \<Rightarrow> ScanArgs \<Rightarrow> ScanParseStatus \<times> ScanArgs" where
  "ParseScanArgs_loop [] a = (kScanOk, a)"
| "ParseScanArgs_loop [option] a = (kSyntaxError, a)"
| "ParseScanArgs_loop (option # val # args) a =
     (if EqualsIgnoreCase option ''MATCH'' then ParseScanArgs_loop args (a\<lparr>scan_pattern := Some val\<rparr>)
      else if EqualsIgnoreCase option ''COUNT'' then
        (case ToInt64 val of
           None \<Rightarrow> (kInvalidCount, a)
         | Some n \<Rightarrow> if n \<le> 0 \<or> \<not> FitsInSizeT n then (kInvalidCount, a)
             else ParseScanArgs_loop args (a\<lparr>scan_count := nat n\<rparr>))
      else (kSyntaxError, a))"

definition ParseScanArgs :: "string list \<Rightarrow> ScanParseStatus \<times> ScanArgs" where
  "ParseScanArgs args =
     (let a = \<lparr>scan_cursor = 0, scan_count = kDefaultScanCount, scan_pattern = None\<rparr> in
      if args = [] then (kWrongArgumentCount, a)
      else case ToInt64 (args ! 0) of
          None \<Rightarrow> (kInvalidCursor, a)
        | Some cursor \<Rightarrow> if \<not> FitsInSizeT cursor then (kInvalidCursor, a)
            else ParseScanArgs_loop (drop 1 args) (a\<lparr>scan_cursor := nat cursor\<rparr>))"

definition AddParseError :: "server_env \<Rightarrow> ScanParseStatus \<Rightarrow> client_call list" where
  "AddParseError env status = (case status of
     kWrongArgumentCount \<Rightarrow> reply env WrongNumberOfArguments
   | kInvalidCursor \<Rightarrow> reply env (FromError ''ERR invalid cursor'')
   | kInvalidCount \<Rightarrow> reply env (FromError ''ERR value is not an integer or out of range'')
   | kSyntaxError \<Rightarrow> reply env SyntaxError
   | kScanOk \<Rightarrow> [])"

text \<open>\<open>reserve\<close> changes the capacity of the reply only, which is a parameter.\<close>

definition EncodeScanReply :: "nat \<Rightarrow> string list \<Rightarrow> string" where
  "EncodeScanReply cursor keys =
     (let encoded = AppendArrayHeader 2 [];
          (cursor_buffer, cursor_length) = Uint64ToString (replicate 21 (CHR 0x00)) 21 cursor;
          encoded = AppendBulkString (take cursor_length cursor_buffer) encoded;
          encoded = AppendArrayHeader (length keys) encoded in
      fold (\<lambda>key encoded. AppendBulkString key encoded) keys encoded)"

definition HandleScan :: "server_env \<Rightarrow> ProtocolVersion \<Rightarrow> string list \<Rightarrow> 'o redis_db option \<Rightarrow> 'o handled" where
  "HandleScan env p args redis_db = (case ParseScanArgs args of (status, a) \<Rightarrow>
     if status \<noteq> kScanOk then Inr (AddParseError env status, redis_db)
     else with_db env redis_db (\<lambda>db.
       case ScanKeys (key_hash env) (clock env 0) db (scan_cursor a) (scan_count a) of (next_cursor, keys, db) \<Rightarrow>
         let keys = filter (\<lambda>key. case scan_pattern a of None \<Rightarrow> True | Some pattern \<Rightarrow> MatchesGlob key pattern) keys in
         Inr (reply env (EncodeScanReply next_cursor keys), db)))"

section \<open>Lemmas\<close>

lemma Del_DeleteKeys_eq:
  "Del_DeleteKeys (\<lambda>i db key. DeleteKey hf db key) i keys (int n) db =
    (case DeleteKeys hf keys n db of (m, db) \<Rightarrow> (int m, db))"
proof (induction keys arbitrary: i n db)
  case (Cons k keys)
  obtain st db1 where d: "DeleteKey hf db k = (st, db1)" by fastforce
  show ?case using Cons [of "Suc i" "n + 1" db1] Cons [of "Suc i" n db1] d
    by (cases st) (simp_all add: add.commute)
qed simp

lemma Key_ExpireAtFromTtl_Some:
  assumes "0 < ttl" "0 < m" "0 \<le> now" "now + ttl * m \<le> INT64_MAX"
  shows "Key_ExpireAtFromTtl ttl m now = Some (now + ttl * m)"
proof -
  have "ttl * m \<le> INT64_MAX" using assms(3,4) by simp
  then have "ttl \<le> INT64_MAX div m" using assms(2) zdiv_mono1 [of "ttl * m" INT64_MAX m] by simp
  then show ?thesis using assms by (simp add: Key_ExpireAtFromTtl_def Let_def)
qed

lemma HandleDel_ok:
  assumes ok: "Db_Refinement.db_ok (key_hash env) db" and "keys \<noteq> []"
  shows "\<exists>db'. HandleDel env p keys (Some db) =
      Inr ((if set keys \<inter> dom (objects db) \<noteq> {} then [MarkModified] else []) @
        reply env (FromInt64 (int (card (set keys \<inter> dom (objects db))))), Some db') \<and>
    db_to (key_hash env) db db' (objects db |` (- set keys)) (expiries db |` (- set keys))"
proof -
  obtain n db' where d: "DeleteKeys (key_hash env) keys 0 db = (n, db')" by fastforce
  have n: "n = card (set keys \<inter> dom (objects db))" and
    t: "db_to (key_hash env) db db' (objects db |` (- set keys)) (expiries db |` (- set keys))"
    using DeleteKeys_ok [OF ok d] by simp_all
  have z: "(0 < int (card (set keys \<inter> dom (objects db)))) = (set keys \<inter> dom (objects db) \<noteq> {})"
    by (simp add: card_gt_0_iff)
  have "Del_DeleteKeys (\<lambda>i db key. DeleteKey (key_hash env) db key) 0 keys 0 db = (int n, db')"
    using Del_DeleteKeys_eq [of "key_hash env" 0 keys 0 db] d by simp
  then have "HandleDel env p keys (Some db) =
      Inr ((if 0 < int n then [MarkModified] else []) @ reply env (FromInt64 (int n)), Some db')"
    using assms(2) by (simp add: HandleDel_def AddDeleteReply_def)
  with t show ?thesis unfolding n z by blast
qed

lemma HandleExists_one:
  assumes ok: "Db_Refinement.db_ok (key_hash env) db"
  shows "\<exists>db'. HandleExists env p [k] (Some db) =
    Inr (reply env (FromInt64 (if visible (clock env 0) db k = None then 0 else 1)), Some db')"
  using ok
  by (cases rule: LookupKey_cases [where now = "clock env 0" and key = k]) (simp_all add: HandleExists_def)

text \<open>
  \<open>DEL\<close> does not look at the expiry times: a key that has expired and is still in the dictionary
  counts as deleted, while \<open>EXISTS\<close> answers at the same time that there is no such key.
\<close>

lemma HandleDel_counts_expired:
  assumes ok: "Db_Refinement.db_ok (key_hash env) db" and e: "expired (clock env 0) db k"
  shows "\<exists>db1 db2. HandleDel env p [k] (Some db) = Inr (MarkModified # reply env (FromInt64 1), db1) \<and>
    HandleExists env p [k] (Some db) = Inr (reply env (FromInt64 0), db2)"
proof -
  obtain t where "expiries db k = Some t" using e by (auto simp: expired_def)
  then obtain v where "objects db k = Some v" using dom_sub_ex [OF db_okD(3) [OF ok]] by blast
  then have c: "set [k] \<inter> dom (objects db) = {k}" by auto
  obtain db1 where d: "HandleDel env p [k] (Some db) =
      Inr ((if {k} \<noteq> {} then [MarkModified] else []) @ reply env (FromInt64 (int (card {k}))), Some db1)"
    using HandleDel_ok [OF ok, of "[k]" p, unfolded c] by blast
  have v: "visible (clock env 0) db k = None" using e by (simp add: visible_def)
  obtain db2 where "HandleExists env p [k] (Some db) = Inr (reply env (FromInt64 0), Some db2)"
    using HandleExists_one [OF ok, of p k] v by auto
  then show ?thesis using d by (intro exI [of _ "Some db1"] exI [of _ "Some db2"]) simp
qed

section \<open>Properties\<close>

text \<open>
  C39: \<open>DEL\<close> removes the keys it is given, with their expiry times, and no other; the reply is the
  number of different keys that were there, and the client is marked modified exactly when there was
  one.
\<close>

theorem HandleDel_removes:
  assumes "Db_Refinement.db_ok (key_hash env) db" "keys \<noteq> []"
  shows "\<exists>db'. HandleDel env p keys (Some db) =
      Inr ((if set keys \<inter> dom (objects db) \<noteq> {} then [MarkModified] else []) @
        reply env (FromInt64 (int (card (set keys \<inter> dom (objects db))))), Some db') \<and>
    Db_Refinement.db_ok (key_hash env) db' \<and>
    objects db' = objects db |` (- set keys) \<and> expiries db' = expiries db |` (- set keys)"
  using HandleDel_ok [OF assms, of p] unfolding db_to_def by blast

theorem HandleDel_removes_witness:
  "\<exists>calls db'. HandleDel \<lparr>key_hash = \<lambda>_. 0, clock = \<lambda>_. 5, capacity = length\<rparr> kResp2 [''k'', ''j''] (Some sample_db) =
    Inr (calls, Some db') \<and> objects db' ''k'' = None"
proof -
  let ?e = "\<lparr>key_hash = \<lambda>_. 0, clock = \<lambda>_. 5, capacity = length\<rparr> :: server_env"
  have ok: "Db_Refinement.db_ok (key_hash ?e) sample_db" by (simp add: sample_db_ok)
  have ne: "[''k'', ''j''] \<noteq> []" by simp
  obtain db' where d: "HandleDel ?e kResp2 [''k'', ''j''] (Some sample_db) =
      Inr ((if set [''k'', ''j''] \<inter> dom (objects sample_db) \<noteq> {} then [MarkModified] else []) @
        reply ?e (FromInt64 (int (card (set [''k'', ''j''] \<inter> dom (objects sample_db))))), Some db')"
    "objects db' = objects sample_db |` (- set [''k'', ''j''])"
    using HandleDel_removes [OF ok ne, of kResp2] by (elim exE conjE) (rule that)
  have o: "objects db' ''k'' = None" unfolding d(2) by (simp add: restrict_map_def)
  show ?thesis by (rule exI, rule exI, rule conjI, rule d(1), rule o)
qed

text \<open>
  C38: \<open>EXPIRE key n\<close> (or \<open>PEXPIRE\<close>) on a visible key replies 1, and \<open>PTTL\<close> then replies the
  milliseconds left to the time of the first command plus the time to live, or -2 when the clock is
  past it.
\<close>

theorem Expire_then_PTtl:
  assumes "Db_Refinement.db_ok (key_hash env) db" "\<not> loading db" "key_hash env' = key_hash env"
    and "visible (clock env 1) db key \<noteq> None" "ToInt64 n = Some ttl" "0 < ttl" "0 \<le> clock env 0" "0 < multiplier"
    and "clock env 0 + ttl * multiplier \<le> INT64_MAX" "clock env 2 < clock env 0 + ttl * multiplier"
  shows "\<exists>db' db''. AddExpireReply multiplier env p [key, n] (Some db) =
      Inr (MarkModified # reply env (FromInt64 1), Some db') \<and>
    HandlePTtl env' p' [key] (Some db') =
      Inr (reply env' (FromInt64 (if clock env 0 + ttl * multiplier \<le> clock env' 0 then -2
        else max (clock env 0 + ttl * multiplier - clock env' 1) 0)), db'')"
proof -
  let ?t = "clock env 0 + ttl * multiplier"
  obtain st db' where x: "ExpireKeyAt (key_hash env) (clock env 1) (clock env 2) db key ?t = (st, db')" by fastforce
  have le: "\<not> ?t \<le> clock env 2" using assms(10) by linarith
  have s: "st = DbStatus.kOk" "db_to (key_hash env) db db' (objects db) ((expiries db)(key \<mapsto> ?t))"
    using ExpireKeyAt_ok [OF assms(1) x] assms(4) le by (simp_all only: if_False simp_thms)
  have r: "AddExpireReply multiplier env p [key, n] (Some db) = Inr (MarkModified # reply env (FromInt64 1), Some db')"
    using x s(1) assms(5) Key_ExpireAtFromTtl_Some [OF assms(6,8,7,9)]
    by (simp add: AddExpireReply_def ParseExpireArgs_def status_reply_def)
  obtain ob where vis: "visible (clock env 1) db key = Some ob" using assms(4) by auto
  have ob: "objects db key = Some ob" using visible_SomeD [OF vis] by simp
  have v: "visible t db' key = (if ?t \<le> t then None else Some ob)" for t
    unfolding visible_to [OF s(2)] using assms(2) ob by simp
  have ok: "Db_Refinement.db_ok (key_hash env') db'" using s(2) assms(3) by (simp add: db_to_def)
  obtain ttl' db'' where l: "TimeToLive (key_hash env') (clock env' 0) (clock env' 1) db' key kMilliseconds = (ttl', db'')"
    by fastforce
  have "expiries db' key = Some ?t" using s(2) by (simp add: db_to_def)
  then have "ttl' = (if ?t \<le> clock env' 0 then -2 else max (?t - clock env' 1) 0)"
    using conjunct2 [OF TimeToLive_ok [OF ok l]] v [of "clock env' 0"] by (cases "?t \<le> clock env' 0") simp_all
  then have q: "HandlePTtl env' p' [key] (Some db') =
      Inr (reply env' (FromInt64 (if ?t \<le> clock env' 0 then -2 else max (?t - clock env' 1) 0)), Some db'')"
    using l by (simp add: HandlePTtl_def AddTtlReply_def ParseKeyArgs_def)
  show ?thesis by (intro exI [of _ db'] exI [of _ "Some db''"] conjI r q)
qed

theorem Expire_then_PTtl_witness:
  "\<exists>db' db''. AddExpireReply 1000 \<lparr>key_hash = \<lambda>_. 0, clock = int, capacity = length\<rparr> kResp2 [''k'', dec 7] (Some sample_db) =
      Inr (MarkModified # reply \<lparr>key_hash = \<lambda>_. 0, clock = int, capacity = length\<rparr> (FromInt64 1), Some db') \<and>
    HandlePTtl \<lparr>key_hash = \<lambda>_. 0, clock = \<lambda>_. 400, capacity = length\<rparr> kResp2 [''k''] (Some db') =
      Inr (reply \<lparr>key_hash = \<lambda>_. 0, clock = \<lambda>_. 400, capacity = length\<rparr> (FromInt64 6600), db'')"
proof -
  let ?e = "\<lparr>key_hash = \<lambda>_. 0, clock = int, capacity = length\<rparr> :: server_env"
    and ?e' = "\<lparr>key_hash = \<lambda>_. 0, clock = \<lambda>_. 400, capacity = length\<rparr> :: server_env"
  have seven: "ToInt64 (dec 7) = Some 7" using ToInt64_dec [of 7] by simp
  have "\<exists>db' db''. AddExpireReply 1000 ?e kResp2 [''k'', dec 7] (Some sample_db) =
      Inr (MarkModified # reply ?e (FromInt64 1), Some db') \<and>
    HandlePTtl ?e' kResp2 [''k''] (Some db') = Inr (reply ?e' (FromInt64 (if clock ?e 0 + 7 * 1000 \<le> clock ?e' 0 then -2
        else max (clock ?e 0 + 7 * 1000 - clock ?e' 1) 0)), db'')"
    by (rule Expire_then_PTtl [OF _ _ _ _ seven]) (simp_all add: sample_db_ok visible_def expired_def)
  moreover have "(if clock ?e 0 + 7 * 1000 \<le> clock ?e' 0 then -2 else max (clock ?e 0 + 7 * 1000 - clock ?e' 1) 0) = 6600"
    by simp
  ultimately show ?thesis by (simp only:)
qed

end
