(* ===== verification/Hash_Commands.thy ===== *)
theory Hash_Commands
  imports Command_Env Hash_Type
begin

text \<open>
  The hash commands, \<open>src/server/commands/hash/hash.cpp\<close>, over the hash type and the database.  A
  hash found in the database is changed in place: the new value of the object is stored under its
  key.  The result of an operation of the source that returns an empty optional is \<open>None\<close>.
\<close>

section \<open>Definitions\<close>

datatype HashStatus = kHashOk | kHashMissing | kHashWrongType | kHashError

definition Hash_ParseKeyArgs :: "string list \<Rightarrow> string option" where
  "Hash_ParseKeyArgs args = (case args of [key] \<Rightarrow> Some key | _ \<Rightarrow> None)"

definition ParseFieldArgs :: "string list \<Rightarrow> (string \<times> string) option" where
  "ParseFieldArgs args = (case args of [key, field] \<Rightarrow> Some (key, field) | _ \<Rightarrow> None)"

definition ParseIncrementArgs :: "string list \<Rightarrow> (string \<times> string \<times> int) option" where
  "ParseIncrementArgs args =
     (if length args \<noteq> 3 then None
      else case ToInt64 (args ! 2) of None \<Rightarrow> None | Some increment \<Rightarrow> Some (args ! 0, args ! 1, increment))"

text \<open>\<open>FindHash\<close> and \<open>FindMutableHash\<close> differ in the type of the pointer only.\<close>

definition FindHash :: "server_env \<Rightarrow> ('s, 'l, 'z, hash_obj) redis_object redis_db \<Rightarrow> string
    \<Rightarrow> ((hash_obj option \<times> HashStatus) \<times> ('s, 'l, 'z, hash_obj) redis_object redis_db) res" where
  "FindHash env db key = (case LookupKey (key_hash env) (clock env 0) db key of
     (None, db) \<Rightarrow> Inr ((None, kHashMissing), db)
   | (Some ob, db) \<Rightarrow>
       if RedisObject_Type ob \<noteq> kHash then Inr ((None, kHashWrongType), db)
       else bindE (RedisObject_Hash ob) (\<lambda>h. Inr ((Some h, kHashOk), db)))"

definition FindOrCreateHash :: "server_env \<Rightarrow> ('s, 'l, 'z, hash_obj) redis_object redis_db \<Rightarrow> string
    \<Rightarrow> ((hash_obj option \<times> HashStatus) \<times> ('s, 'l, 'z, hash_obj) redis_object redis_db) res" where
  "FindOrCreateHash env db key = bindE (FindHash env db key) (\<lambda>((hash, status), db).
     if status \<noteq> kHashMissing then Inr ((hash, status), db)
     else bindE Hash_new (\<lambda>h.
       case SetKey (key_hash env) db key (Some (Hash_value h)) 0 False of (st, db) \<Rightarrow>
         if st = DbStatus.kError then Inr ((None, kHashError), db) else Inr ((Some h, kHashOk), db)))"

definition AddWithOverflowCheck :: "int \<Rightarrow> int \<Rightarrow> int option" where
  "AddWithOverflowCheck val increment =
     (if (increment > 0 \<and> val > INT64_MAX - increment) \<or> (increment < 0 \<and> val < INT64_MIN - increment)
      then None else Some (val + increment))"

text \<open>The loop over the pairs behind the key; \<open>args[i + 1]\<close> outside of the arguments is a fault.\<close>

fun HSet_loop :: "(string \<Rightarrow> nat) \<Rightarrow> string list \<Rightarrow> int \<Rightarrow> hash_obj \<Rightarrow> (int \<times> hash_obj) res" where
  "HSet_loop hf [] added h = Inr (added, h)"
| "HSet_loop hf [field] added h = Inl Out_of_bounds"
| "HSet_loop hf (field # val # args) added h =
     bindE (Hash_Set hf h field val) (\<lambda>(b, h). HSet_loop hf args (added + (if b then 1 else 0)) h)"

definition HSet :: "server_env \<Rightarrow> ('s, 'l, 'z, hash_obj) redis_object redis_db \<Rightarrow> string list
    \<Rightarrow> (int option \<times> ('s, 'l, 'z, hash_obj) redis_object redis_db) res" where
  "HSet env db args = bindE (FindOrCreateHash env db (args ! 0)) (\<lambda>((hash, status), db).
     if status \<noteq> kHashOk then Inr (None, db)
     else bindE (deref hash) (\<lambda>h. bindE (HSet_loop (key_hash env) (drop 1 args) 0 h) (\<lambda>(added, h).
       Inr (Some added, StoreObject env db (args ! 0) (Hash_value h)))))"

definition HGet :: "server_env \<Rightarrow> ('s, 'l, 'z, hash_obj) redis_object redis_db \<Rightarrow> string \<times> string \<Rightarrow> ProtocolVersion
    \<Rightarrow> (string option \<times> ('s, 'l, 'z, hash_obj) redis_object redis_db) res" where
  "HGet env db a p = bindE (FindHash env db (fst a)) (\<lambda>((hash, status), db).
     if status = kHashMissing then Inr (Some (Null p), db)
     else if status \<noteq> kHashOk then Inr (None, db)
     else bindE (deref hash) (\<lambda>h.
       bindE (VisitValue (key_hash env) h (snd a) (\<lambda>val _. FromBulkString val) []) (\<lambda>(found, encoded, h).
         Inr (Some (if found then encoded else Null p), StoreObject env db (fst a) (Hash_value h)))))"

fun HDel_loop :: "(string \<Rightarrow> nat) \<Rightarrow> string list \<Rightarrow> int \<Rightarrow> hash_obj \<Rightarrow> (int \<times> hash_obj) res" where
  "HDel_loop hf [] deleted h = Inr (deleted, h)"
| "HDel_loop hf (field # names) deleted h =
     bindE (Hash_Delete hf h field) (\<lambda>(b, h). HDel_loop hf names (deleted + (if b then 1 else 0)) h)"

definition HDel :: "server_env \<Rightarrow> ('s, 'l, 'z, hash_obj) redis_object redis_db \<Rightarrow> string list
    \<Rightarrow> (int option \<times> ('s, 'l, 'z, hash_obj) redis_object redis_db) res" where
  "HDel env db args = bindE (FindHash env db (args ! 0)) (\<lambda>((hash, status), db).
     if status = kHashMissing then Inr (Some 0, db)
     else if status \<noteq> kHashOk then Inr (None, db)
     else bindE (deref hash) (\<lambda>h. bindE (HDel_loop (key_hash env) (drop 1 args) 0 h) (\<lambda>(deleted, h).
       bindE (Hash_Size h) (\<lambda>(n, h).
         let db = StoreObject env db (args ! 0) (Hash_value h);
             db = (if n = 0 then snd (DeleteKey (key_hash env) db (args ! 0)) else db) in
         Inr (Some deleted, db)))))"

definition HLen :: "server_env \<Rightarrow> ('s, 'l, 'z, hash_obj) redis_object redis_db \<Rightarrow> string
    \<Rightarrow> (int option \<times> ('s, 'l, 'z, hash_obj) redis_object redis_db) res" where
  "HLen env db key = bindE (FindHash env db key) (\<lambda>((hash, status), db).
     if status = kHashMissing then Inr (Some 0, db)
     else if status \<noteq> kHashOk then Inr (None, db)
     else bindE (deref hash) (\<lambda>h. bindE (Hash_Size h) (\<lambda>(n, h).
       Inr (ToReplyInteger n, StoreObject env db key (Hash_value h)))))"

definition HExists :: "server_env \<Rightarrow> ('s, 'l, 'z, hash_obj) redis_object redis_db \<Rightarrow> string \<times> string
    \<Rightarrow> (int option \<times> ('s, 'l, 'z, hash_obj) redis_object redis_db) res" where
  "HExists env db a = bindE (FindHash env db (fst a)) (\<lambda>((hash, status), db).
     if status = kHashMissing then Inr (Some 0, db)
     else if status \<noteq> kHashOk then Inr (None, db)
     else bindE (deref hash) (\<lambda>h. bindE (Hash_Exists (key_hash env) h (snd a)) (\<lambda>(b, h).
       Inr (Some (if b then 1 else 0), StoreObject env db (fst a) (Hash_value h)))))"

text \<open>The traversals of a hash append to a reply that starts with the header of its size.\<close>

definition HGetAll :: "server_env \<Rightarrow> ('s, 'l, 'z, hash_obj) redis_object redis_db \<Rightarrow> string \<Rightarrow> ProtocolVersion
    \<Rightarrow> (string option \<times> ('s, 'l, 'z, hash_obj) redis_object redis_db) res" where
  "HGetAll env db key p = bindE (FindHash env db key) (\<lambda>((hash, status), db).
     if status = kHashMissing then bindE (FromMapHeader 0 p) (\<lambda>r. Inr (Some r, db))
     else if status \<noteq> kHashOk then Inr (None, db)
     else bindE (deref hash) (\<lambda>h. bindE (Hash_Size h) (\<lambda>(n, h). bindE (FromMapHeader n p) (\<lambda>encoded.
       bindE (ForEachEntry h (\<lambda>field val encoded. (True, AppendBulkString val (AppendBulkString field encoded))) encoded)
         (\<lambda>(_, encoded, h). Inr (Some encoded, StoreObject env db key (Hash_value h)))))))"

fun HMGet_loop :: "(string \<Rightarrow> nat) \<Rightarrow> ProtocolVersion \<Rightarrow> string list \<Rightarrow> string \<Rightarrow> hash_obj \<Rightarrow> (string \<times> hash_obj) res" where
  "HMGet_loop hf p [] encoded h = Inr (encoded, h)"
| "HMGet_loop hf p (field # names) encoded h =
     bindE (VisitValue hf h field (\<lambda>val encoded. AppendBulkString val encoded) encoded) (\<lambda>(found, encoded, h).
       HMGet_loop hf p names (if found then encoded else encoded @ Null p) h)"

definition HMGet :: "server_env \<Rightarrow> ('s, 'l, 'z, hash_obj) redis_object redis_db \<Rightarrow> string list \<Rightarrow> ProtocolVersion
    \<Rightarrow> (string option \<times> ('s, 'l, 'z, hash_obj) redis_object redis_db) res" where
  "HMGet env db args p = bindE (FindHash env db (args ! 0)) (\<lambda>((hash, status), db).
     let encoded = FromArrayHeader (length args - 1) in
     if status = kHashMissing then Inr (Some (fold (\<lambda>_ encoded. encoded @ Null p) (drop 1 args) encoded), db)
     else if status \<noteq> kHashOk then Inr (None, db)
     else bindE (deref hash) (\<lambda>h. bindE (HMGet_loop (key_hash env) p (drop 1 args) encoded h) (\<lambda>(encoded, h).
       Inr (Some encoded, StoreObject env db (args ! 0) (Hash_value h)))))"

definition HKeys :: "server_env \<Rightarrow> ('s, 'l, 'z, hash_obj) redis_object redis_db \<Rightarrow> string
    \<Rightarrow> (string option \<times> ('s, 'l, 'z, hash_obj) redis_object redis_db) res" where
  "HKeys env db key = bindE (FindHash env db key) (\<lambda>((hash, status), db).
     if status = kHashMissing then Inr (Some (FromArrayHeader 0), db)
     else if status \<noteq> kHashOk then Inr (None, db)
     else bindE (deref hash) (\<lambda>h. bindE (Hash_Size h) (\<lambda>(n, h).
       bindE (ForEachField h (\<lambda>field encoded. (True, AppendBulkString field encoded)) (FromArrayHeader n))
         (\<lambda>(_, encoded, h). Inr (Some encoded, StoreObject env db key (Hash_value h))))))"

definition HVals :: "server_env \<Rightarrow> ('s, 'l, 'z, hash_obj) redis_object redis_db \<Rightarrow> string
    \<Rightarrow> (string option \<times> ('s, 'l, 'z, hash_obj) redis_object redis_db) res" where
  "HVals env db key = bindE (FindHash env db key) (\<lambda>((hash, status), db).
     if status = kHashMissing then Inr (Some (FromArrayHeader 0), db)
     else if status \<noteq> kHashOk then Inr (None, db)
     else bindE (deref hash) (\<lambda>h. bindE (Hash_Size h) (\<lambda>(n, h).
       bindE (ForEachValue h (\<lambda>val encoded. (True, AppendBulkString val encoded)) (FromArrayHeader n))
         (\<lambda>(_, encoded, h). Inr (Some encoded, StoreObject env db key (Hash_value h))))))"

text \<open>The visitor parses the value, if there is one, into \<open>current\<close>; \<open>None\<close> is \<open>parsed == false\<close>.\<close>

definition HIncrBy :: "server_env \<Rightarrow> ('s, 'l, 'z, hash_obj) redis_object redis_db \<Rightarrow> string \<times> string \<times> int
    \<Rightarrow> ((int option \<times> HashStatus) \<times> ('s, 'l, 'z, hash_obj) redis_object redis_db) res" where
  "HIncrBy env db a = (case a of (key, field, increment) \<Rightarrow>
     bindE (FindOrCreateHash env db key) (\<lambda>((hash, status), db).
     if status \<noteq> kHashOk then Inr ((None, status), db)
     else bindE (deref hash) (\<lambda>h.
       bindE (VisitValue (key_hash env) h field (\<lambda>val _. ToInt64 val) (Some 0)) (\<lambda>(_, current, h).
       case current of
         None \<Rightarrow> Inr ((None, kHashError), StoreObject env db key (Hash_value h))
       | Some v \<Rightarrow> (case AddWithOverflowCheck v increment of
           None \<Rightarrow> Inr ((None, kHashError), StoreObject env db key (Hash_value h))
         | Some nxt \<Rightarrow> bindE (Hash_Set (key_hash env) h field (dec_int nxt)) (\<lambda>(_, h).
             Inr ((Some nxt, kHashOk), StoreObject env db key (Hash_value h))))))))"

definition HandleHSet :: "server_env \<Rightarrow> ProtocolVersion \<Rightarrow> string list \<Rightarrow> ('s, 'l, 'z, hash_obj) redis_object redis_db option
    \<Rightarrow> ('s, 'l, 'z, hash_obj) redis_object handled" where
  "HandleHSet env p args redis_db =
     (if length args < 3 \<or> length args mod 2 = 0 then Inr (reply env WrongNumberOfArguments, redis_db)
      else with_db env redis_db (\<lambda>db. bindE (HSet env db args) (\<lambda>(result, db).
        Inr ((if result \<noteq> None then [MarkModified] else []) @ integer_reply env result, db))))"

definition HandleHGet :: "server_env \<Rightarrow> ProtocolVersion \<Rightarrow> string list \<Rightarrow> ('s, 'l, 'z, hash_obj) redis_object redis_db option
    \<Rightarrow> ('s, 'l, 'z, hash_obj) redis_object handled" where
  "HandleHGet env p args redis_db = (case ParseFieldArgs args of
     None \<Rightarrow> Inr (reply env WrongNumberOfArguments, redis_db)
   | Some a \<Rightarrow> with_db env redis_db (\<lambda>db. bindE (HGet env db a p) (\<lambda>(result, db).
       Inr (encoded_reply env result, db))))"

definition HandleHDel :: "server_env \<Rightarrow> ProtocolVersion \<Rightarrow> string list \<Rightarrow> ('s, 'l, 'z, hash_obj) redis_object redis_db option
    \<Rightarrow> ('s, 'l, 'z, hash_obj) redis_object handled" where
  "HandleHDel env p args redis_db =
     (if length args < 2 then Inr (reply env WrongNumberOfArguments, redis_db)
      else with_db env redis_db (\<lambda>db. bindE (HDel env db args) (\<lambda>(result, db).
        Inr ((case result of Some n \<Rightarrow> if n > 0 then [MarkModified] else [] | None \<Rightarrow> []) @ integer_reply env result, db))))"

definition HandleHLen :: "server_env \<Rightarrow> ProtocolVersion \<Rightarrow> string list \<Rightarrow> ('s, 'l, 'z, hash_obj) redis_object redis_db option
    \<Rightarrow> ('s, 'l, 'z, hash_obj) redis_object handled" where
  "HandleHLen env p args redis_db = (case Hash_ParseKeyArgs args of
     None \<Rightarrow> Inr (reply env WrongNumberOfArguments, redis_db)
   | Some key \<Rightarrow> with_db env redis_db (\<lambda>db. bindE (HLen env db key) (\<lambda>(result, db).
       Inr (integer_reply env result, db))))"

definition HandleHExists :: "server_env \<Rightarrow> ProtocolVersion \<Rightarrow> string list \<Rightarrow> ('s, 'l, 'z, hash_obj) redis_object redis_db option
    \<Rightarrow> ('s, 'l, 'z, hash_obj) redis_object handled" where
  "HandleHExists env p args redis_db = (case ParseFieldArgs args of
     None \<Rightarrow> Inr (reply env WrongNumberOfArguments, redis_db)
   | Some a \<Rightarrow> with_db env redis_db (\<lambda>db. bindE (HExists env db a) (\<lambda>(result, db).
       Inr (integer_reply env result, db))))"

definition HandleHGetAll :: "server_env \<Rightarrow> ProtocolVersion \<Rightarrow> string list \<Rightarrow> ('s, 'l, 'z, hash_obj) redis_object redis_db option
    \<Rightarrow> ('s, 'l, 'z, hash_obj) redis_object handled" where
  "HandleHGetAll env p args redis_db = (case Hash_ParseKeyArgs args of
     None \<Rightarrow> Inr (reply env WrongNumberOfArguments, redis_db)
   | Some key \<Rightarrow> with_db env redis_db (\<lambda>db. bindE (HGetAll env db key p) (\<lambda>(result, db).
       Inr (encoded_reply env result, db))))"

definition HandleHMGet :: "server_env \<Rightarrow> ProtocolVersion \<Rightarrow> string list \<Rightarrow> ('s, 'l, 'z, hash_obj) redis_object redis_db option
    \<Rightarrow> ('s, 'l, 'z, hash_obj) redis_object handled" where
  "HandleHMGet env p args redis_db =
     (if length args < 2 then Inr (reply env WrongNumberOfArguments, redis_db)
      else with_db env redis_db (\<lambda>db. bindE (HMGet env db args p) (\<lambda>(result, db).
        Inr (encoded_reply env result, db))))"

definition HandleHKeys :: "server_env \<Rightarrow> ProtocolVersion \<Rightarrow> string list \<Rightarrow> ('s, 'l, 'z, hash_obj) redis_object redis_db option
    \<Rightarrow> ('s, 'l, 'z, hash_obj) redis_object handled" where
  "HandleHKeys env p args redis_db = (case Hash_ParseKeyArgs args of
     None \<Rightarrow> Inr (reply env WrongNumberOfArguments, redis_db)
   | Some key \<Rightarrow> with_db env redis_db (\<lambda>db. bindE (HKeys env db key) (\<lambda>(result, db).
       Inr (encoded_reply env result, db))))"

definition HandleHVals :: "server_env \<Rightarrow> ProtocolVersion \<Rightarrow> string list \<Rightarrow> ('s, 'l, 'z, hash_obj) redis_object redis_db option
    \<Rightarrow> ('s, 'l, 'z, hash_obj) redis_object handled" where
  "HandleHVals env p args redis_db = (case Hash_ParseKeyArgs args of
     None \<Rightarrow> Inr (reply env WrongNumberOfArguments, redis_db)
   | Some key \<Rightarrow> with_db env redis_db (\<lambda>db. bindE (HVals env db key) (\<lambda>(result, db).
       Inr (encoded_reply env result, db))))"

definition HandleHIncrBy :: "server_env \<Rightarrow> ProtocolVersion \<Rightarrow> string list \<Rightarrow> ('s, 'l, 'z, hash_obj) redis_object redis_db option
    \<Rightarrow> ('s, 'l, 'z, hash_obj) redis_object handled" where
  "HandleHIncrBy env p args redis_db = (case ParseIncrementArgs args of
     None \<Rightarrow> Inr (reply env WrongNumberOfArguments, redis_db)
   | Some a \<Rightarrow> with_db env redis_db (\<lambda>db. bindE (HIncrBy env db a) (\<lambda>((val, status), db).
       Inr (if status = kHashWrongType then reply env WrongTypeError
         else case val of
             None \<Rightarrow> reply env (FromError ''ERR hash value is not an integer or out of range'')
           | Some n \<Rightarrow> MarkModified # reply env (FromInt64 n), db))))"

section \<open>Lemmas\<close>

text \<open>The key holds a hash with the fields of a map, or nothing, the empty map.\<close>

definition hash_at :: "server_env \<Rightarrow> int \<Rightarrow> ('s, 'l, 'z, hash_obj) redis_object redis_db \<Rightarrow> string
    \<Rightarrow> (string \<rightharpoonup> string) \<Rightarrow> bool" where
  "hash_at env now db key m \<longleftrightarrow> (case visible now db key of
     None \<Rightarrow> m = Map.empty
   | Some (Hash_value h) \<Rightarrow> hash_holds (key_hash env) h m
   | Some _ \<Rightarrow> False)"

lemma FindHash_cases:
  assumes ok: "Db_Refinement.db_ok (key_hash env) db" and at: "hash_at env (clock env 0) db key m"
  obtains (missing) db' where "FindHash env db key = Inr ((None, kHashMissing), db')" "m = Map.empty"
      "Db_Refinement.db_ok (key_hash env) db'" "visible (clock env 0) db key = None"
      "db_to (key_hash env) db db' (drop_expired (clock env 0) db key (objects db)) (drop_expired (clock env 0) db key (expiries db))"
  | (found) h db' where "FindHash env db key = Inr ((Some h, kHashOk), db')" "hash_holds (key_hash env) h m"
      "Db_Refinement.db_ok (key_hash env) db'" "objects db' key \<noteq> None" "db_to (key_hash env) db db' (objects db) (expiries db)"
  using ok
proof (cases rule: LookupKey_cases [where now = "clock env 0" and key = key])
  case (missing db')
  have "m = Map.empty" using at missing(2) by (simp add: hash_at_def)
  moreover have "FindHash env db key = Inr ((None, kHashMissing), db')" using missing(1) by (simp add: FindHash_def)
  ultimately show thesis using that(1) missing by blast
next
  case (found ob db')
  obtain h where h: "ob = Hash_value h" "hash_holds (key_hash env) h m"
    using at found(2) by (cases ob) (simp_all add: hash_at_def)
  have f: "FindHash env db key = Inr ((Some h, kHashOk), db')"
    using found(1) h(1) by (simp add: FindHash_def RedisObject_Type_def RedisObject_Hash_def)
  have "objects db' key \<noteq> None" using found(5,7) by simp
  then show thesis using that(2) [OF f h(2) found(4) _ found(3)] by blast
qed

lemma FindOrCreateHash_ok:
  assumes ok: "Db_Refinement.db_ok (key_hash env) db" and at: "hash_at env (clock env 0) db key m"
  shows "\<exists>h db'. FindOrCreateHash env db key = Inr ((Some h, kHashOk), db') \<and> hash_holds (key_hash env) h m \<and>
    Db_Refinement.db_ok (key_hash env) db' \<and> objects db' key \<noteq> None"
  using ok at
proof (cases rule: FindHash_cases)
  case (missing db')
  obtain h where h: "Hash_new = Inr h" "hash_holds (key_hash env) h Map.empty" using Hash_new_holds by blast
  obtain st db1 where s: "SetKey (key_hash env) db' key (Some (Hash_value h)) 0 False = (st, db1)" by fastforce
  have t: "st = DbStatus.kOk" "Db_Refinement.db_ok (key_hash env) db1" "objects db1 key \<noteq> None"
    using SetKey_ok [OF missing(3) s] by (simp_all add: db_to_def)
  have "FindOrCreateHash env db key = Inr ((Some h, kHashOk), db1)"
    unfolding FindOrCreateHash_def missing(1) h(1) using s t(1) by simp
  then show ?thesis using t h(2) missing(2) by blast
next
  case (found h db')
  then show ?thesis by (simp add: FindOrCreateHash_def)
qed

lemma card_insert_new:
  "finite F \<Longrightarrow> card (insert x F - D) = (if x \<in> D then 0 else 1) + card (F - insert x D)"
proof -
  assume "finite F"
  moreover have "insert x F - D = (if x \<in> D then F - insert x D else insert x (F - insert x D))" by auto
  ultimately show ?thesis by simp
qed

lemma HSet_loop_ok:
  assumes "hash_holds hf h m" "even (length args)"
  shows "\<exists>h'. HSet_loop hf args k h = Inr (k + int (card (fst ` set (pairs_of args) - dom m)), h') \<and>
    hash_holds hf h' (m ++ map_of (rev (pairs_of args)))"
  using assms
proof (induction args arbitrary: k h m rule: pairs_of.induct)
  case (1 field val args)
  let ?k = "k + (if m field = None then 1 else 0)"
  obtain h1 where s: "Hash_Set hf h field val = Inr (m field = None, h1)" "hash_holds hf h1 (m(field \<mapsto> val))"
    using Hash_Set_holds [OF 1(2)] by blast
  have e: "even (length args)" using 1(3) by simp
  obtain h' where r: "HSet_loop hf args ?k h1 =
      Inr (?k + int (card (fst ` set (pairs_of args) - dom (m(field \<mapsto> val)))), h')"
    "hash_holds hf h' (m(field \<mapsto> val) ++ map_of (rev (pairs_of args)))"
    using 1(1) [OF s(2) e, of ?k] by blast
  have c: "?k + int (card (fst ` set (pairs_of args) - dom (m(field \<mapsto> val)))) =
      k + int (card (fst ` set (pairs_of (field # val # args)) - dom m))"
    using card_insert_new [of "fst ` set (pairs_of args)" field "dom m"] by (simp add: domIff)
  have m: "m(field \<mapsto> val) ++ map_of (rev (pairs_of args)) = m ++ map_of (rev (pairs_of (field # val # args)))"
    by (simp add: map_add_upd_left fun_eq_iff map_add_def split: option.split)
  have x: "HSet_loop hf (field # val # args) k h = HSet_loop hf args ?k h1" using s(1) by simp
  show ?case using r unfolding x c m by blast
qed simp_all

lemma StoreObject_hash:
  assumes "Db_Refinement.db_ok (key_hash env) db" "objects db key \<noteq> None" "hash_holds (key_hash env) h m"
    and "\<not> expired now (StoreObject env db key (Hash_value h)) key"
  shows "hash_at env now (StoreObject env db key (Hash_value h)) key m"
    "Db_Refinement.db_ok (key_hash env) (StoreObject env db key (Hash_value h))"
proof -
  note t = StoreObject_ok [OF assms(1,2), of "Hash_value h"]
  show "Db_Refinement.db_ok (key_hash env) (StoreObject env db key (Hash_value h))" using t by (simp add: db_to_def)
  have "objects (StoreObject env db key (Hash_value h)) key = Some (Hash_value h)" using t by (simp add: db_to_def)
  then show "hash_at env now (StoreObject env db key (Hash_value h)) key m"
    using assms(3,4) by (simp add: hash_at_def visible_def)
qed

lemma HSet_ok:
  assumes ok: "Db_Refinement.db_ok (key_hash env) db" and at: "hash_at env (clock env 0) db key m"
    and args: "even (length args)"
  shows "\<exists>db'. HSet env db (key # args) = Inr (Some (int (card (fst ` set (pairs_of args) - dom m))), db') \<and>
    Db_Refinement.db_ok (key_hash env) db' \<and>
    (\<forall>now. \<not> expired now db' key \<longrightarrow> hash_at env now db' key (m ++ map_of (rev (pairs_of args))))"
proof -
  obtain h db1 where f: "FindOrCreateHash env db key = Inr ((Some h, kHashOk), db1)" "hash_holds (key_hash env) h m"
    "Db_Refinement.db_ok (key_hash env) db1" "objects db1 key \<noteq> None" using FindOrCreateHash_ok [OF ok at] by blast
  obtain h' where h': "HSet_loop (key_hash env) args 0 h = Inr (0 + int (card (fst ` set (pairs_of args) - dom m)), h')"
    "hash_holds (key_hash env) h' (m ++ map_of (rev (pairs_of args)))" using HSet_loop_ok [OF f(2) args] by blast
  let ?db = "StoreObject env db1 key (Hash_value h')"
  have r: "HSet env db (key # args) = Inr (Some (int (card (fst ` set (pairs_of args) - dom m))), ?db)"
    using f(1) h'(1) by (simp add: HSet_def deref_def)
  have "Db_Refinement.db_ok (key_hash env) ?db"
    using StoreObject_ok [OF f(3,4), of "Hash_value h'"] by (simp add: db_to_def)
  then show ?thesis using r StoreObject_hash(1) [OF f(3,4) h'(2)] by blast
qed

lemma HGet_ok:
  assumes ok: "Db_Refinement.db_ok (key_hash env) db" and at: "hash_at env (clock env 0) db key m"
  shows "\<exists>db'. HGet env db (key, field) p =
    Inr (Some (case m field of Some v \<Rightarrow> FromBulkString v | None \<Rightarrow> Null p), db')"
  using ok at
proof (cases rule: FindHash_cases)
  case (missing db')
  then show ?thesis by (simp add: HGet_def)
next
  case (found h db')
  obtain h' where v: "VisitValue (key_hash env) h field (\<lambda>val _. FromBulkString val) [] =
      Inr (m field \<noteq> None, case m field of None \<Rightarrow> [] | Some v \<Rightarrow> FromBulkString v, h')"
    using VisitValue_holds [OF found(2), of field "\<lambda>val _. FromBulkString val" "[]"] by blast
  then show ?thesis using found(1) by (cases "m field") (simp_all add: HGet_def deref_def)
qed

text \<open>A key of another type is left alone.\<close>

lemma HandleHSet_wrong_type:
  assumes ok: "Db_Refinement.db_ok (key_hash env) db" and ob: "visible (clock env 0) db key = Some ob"
    and type: "RedisObject_Type ob \<noteq> kHash" and args: "2 \<le> length args" "even (length args)"
  shows "\<exists>db'. HandleHSet env p (key # args) (Some db) = Inr (reply env WrongTypeError, Some db') \<and>
    objects db' = objects db \<and> expiries db' = expiries db"
  using ok
proof (cases rule: LookupKey_cases [where now = "clock env 0" and key = key])
  case (missing db')
  then show ?thesis using ob by simp
next
  case (found ob' db')
  have f: "FindHash env db key = Inr ((None, kHashWrongType), db')"
    using found(1,2) ob type by (simp add: FindHash_def)
  have len: "\<not> (length (key # args) < 3 \<or> length (key # args) mod 2 = 0)"
    unfolding list.size(4) using args by presburger
  have "HandleHSet env p (key # args) (Some db) = Inr (reply env WrongTypeError, Some db')"
    unfolding HandleHSet_def if_not_P [OF len] using f by (simp add: HSet_def FindOrCreateHash_def integer_reply_def)
  then show ?thesis using found(5,6) by blast
qed

section \<open>Properties\<close>

text \<open>
  C35: \<open>HSET key field value ...\<close> on a key that holds a hash with the fields of a map, or nothing,
  replies the number of new fields and stores the pairs from the left, through the conversion of the
  encoding wherever it falls; as long as the key has not expired \<open>HGET\<close> then replies the value of a
  field in the map with those pairs, or null.
\<close>

theorem HSet_then_HGet:
  assumes "Db_Refinement.db_ok (key_hash env) db" "hash_at env (clock env 0) db key m"
    and "args \<noteq> []" "even (length args)" "key_hash env' = key_hash env"
  shows "\<exists>db'. HandleHSet env p (key # args) (Some db) =
      Inr (MarkModified # reply env (FromInt64 (int (card (fst ` set (pairs_of args) - dom m)))), Some db') \<and>
    (\<not> expired (clock env' 0) db' key \<longrightarrow> (\<exists>db''. HandleHGet env' p' [key, field] (Some db') =
      Inr (reply env' (case (m ++ map_of (rev (pairs_of args))) field of Some v \<Rightarrow> FromBulkString v | None \<Rightarrow> Null p'),
        Some db'')))"
proof -
  let ?m = "m ++ map_of (rev (pairs_of args))"
  obtain db' where s: "HSet env db (key # args) = Inr (Some (int (card (fst ` set (pairs_of args) - dom m))), db')"
    "Db_Refinement.db_ok (key_hash env) db'" "\<forall>now. \<not> expired now db' key \<longrightarrow> hash_at env now db' key ?m"
    using HSet_ok [OF assms(1,2,4)] by blast
  have len: "\<not> (length (key # args) < 3 \<or> length (key # args) mod 2 = 0)"
  proof -
    have "2 \<le> length args" using assms(3,4) by (cases args; cases "tl args") auto
    then show ?thesis unfolding list.size(4) using assms(4) by presburger
  qed
  have r: "HandleHSet env p (key # args) (Some db) =
      Inr (MarkModified # reply env (FromInt64 (int (card (fst ` set (pairs_of args) - dom m)))), Some db')"
    unfolding HandleHSet_def if_not_P [OF len] using s(1) by (simp add: integer_reply_def)
  have g: "\<exists>db''. HandleHGet env' p' [key, field] (Some db') =
      Inr (reply env' (case ?m field of Some v \<Rightarrow> FromBulkString v | None \<Rightarrow> Null p'), Some db'')"
    if "\<not> expired (clock env' 0) db' key"
  proof -
    have ok: "Db_Refinement.db_ok (key_hash env') db'" using s(2) assms(5) by simp
    have "hash_at env' (clock env' 0) db' key ?m" using s(3) that unfolding hash_at_def assms(5) by blast
    from HGet_ok [OF ok this, of field p'] obtain db'' where
      "HGet env' db' (key, field) p' = Inr (Some (case ?m field of Some v \<Rightarrow> FromBulkString v | None \<Rightarrow> Null p'), db'')" by blast
    then show ?thesis by (simp add: HandleHGet_def ParseFieldArgs_def encoded_reply_def)
  qed
  show ?thesis by (intro exI [of _ db'] conjI impI r g)
qed

theorem HSet_then_HGet_witness:
  "\<exists>db'. HandleHSet \<lparr>key_hash = length, clock = \<lambda>_. 5, capacity = length\<rparr> kResp2 [''h'', ''f'', ''1'', ''f'', ''2'']
      (Some (empty_db :: (unit, unit, unit, hash_obj) redis_object redis_db)) =
    Inr (MarkModified # reply \<lparr>key_hash = length, clock = \<lambda>_. 5, capacity = length\<rparr> (FromInt64 1), Some db')"
proof -
  let ?e = "\<lparr>key_hash = length, clock = \<lambda>_. 5, capacity = length\<rparr> :: server_env"
  have ok: "Db_Refinement.db_ok (key_hash ?e) (empty_db :: (unit, unit, unit, hash_obj) redis_object redis_db)"
    by (simp add: empty_db_ok)
  have at: "hash_at ?e (clock ?e 0) (empty_db :: (unit, unit, unit, hash_obj) redis_object redis_db) ''h'' Map.empty"
    by (simp add: hash_at_def visible_def empty_db_ok)
  have args: "[''f'', ''1'', ''f'', ''2''] \<noteq> []" "even (length [''f'', ''1'', ''f'', ''2''])" by simp_all
  obtain db' where "HandleHSet ?e kResp2 (''h'' # [''f'', ''1'', ''f'', ''2''])
      (Some (empty_db :: (unit, unit, unit, hash_obj) redis_object redis_db)) =
    Inr (MarkModified # reply ?e (FromInt64 (int (card (fst ` set (pairs_of [''f'', ''1'', ''f'', ''2'']) - dom (Map.empty :: string \<rightharpoonup> string))))), Some db')"
    using HSet_then_HGet [OF ok at args refl, of kResp2 kResp2 "''f''"] by (elim exE conjE) (rule that)
  moreover have "int (card (fst ` set (pairs_of [''f'', ''1'', ''f'', ''2'']) - dom (Map.empty :: string \<rightharpoonup> string))) = 1" by simp
  ultimately show ?thesis by (intro exI [of _ db']) (simp only:)
qed

end
