(* ===== verification/QuickList.thy ===== *)
theory QuickList
  imports Containers
begin

text \<open>
  The linked list of listpacks (\<open>src/memory/quicklist.cpp\<close>, \<open>quicklist.h\<close>).  The chain of nodes is
  the list of their listpacks, a pointer to a node its position in the chain, and the null pointer
  \<open>None\<close>.  The number of elements of a listpack is read with \<open>ListPack_size_of\<close>: the count that
  \<open>Size\<close> may write back into the header is a cache and is not kept.  \<open>TotalBytes\<close> is of type
  \<open>uint32_t\<close>, so that the sum in \<open>CanMergeNodes\<close> wraps around.  The loops that merge nodes do not end
  when a merge fails; they are given as many iterations as there are nodes, and \<open>No_return\<close> says that
  these have not been enough.
\<close>

section \<open>Definitions\<close>

record quicklist =
  ql_nodes :: "bytes list"
  ql_size :: nat
  ql_node_count :: nat
  ql_node_max_bytes :: nat

datatype RemoveDirection = kFromHead | kFromTail

definition kDefaultNodeMaxBytes :: nat where
  "kDefaultNodeMaxBytes = 8192"

definition HasRemoveLimit :: "nat \<Rightarrow> bool" where
  "HasRemoveLimit limit = (limit \<noteq> 0)"

definition QuickList_new :: "nat \<Rightarrow> quicklist" where
  "QuickList_new node_max_bytes =
     \<lparr>ql_nodes = [], ql_size = 0, ql_node_count = 0, ql_node_max_bytes = max node_max_bytes 7\<rparr>"

subsection \<open>The chain\<close>

definition node_at :: "quicklist \<Rightarrow> nat \<Rightarrow> bytes res" where
  "node_at q i = (if i < length (ql_nodes q) then Inr (ql_nodes q ! i) else Inl Null_deref)"

definition set_node :: "quicklist \<Rightarrow> nat \<Rightarrow> bytes \<Rightarrow> quicklist" where
  "set_node q i lp = q\<lparr>ql_nodes := (ql_nodes q)[i := lp]\<rparr>"

definition head_ptr :: "quicklist \<Rightarrow> nat option" where
  "head_ptr q = (if ql_nodes q = [] then None else Some 0)"

definition tail_ptr :: "quicklist \<Rightarrow> nat option" where
  "tail_ptr q = (if ql_nodes q = [] then None else Some (length (ql_nodes q) - 1))"

definition next_ptr :: "quicklist \<Rightarrow> nat \<Rightarrow> nat option" where
  "next_ptr q i = (if i + 1 < length (ql_nodes q) then Some (i + 1) else None)"

definition prev_ptr :: "nat \<Rightarrow> nat option" where
  "prev_ptr i = (if i = 0 then None else Some (i - 1))"

definition AppendNode :: "quicklist \<Rightarrow> quicklist res" where
  "AppendNode q = bindE ListPack_new (\<lambda>lp.
     Inr (q\<lparr>ql_nodes := ql_nodes q @ [lp], ql_node_count := ql_node_count q + 1\<rparr>))"

definition PrependNode :: "quicklist \<Rightarrow> quicklist res" where
  "PrependNode q = bindE ListPack_new (\<lambda>lp.
     Inr (q\<lparr>ql_nodes := lp # ql_nodes q, ql_node_count := ql_node_count q + 1\<rparr>))"

definition InsertNodeAfter :: "quicklist \<Rightarrow> nat \<Rightarrow> bytes \<Rightarrow> quicklist" where
  "InsertNodeAfter q i lp =
     q\<lparr>ql_nodes := take (i + 1) (ql_nodes q) @ lp # drop (i + 1) (ql_nodes q),
       ql_node_count := ql_node_count q + 1\<rparr>"

definition QuickList_DeleteNode :: "quicklist \<Rightarrow> nat option \<Rightarrow> quicklist" where
  "QuickList_DeleteNode q node = (case node of
     None \<Rightarrow> q
   | Some i \<Rightarrow> q\<lparr>ql_nodes := take i (ql_nodes q) @ drop (i + 1) (ql_nodes q),
                 ql_node_count := ql_node_count q - 1\<rparr>)"

definition Clear :: "quicklist \<Rightarrow> quicklist" where
  "Clear q = q\<lparr>ql_nodes := [], ql_size := 0, ql_node_count := 0\<rparr>"

subsection \<open>Splitting and merging\<close>

definition CanAppendToNode :: "quicklist \<Rightarrow> nat option \<Rightarrow> string \<Rightarrow> bool res" where
  "CanAppendToNode q node val = (case node of
     None \<Rightarrow> Inr False
   | Some i \<Rightarrow> bindE (node_at q i) (\<lambda>lp.
       let estimated_bytes = ListPack_EstimateEntryBytes val in
       bindE (ListPack_size_of lp) (\<lambda>n.
         if n = 0 then Inr True
         else bindE (ListPack_TotalBytes lp) (\<lambda>bytes.
           Inr (bytes \<le> ql_node_max_bytes q \<and> estimated_bytes \<le> ql_node_max_bytes q - bytes)))))"

definition CanMergeNodes :: "quicklist \<Rightarrow> nat option \<Rightarrow> nat option \<Rightarrow> bool res" where
  "CanMergeNodes q left right = (case (left, right) of
     (Some l, Some r) \<Rightarrow>
       bindE (node_at q l) (\<lambda>lp. bindE (node_at q r) (\<lambda>rp.
       bindE (ListPack_TotalBytes lp) (\<lambda>left_bytes. bindE (ListPack_TotalBytes rp) (\<lambda>right_bytes.
         let merged_bytes = (left_bytes + right_bytes + 2 ^ 32 - 7) mod 2 ^ 32 in
         Inr (merged_bytes \<le> ql_node_max_bytes q)))))
   | _ \<Rightarrow> Inr False)"

text \<open>The visitor that appends each value to a listpack and stops when one does not fit.\<close>

definition append_visitor :: "string \<Rightarrow> bytes res \<Rightarrow> bool \<times> bytes res" where
  "append_visitor val r = (case r of
     Inl f \<Rightarrow> (False, Inl f)
   | Inr lp \<Rightarrow> (case ListPack_Append lp val of Inl f \<Rightarrow> (False, Inl f) | Inr (b, lp) \<Rightarrow> (b, Inr lp)))"

definition MergeNext :: "quicklist \<Rightarrow> nat option \<Rightarrow> quicklist res" where
  "MergeNext q left =
     bindE (CanMergeNodes q left (case left of None \<Rightarrow> None | Some i \<Rightarrow> next_ptr q i)) (\<lambda>can_merge.
     if \<not> can_merge then Inr q
     else bindE (deref left) (\<lambda>i. bindE (node_at q i) (\<lambda>lp. bindE (node_at q (i + 1)) (\<lambda>right.
       bindE (ListPack_size_of right) (\<lambda>right_size.
       bindE (if right_size > 0 then ListPack_ForEach right 0 (right_size - 1) append_visitor (Inr lp)
              else Inr (True, Inr lp)) (\<lambda>(merged, r).
       bindE r (\<lambda>lp.
         Inr (if merged then QuickList_DeleteNode (set_node q i lp) (Some (i + 1)) else set_node q i lp))))))))"

fun MergeWhile :: "nat \<Rightarrow> quicklist \<Rightarrow> nat \<Rightarrow> quicklist res" where
  "MergeWhile 0 q i =
     bindE (CanMergeNodes q (Some i) (next_ptr q i)) (\<lambda>can_merge. if \<not> can_merge then Inr q else Inl No_return)"
| "MergeWhile (Suc n) q i =
     bindE (CanMergeNodes q (Some i) (next_ptr q i)) (\<lambda>can_merge.
     if \<not> can_merge then Inr q else bindE (MergeNext q (Some i)) (\<lambda>q. MergeWhile n q i))"

definition MergeAround :: "quicklist \<Rightarrow> nat option \<Rightarrow> quicklist res" where
  "MergeAround q node = (case node of
     None \<Rightarrow> Inr q
   | Some i \<Rightarrow>
       bindE (CanMergeNodes q (prev_ptr i) (Some i)) (\<lambda>can_merge.
       bindE (if can_merge then bindE (MergeNext q (prev_ptr i)) (\<lambda>q. Inr (q, i - 1)) else Inr (q, i)) (\<lambda>(q, i).
         MergeWhile (length (ql_nodes q)) q i)))"

fun MergeAll_loop :: "nat \<Rightarrow> quicklist \<Rightarrow> nat \<Rightarrow> quicklist res" where
  "MergeAll_loop 0 q i = (if i < length (ql_nodes q) then Inl No_return else Inr q)"
| "MergeAll_loop (Suc n) q i =
     (if i < length (ql_nodes q) then
        bindE (MergeWhile (length (ql_nodes q)) q i) (\<lambda>q. MergeAll_loop n q (i + 1))
      else Inr q)"

definition MergeAll :: "quicklist \<Rightarrow> quicklist res" where
  "MergeAll q = MergeAll_loop (length (ql_nodes q)) q 0"

text \<open>The result is whether the node has been split.\<close>

definition SplitNode :: "quicklist \<Rightarrow> nat \<Rightarrow> (bool \<times> quicklist) res" where
  "SplitNode q i = bindE (node_at q i) (\<lambda>lp. bindE (ListPack_size_of lp) (\<lambda>node_size.
     if node_size \<le> 1 then Inr (False, q)
     else
       let split_index = node_size div 2 in
       bindE ListPack_new (\<lambda>right.
       bindE (ListPack_ForEach lp split_index (node_size - 1) append_visitor (Inr right)) (\<lambda>(copied, r).
       bindE r (\<lambda>right.
       if \<not> copied then Inr (False, q)
       else bindE (ListPack_IndexAt lp split_index) (\<lambda>idx.
         case idx of
           None \<Rightarrow> Inr (False, q)
         | Some j \<Rightarrow> bindE (ListPack_DeleteRange lp j (node_size - split_index)) (\<lambda>(deleted, lp).
             if deleted \<noteq> node_size - split_index then Inr (False, set_node q i lp)
             else Inr (True, InsertNodeAfter (set_node q i lp) i right))))))))"

text \<open>
  The inner loop splits the current node, the outer one moves on; \<open>n\<close> counts the iterations of both.
\<close>

fun NormalizeNodeSizesFrom :: "nat \<Rightarrow> quicklist \<Rightarrow> nat \<Rightarrow> (bool \<times> quicklist) res" where
  "NormalizeNodeSizesFrom 0 q i = (if i < length (ql_nodes q) then Inl No_return else Inr (True, q))"
| "NormalizeNodeSizesFrom (Suc n) q i =
     (if i < length (ql_nodes q) then
        bindE (node_at q i) (\<lambda>lp. bindE (ListPack_TotalBytes lp) (\<lambda>bytes. bindE (ListPack_size_of lp) (\<lambda>node_size.
          if bytes > ql_node_max_bytes q \<and> node_size > 1 then
            bindE (SplitNode q i) (\<lambda>(split, q). if \<not> split then Inr (False, q) else NormalizeNodeSizesFrom n q i)
          else NormalizeNodeSizesFrom n q (i + 1))))
      else Inr (True, q))"

subsection \<open>The ends of the list\<close>

definition PushToHeadNode :: "quicklist \<Rightarrow> string \<Rightarrow> (bool \<times> quicklist) res" where
  "PushToHeadNode q val = (case head_ptr q of
     None \<Rightarrow> Inr (False, q)
   | Some i \<Rightarrow> bindE (node_at q i) (\<lambda>lp. bindE (ListPack_Prepend lp val) (\<lambda>(b, lp). Inr (b, set_node q i lp))))"

definition PushToTailNode :: "quicklist \<Rightarrow> string \<Rightarrow> (bool \<times> quicklist) res" where
  "PushToTailNode q val = (case tail_ptr q of
     None \<Rightarrow> Inr (False, q)
   | Some i \<Rightarrow> bindE (node_at q i) (\<lambda>lp. bindE (ListPack_Append lp val) (\<lambda>(b, lp). Inr (b, set_node q i lp))))"

definition QuickList_LPush :: "quicklist \<Rightarrow> string \<Rightarrow> (bool \<times> quicklist) res" where
  "QuickList_LPush q val =
     bindE (CanAppendToNode q (head_ptr q) val) (\<lambda>can_append.
     bindE (if can_append then Inr q else PrependNode q) (\<lambda>q.
     bindE (PushToHeadNode q val) (\<lambda>(b, q).
       Inr (if b then (True, q\<lparr>ql_size := ql_size q + 1\<rparr>) else (False, q)))))"

definition QuickList_RPush :: "quicklist \<Rightarrow> string \<Rightarrow> (bool \<times> quicklist) res" where
  "QuickList_RPush q val =
     bindE (CanAppendToNode q (tail_ptr q) val) (\<lambda>can_append.
     bindE (if can_append then Inr q else AppendNode q) (\<lambda>q.
     bindE (PushToTailNode q val) (\<lambda>(b, q).
       Inr (if b then (True, q\<lparr>ql_size := ql_size q + 1\<rparr>) else (False, q)))))"

definition QuickList_LPop :: "quicklist \<Rightarrow> (string option \<times> quicklist) res" where
  "QuickList_LPop q = (case head_ptr q of
     None \<Rightarrow> Inr (None, q)
   | Some i \<Rightarrow> bindE (node_at q i) (\<lambda>lp. bindE (ListPack_First lp) (\<lambda>idx.
       case idx of
         None \<Rightarrow> Inr (None, q)
       | Some j \<Rightarrow>
           bindE (ListPack_Get lp j) (\<lambda>val. bindE (ListPack_Delete lp j) (\<lambda>lp.
           let q = (set_node q i lp)\<lparr>ql_size := ql_size q - 1\<rparr> in
           bindE (ListPack_size_of lp) (\<lambda>n.
           let q = (if n = 0 then QuickList_DeleteNode q (Some i) else q) in
           bindE (MergeNext q (head_ptr q)) (\<lambda>q. Inr (val, q))))))))"

definition QuickList_RPop :: "quicklist \<Rightarrow> (string option \<times> quicklist) res" where
  "QuickList_RPop q = (case tail_ptr q of
     None \<Rightarrow> Inr (None, q)
   | Some i \<Rightarrow> bindE (node_at q i) (\<lambda>lp. bindE (ListPack_Last lp) (\<lambda>idx.
       case idx of
         None \<Rightarrow> Inr (None, q)
       | Some j \<Rightarrow>
           bindE (ListPack_Get lp j) (\<lambda>val. bindE (ListPack_Delete lp j) (\<lambda>lp.
           let q = (set_node q i lp)\<lparr>ql_size := ql_size q - 1\<rparr> in
           bindE (ListPack_size_of lp) (\<lambda>n.
           bindE (if n = 0 then
                    let q = QuickList_DeleteNode q (Some i) in
                    MergeNext q (case tail_ptr q of None \<Rightarrow> None | Some t \<Rightarrow> prev_ptr t)
                  else if prev_ptr i \<noteq> None then MergeNext q (prev_ptr i)
                  else Inr q) (\<lambda>q. Inr (val, q))))))))"

subsection \<open>Traversals\<close>

primrec QuickList_ForEach_loop ::
  "bytes list \<Rightarrow> nat \<Rightarrow> nat \<Rightarrow> nat \<Rightarrow> 's visitor \<Rightarrow> 's \<Rightarrow> (bool \<times> 's) res" where
  "QuickList_ForEach_loop [] index start stop visitor s = Inr (True, s)"
| "QuickList_ForEach_loop (lp # lps) index start stop visitor s =
     bindE (ListPack_size_of lp) (\<lambda>node_size.
     if node_size = 0 then QuickList_ForEach_loop lps index start stop visitor s
     else if index + node_size \<le> start then QuickList_ForEach_loop lps (index + node_size) start stop visitor s
     else
       let local_start = (if start > index then start - index else 0);
           local_stop = min (stop - index) (node_size - 1) in
       bindE (ListPack_ForEach lp local_start local_stop visitor s) (\<lambda>(go, s).
         if \<not> go then Inr (False, s)
         else if index + node_size > stop then Inr (True, s)
         else QuickList_ForEach_loop lps (index + node_size) start stop visitor s))"

definition QuickList_ForEach :: "quicklist \<Rightarrow> nat \<Rightarrow> nat \<Rightarrow> 's visitor \<Rightarrow> 's \<Rightarrow> (bool \<times> 's) res" where
  "QuickList_ForEach q start stop visitor s =
     (if start > stop \<or> start \<ge> ql_size q then Inr (True, s)
      else QuickList_ForEach_loop (ql_nodes q) 0 start (min stop (ql_size q - 1)) visitor s)"

text \<open>The nodes are those from the tail on; \<open>node_end\<close> is \<open>node_start\<close> before the subtraction.\<close>

primrec QuickList_ForEachReverse_loop ::
  "bytes list \<Rightarrow> nat \<Rightarrow> nat \<Rightarrow> nat \<Rightarrow> 's visitor \<Rightarrow> 's \<Rightarrow> (bool \<times> 's) res" where
  "QuickList_ForEachReverse_loop [] node_end start stop visitor s = Inr (True, s)"
| "QuickList_ForEachReverse_loop (lp # lps) node_end start stop visitor s =
     bindE (ListPack_size_of lp) (\<lambda>node_size.
     if node_size = 0 then QuickList_ForEachReverse_loop lps node_end start stop visitor s
     else
       let node_start = node_end - node_size; node_stop = node_start + node_size - 1 in
       if node_start > stop then QuickList_ForEachReverse_loop lps node_start start stop visitor s
       else if node_stop < start then Inr (True, s)
       else
         let local_start = (if start > node_start then start - node_start else 0);
             local_stop = min stop node_stop - node_start in
         bindE (ListPack_ForEachReverse lp local_start local_stop visitor s) (\<lambda>(go, s).
           if \<not> go then Inr (False, s)
           else QuickList_ForEachReverse_loop lps node_start start stop visitor s))"

definition QuickList_ForEachReverse :: "quicklist \<Rightarrow> nat \<Rightarrow> nat \<Rightarrow> 's visitor \<Rightarrow> 's \<Rightarrow> (bool \<times> 's) res" where
  "QuickList_ForEachReverse q start stop visitor s =
     (if start > stop \<or> start \<ge> ql_size q then Inr (True, s)
      else QuickList_ForEachReverse_loop (rev (ql_nodes q)) (ql_size q) start (min stop (ql_size q - 1)) visitor s)"

definition QuickList_Range :: "quicklist \<Rightarrow> nat \<Rightarrow> nat \<Rightarrow> string list res" where
  "QuickList_Range q start stop =
     (if start > stop \<or> start \<ge> ql_size q then Inr []
      else bindE (QuickList_ForEach q start (min stop (ql_size q - 1))
             (\<lambda>val vals. (True, vals @ [val])) []) (\<lambda>(_, vals). Inr vals))"

subsection \<open>Positions, removal and trimming\<close>

text \<open>In the first loop \<open>i\<close> is the node and \<open>n\<close> the number of nodes from there on.\<close>

fun Locate_forward :: "nat \<Rightarrow> quicklist \<Rightarrow> nat \<Rightarrow> nat \<Rightarrow> nat \<Rightarrow> (nat \<times> nat) option res" where
  "Locate_forward 0 q i index first_index = Inr None"
| "Locate_forward (Suc n) q i index first_index =
     bindE (node_at q i) (\<lambda>lp. bindE (ListPack_size_of lp) (\<lambda>node_size.
       if index - first_index < node_size then Inr (Some (i, index - first_index))
       else Locate_forward n q (i + 1) index (first_index + node_size)))"

fun Locate_backward :: "nat \<Rightarrow> quicklist \<Rightarrow> nat \<Rightarrow> nat \<Rightarrow> (nat \<times> nat) option res" where
  "Locate_backward 0 q index end_index = Inr None"
| "Locate_backward (Suc i) q index end_index =
     bindE (node_at q i) (\<lambda>lp. bindE (ListPack_size_of lp) (\<lambda>node_size.
       let first_index = end_index - node_size in
       if index \<ge> first_index then Inr (Some (i, index - first_index))
       else Locate_backward i q index first_index))"

definition Locate :: "quicklist \<Rightarrow> nat \<Rightarrow> (nat \<times> nat) option res" where
  "Locate q index =
     (if index \<ge> ql_size q then Inr None
      else if index < ql_size q div 2 then Locate_forward (length (ql_nodes q)) q 0 index 0
      else Locate_backward (length (ql_nodes q)) q index (ql_size q))"

definition QuickList_Set :: "quicklist \<Rightarrow> nat \<Rightarrow> string \<Rightarrow> (bool \<times> quicklist) res" where
  "QuickList_Set q index val = bindE (Locate q index) (\<lambda>location.
     case location of
       None \<Rightarrow> Inr (False, q)
     | Some (i, local_index) \<Rightarrow>
         bindE (node_at q i) (\<lambda>lp. bindE (ListPack_IndexAt lp local_index) (\<lambda>listpack_index.
           case listpack_index of
             None \<Rightarrow> Inr (False, q)
           | Some j \<Rightarrow> bindE (ListPack_Replace lp j val) (\<lambda>(replaced, lp).
               if \<not> replaced then Inr (False, q)
               else bindE (NormalizeNodeSizesFrom (2 * ql_size q) (set_node q i lp) i) (\<lambda>(normalized, q).
                 if \<not> normalized then Inr (False, q)
                 else bindE (MergeAround q (Some i)) (\<lambda>q. Inr (True, q)))))))"

definition remove_at :: "quicklist \<Rightarrow> nat \<Rightarrow> string \<Rightarrow> nat \<Rightarrow> bool \<Rightarrow> (nat \<times> bool \<times> quicklist) res" where
  "remove_at q i val limit from_tail =
     bindE (node_at q i) (\<lambda>lp. bindE (ListPack_DeleteMatching lp val limit from_tail) (\<lambda>(node_removed, lp).
     let q = (set_node q i lp)\<lparr>ql_size := ql_size q - node_removed\<rparr> in
     bindE (ListPack_size_of lp) (\<lambda>n.
       Inr (node_removed, n = 0, if n = 0 then QuickList_DeleteNode q (Some i) else q))))"

fun Remove_backward :: "nat \<Rightarrow> quicklist \<Rightarrow> string \<Rightarrow> nat \<Rightarrow> nat \<Rightarrow> (nat \<times> quicklist) res" where
  "Remove_backward 0 q val limit removed = Inr (removed, q)"
| "Remove_backward (Suc i) q val limit removed =
     (if removed < limit then
        bindE (remove_at q i val (limit - removed) True) (\<lambda>(node_removed, _, q).
          Remove_backward i q val limit (removed + node_removed))
      else Inr (removed, q))"

fun Remove_forward :: "nat \<Rightarrow> quicklist \<Rightarrow> nat \<Rightarrow> string \<Rightarrow> nat \<Rightarrow> nat \<Rightarrow> (nat \<times> quicklist) res" where
  "Remove_forward 0 q i val limit removed = Inr (removed, q)"
| "Remove_forward (Suc n) q i val limit removed =
     (if \<not> HasRemoveLimit limit \<or> removed < limit then
        bindE (remove_at q i val (if HasRemoveLimit limit then limit - removed else 0) False)
          (\<lambda>(node_removed, deleted, q).
            Remove_forward n q (if deleted then i else i + 1) val limit (removed + node_removed))
      else Inr (removed, q))"

definition QuickList_Remove ::
  "quicklist \<Rightarrow> string \<Rightarrow> nat \<Rightarrow> RemoveDirection \<Rightarrow> (nat option \<times> quicklist) res" where
  "QuickList_Remove q val limit direction =
     (if ql_size q = 0 then Inr (Some 0, q)
      else
        bindE (if direction = kFromTail \<and> HasRemoveLimit limit
               then Remove_backward (length (ql_nodes q)) q val limit 0
               else Remove_forward (length (ql_nodes q)) q 0 val limit 0) (\<lambda>(removed, q).
        bindE (MergeAll q) (\<lambda>q. Inr (Some removed, q))))"

function Trim_suffix :: "quicklist \<Rightarrow> nat \<Rightarrow> (nat \<times> quicklist) res" where
  "Trim_suffix q suffix_count =
     (if ql_nodes q = [] then Inr (suffix_count, q)
      else bindE (ListPack_size_of (last (ql_nodes q))) (\<lambda>node_size.
        if suffix_count \<ge> node_size then
          Trim_suffix (QuickList_DeleteNode (q\<lparr>ql_size := ql_size q - node_size\<rparr>) (tail_ptr q)) (suffix_count - node_size)
        else Inr (suffix_count, q)))"
  by auto
termination
  by (relation "measure (\<lambda>(q, _). length (ql_nodes q))") (auto simp: QuickList_DeleteNode_def tail_ptr_def)

function Trim_prefix :: "quicklist \<Rightarrow> nat \<Rightarrow> (nat \<times> quicklist) res" where
  "Trim_prefix q prefix_count =
     (if ql_nodes q = [] then Inr (prefix_count, q)
      else bindE (ListPack_size_of (hd (ql_nodes q))) (\<lambda>node_size.
        if prefix_count \<ge> node_size then
          Trim_prefix (QuickList_DeleteNode (q\<lparr>ql_size := ql_size q - node_size\<rparr>) (head_ptr q)) (prefix_count - node_size)
        else Inr (prefix_count, q)))"
  by auto
termination
  by (relation "measure (\<lambda>(q, _). length (ql_nodes q))") (auto simp: QuickList_DeleteNode_def head_ptr_def)

declare Trim_suffix.simps [simp del] Trim_prefix.simps [simp del]

text \<open>The cut inside a node: \<open>deleted_count\<close> elements from the position on are deleted.\<close>

definition trim_node :: "quicklist \<Rightarrow> nat option \<Rightarrow> (bytes \<Rightarrow> nat option res) \<Rightarrow> nat \<Rightarrow> (bool \<times> quicklist) res" where
  "trim_node q node position deleted_count =
     (if deleted_count > 0 then
        bindE (deref node) (\<lambda>i. bindE (node_at q i) (\<lambda>lp. bindE (position lp) (\<lambda>first_deleted.
          case first_deleted of
            None \<Rightarrow> Inr (False, q)
          | Some j \<Rightarrow> bindE (ListPack_DeleteRange lp j deleted_count) (\<lambda>(deleted, lp).
              if deleted \<noteq> deleted_count then Inr (False, set_node q i lp)
              else Inr (True, (set_node q i lp)\<lparr>ql_size := ql_size q - deleted_count\<rparr>)))))
      else Inr (True, q))"

definition QuickList_Trim :: "quicklist \<Rightarrow> nat \<Rightarrow> nat \<Rightarrow> (bool \<times> quicklist) res" where
  "QuickList_Trim q start stop =
     (if ql_size q = 0 \<or> start > stop \<or> start \<ge> ql_size q then Inr (True, Clear q)
      else
        let stop = min stop (ql_size q - 1) in
        bindE (Trim_suffix q (ql_size q - stop - 1)) (\<lambda>(suffix_count, q).
        bindE (trim_node q (tail_ptr q) (\<lambda>lp. bindE (ListPack_size_of lp) (\<lambda>n.
            ListPack_IndexAt lp (n - suffix_count))) suffix_count) (\<lambda>(trimmed, q).
        if \<not> trimmed then Inr (False, q)
        else bindE (Trim_prefix q start) (\<lambda>(prefix_count, q).
          bindE (trim_node q (head_ptr q) ListPack_First prefix_count) (\<lambda>(trimmed, q).
          if \<not> trimmed then Inr (False, q)
          else bindE (MergeAround q (head_ptr q)) (\<lambda>q.
            bindE (case tail_ptr q of
                None \<Rightarrow> Inr q
              | Some t \<Rightarrow> MergeAround q (if prev_ptr t \<noteq> None then prev_ptr t else Some t)) (\<lambda>q.
              Inr (True, q))))))))"

definition ListPackBytes :: "quicklist \<Rightarrow> nat option res" where
  "ListPackBytes q =
     (if ql_node_count q > 1 then Inr None
      else case ql_nodes q of [] \<Rightarrow> Inr (Some 7) | lp # _ \<Rightarrow> bindE (ListPack_TotalBytes lp) (\<lambda>n. Inr (Some n)))"

definition ReleaseListPack :: "quicklist \<Rightarrow> (bytes option \<times> quicklist) res" where
  "ReleaseListPack q =
     (if ql_node_count q > 1 then Inr (None, q)
      else bindE (case ql_nodes q of [] \<Rightarrow> ListPack_new | lp # _ \<Rightarrow> Inr lp) (\<lambda>lp. Inr (Some lp, Clear q)))"

end
