(* ===== verification/Quicklist_Refinement.thy ===== *)
theory Quicklist_Refinement
  imports QuickList
begin

text \<open>
  A quicklist stands for the concatenation of the lists in its nodes.  Every operation refines the
  operation on that list, and the loops that split and merge nodes end.
\<close>

section \<open>Nodes\<close>

definition snode :: "bytes \<Rightarrow> string list \<Rightarrow> bool" where
  "snode lp xs \<longleftrightarrow> ListPack_repr lp (map entry_of xs)"

definition nbytes :: "string list \<Rightarrow> nat" where
  "nbytes xs = 7 + length (lp_body (map entry_of xs))"

lemma nbytes_simps [simp]:
  "nbytes [] = 7" "nbytes (x # xs) = nbytes xs + length (enc (entry_of x))"
  by (simp_all add: nbytes_def)

lemma nbytes_append: "nbytes (xs @ ys) + 7 = nbytes xs + nbytes ys"
  by (simp add: nbytes_def)

lemma nbytes_pos: "7 \<le> nbytes xs"
  by (simp add: nbytes_def)

lemma nbytes_drop_take: "nbytes (take a xs @ drop (a + c) xs) \<le> nbytes xs"
proof -
  have "xs = take a xs @ take c (drop a xs) @ drop (a + c) xs"
    by (metis append_take_drop_id drop_drop add.commute)
  then have "lp_body (map entry_of xs) = lp_body (map entry_of (take a xs)) @
      lp_body (map entry_of (take c (drop a xs))) @ lp_body (map entry_of (drop (a + c) xs))"
    by (metis lp_body_simps(3) map_append)
  then show ?thesis by (simp add: nbytes_def)
qed

lemma EstimateEntryBytes_exact:
  assumes "length val < 2 ^ 31"
  shows "ListPack_EstimateEntryBytes val = length (enc (entry_of val))"
proof -
  have b: "length (enc (entry_of val)) \<le> 2 ^ 32" using length_enc_entry_of [of val] assms by simp
  show ?thesis
  proof (cases "ToCanonicalInt64 val")
    case None
    then have "length (enc (entry_of val)) = enc_len (LStr val) + BacklenBytes (enc_len (LStr val))"
      by (simp add: entry_of_def length_enc)
    moreover have "fst (EncodeString val) = enc_len (LStr val)" by (simp add: encode.simps)
    ultimately show ?thesis using None assms b by (simp add: ListPack_EstimateEntryBytes_def Let_def)
  next
    case (Some v)
    then have "length (enc (entry_of val)) = enc_len (LInt v) + BacklenBytes (enc_len (LInt v))"
      by (simp add: entry_of_def length_enc)
    moreover have "fst (EncodeInteger v) = enc_len (LInt v)" by (simp add: encode.simps)
    ultimately show ?thesis using Some b by (simp add: ListPack_EstimateEntryBytes_def Let_def)
  qed
qed

lemma snode_size [simp]: "snode lp xs \<Longrightarrow> ListPack_size_of lp = Inr (length xs)"
  by (simp add: snode_def repr_size_of)

lemma snode_bytes [simp]: "snode lp xs \<Longrightarrow> ListPack_TotalBytes lp = Inr (nbytes xs)"
  using repr_TotalBytes repr_length by (simp add: snode_def nbytes_def)

lemma snode_new: "\<exists>lp. ListPack_new = Inr lp \<and> snode lp []"
  using repr_new by (simp add: snode_def)

lemma snode_ForEach: "snode lp xs \<Longrightarrow> ListPack_ForEach lp a b f s = Inr (visit f (drop a (take (Suc b) xs)) s)"
  by (simp add: snode_def repr_ForEach entry_range_def take_map drop_map comp_def)

lemma snode_ForEachReverse:
  "snode lp xs \<Longrightarrow> ListPack_ForEachReverse lp a b f s = Inr (visit f (rev (drop a (take (Suc b) xs))) s)"
  by (simp add: snode_def repr_ForEachReverse entry_range_def take_map drop_map comp_def)

lemma snode_IndexAt: "snode lp xs \<Longrightarrow> ListPack_IndexAt lp n = Inr (if n < length xs then Some (lp_off (map entry_of xs) n) else None)"
  by (simp add: snode_def repr_IndexAt)

lemma snode_First: "snode lp xs \<Longrightarrow> ListPack_First lp = Inr (if xs = [] then None else Some (lp_off (map entry_of xs) 0))"
  by (simp add: snode_def repr_First)

lemma snode_Last:
  "snode lp xs \<Longrightarrow> ListPack_Last lp = Inr (if xs = [] then None else Some (lp_off (map entry_of xs) (length xs - 1)))"
  by (simp add: snode_def repr_Last)

lemma snode_Get: "snode lp xs \<Longrightarrow> i < length xs \<Longrightarrow> ListPack_Get lp (lp_off (map entry_of xs) i) = Inr (Some (xs ! i))"
  by (simp add: snode_def repr_Get)

lemma snode_DeleteRange:
  assumes "snode lp xs" "i < length xs"
  shows "\<exists>lp'. ListPack_DeleteRange lp (lp_off (map entry_of xs) i) c = Inr (min c (length xs - i), lp') \<and>
    snode lp' (take i xs @ drop (i + c) xs)"
  using repr_DeleteRange [of lp "map entry_of xs" i c] assms by (simp add: snode_def take_map drop_map)

lemma snode_Delete:
  assumes "snode lp xs" "i < length xs"
  shows "\<exists>lp'. ListPack_Delete lp (lp_off (map entry_of xs) i) = Inr lp' \<and> snode lp' (take i xs @ drop (Suc i) xs)"
  using snode_DeleteRange [OF assms, of 1] by (auto simp: ListPack_Delete_def)

lemma snode_Append:
  assumes "snode lp xs" "length v < 2 ^ 31" "nbytes (xs @ [v]) \<le> UINT32_MAX"
  shows "\<exists>lp'. ListPack_Append lp v = Inr (True, lp') \<and> snode lp' (xs @ [v])"
  using ListPack_Append_element [OF _ element_str [OF assms(2)], of lp "map entry_of xs"] assms(1,3)
  by (simp add: snode_def ListPack_Append_def lp_fits_def nbytes_def)

lemma snode_Prepend:
  assumes "snode lp xs" "length v < 2 ^ 31" "nbytes (v # xs) \<le> UINT32_MAX"
  shows "\<exists>lp'. ListPack_Prepend lp v = Inr (True, lp') \<and> snode lp' (v # xs)"
  using repr_Insert_before [OF _ _ element_str [OF assms(2)], of lp "map entry_of xs" 0] assms(1,3)
  by (simp add: snode_def ListPack_Prepend_def lp_fits_def nbytes_def add.commute)

lemma snode_Replace:
  assumes "snode lp xs" "i < length xs" "length v < 2 ^ 31" "nbytes (xs[i := v]) \<le> UINT32_MAX"
  shows "\<exists>lp'. ListPack_Replace lp (lp_off (map entry_of xs) i) v = Inr (True, lp') \<and> snode lp' (xs[i := v])"
  using repr_Insert_replace [OF _ _ element_str [OF assms(3)], of lp "map entry_of xs" i] assms(1,2,4)
  by (simp add: snode_def ListPack_Replace_def lp_fits_def nbytes_def map_update)

definition remove_strs :: "string \<Rightarrow> nat \<Rightarrow> bool \<Rightarrow> string list \<Rightarrow> string list" where
  "remove_strs val limit from_tail xs =
     (if limit = 0 then filter (\<lambda>x. x \<noteq> val) xs
      else if from_tail then remove_last (\<lambda>x. x = val) limit xs else remove_first (\<lambda>x. x = val) limit xs)"

lemma remove_first_map: "remove_first P n (map f xs) = map f (remove_first (\<lambda>x. P (f x)) n xs)"
proof (induction xs arbitrary: n)
  case (Cons x xs)
  then show ?case by (cases n) auto
qed simp

lemma snode_DeleteMatching:
  assumes "snode lp xs"
  shows "\<exists>lp'. ListPack_DeleteMatching lp val limit from_tail =
      Inr (length xs - length (remove_strs val limit from_tail xs), lp') \<and> snode lp' (remove_strs val limit from_tail xs)"
proof -
  have "remove_matching val limit from_tail (map entry_of xs) = map entry_of (remove_strs val limit from_tail xs)"
    by (simp add: remove_matching_def remove_strs_def remove_last_def remove_first_map filter_map comp_def rev_map)
  then show ?thesis using repr_DeleteMatching [of lp "map entry_of xs" val limit from_tail] assms
    by (simp add: snode_def)
qed

lemma visit_append:
  assumes "snode lp xs" "\<forall>y\<in>set ys. length y < 2 ^ 31" "nbytes (xs @ ys) \<le> UINT32_MAX"
  shows "\<exists>lp'. visit append_visitor ys (Inr lp) = (True, Inr lp') \<and> snode lp' (xs @ ys)"
  using assms
proof (induction ys arbitrary: lp xs)
  case (Cons y ys)
  have "nbytes (xs @ [y]) \<le> UINT32_MAX"
    using Cons.prems(3) nbytes_append [of "xs @ [y]" ys] nbytes_pos [of ys] by simp
  then obtain lp' where lp': "ListPack_Append lp y = Inr (True, lp')" "snode lp' (xs @ [y])"
    using snode_Append [OF Cons.prems(1)] Cons.prems(2) by auto
  then show ?case using Cons.IH [OF lp'(2)] Cons.prems(2,3) by (simp add: append_visitor_def)
qed simp

section \<open>The list a quicklist stands for\<close>

definition qnode_ok :: "nat \<Rightarrow> string list \<Rightarrow> bool" where
  "qnode_ok m xs \<longleftrightarrow> xs \<noteq> [] \<and> (nbytes xs \<le> m \<or> length xs = 1) \<and> (\<forall>x\<in>set xs. length x < 2 ^ 30)"

definition ql_rep :: "nat \<Rightarrow> quicklist \<Rightarrow> string list list \<Rightarrow> bool" where
  "ql_rep m q xss \<longleftrightarrow> list_all2 snode (ql_nodes q) xss \<and> ql_node_count q = length xss \<and>
     ql_size q = length (concat xss) \<and> ql_node_max_bytes q = m \<and> 7 \<le> m \<and> m \<le> 2 ^ 30"

definition ql_ok :: "nat \<Rightarrow> quicklist \<Rightarrow> string list list \<Rightarrow> bool" where
  "ql_ok m q xss \<longleftrightarrow> ql_rep m q xss \<and> (\<forall>xs\<in>set xss. qnode_ok m xs)"

definition ql_holds :: "nat \<Rightarrow> quicklist \<Rightarrow> string list \<Rightarrow> bool" where
  "ql_holds m q xs \<longleftrightarrow> (\<exists>xss. ql_ok m q xss \<and> xs = concat xss)"

lemma node_bytes_bound: "qnode_ok m xs \<Longrightarrow> m \<le> 2 ^ 30 \<Longrightarrow> nbytes xs \<le> 2 ^ 30 + 16"
proof -
  assume *: "qnode_ok m xs" "m \<le> 2 ^ 30"
  then consider "nbytes xs \<le> m" | x where "xs = [x]" "length x < 2 ^ 30"
    by (auto simp: qnode_ok_def length_Suc_conv)
  then show ?thesis
  proof cases
    case 1
    then show ?thesis using *(2) by simp
  next
    case 2
    then show ?thesis using length_enc_entry_of [of x] by simp
  qed
qed

lemma ql_rep_length: "ql_rep m q xss \<Longrightarrow> length (ql_nodes q) = length xss"
  by (auto simp: ql_rep_def dest: list_all2_lengthD)

lemma ql_rep_node:
  assumes "ql_rep m q xss" "i < length xss"
  obtains lp where "node_at q i = Inr lp" "snode lp (xss ! i)"
  using assms list_all2_nthD2 [of snode "ql_nodes q" xss i] ql_rep_length [OF assms(1)]
  by (auto simp: node_at_def ql_rep_def)

lemma ql_rep_set_node:
  assumes "ql_rep m q xss" "i < length xss" "snode lp xs"
  shows "ql_rep m ((set_node q i lp)\<lparr>ql_size := length (concat (xss[i := xs]))\<rparr>) (xss[i := xs])"
  using assms by (auto simp: ql_rep_def set_node_def intro: list_all2_update_cong)

lemma ql_rep_delete:
  assumes "ql_rep m q xss" "i < length xss"
  shows "ql_rep m ((QuickList_DeleteNode q (Some i))\<lparr>ql_size := length (concat (take i xss @ drop (Suc i) xss))\<rparr>)
    (take i xss @ drop (Suc i) xss)"
  using assms by (auto simp: ql_rep_def QuickList_DeleteNode_def intro!: list_all2_appendI)

lemma concat_update: "i < length xss \<Longrightarrow> concat (xss[i := ys]) = concat (take i xss) @ ys @ concat (drop (Suc i) xss)"
  by (simp add: upd_conv_take_nth_drop)

lemma concat_nth: "i < length xss \<Longrightarrow> concat xss = concat (take i xss) @ xss ! i @ concat (drop (Suc i) xss)"
  by (metis concat.simps(2) concat_append id_take_nth_drop)

lemma size_update_same: "ql_size q = n \<Longrightarrow> q\<lparr>ql_size := n\<rparr> = q"
  by (cases q) simp


section \<open>Merging\<close>

lemma CanMergeNodes_ok:
  assumes "ql_ok m q xss" "l < length xss" "r < length xss"
  shows "CanMergeNodes q (Some l) (Some r) = Inr (nbytes (xss ! l @ xss ! r) \<le> m)"
proof -
  have rep: "ql_rep m q xss" "m \<le> 2 ^ 30" "ql_node_max_bytes q = m" using assms(1) by (simp_all add: ql_ok_def ql_rep_def)
  obtain lp where lp: "node_at q l = Inr lp" "snode lp (xss ! l)" using ql_rep_node [OF rep(1) assms(2)] .
  obtain rp where rp: "node_at q r = Inr rp" "snode rp (xss ! r)" using ql_rep_node [OF rep(1) assms(3)] .
  have "nbytes (xss ! l) \<le> 2 ^ 30 + 16" "nbytes (xss ! r) \<le> 2 ^ 30 + 16"
    using node_bytes_bound [OF _ rep(2)] assms by (simp_all add: ql_ok_def)
  then have "nbytes (xss ! l) + nbytes (xss ! r) + 2 ^ 32 - 7 = nbytes (xss ! l @ xss ! r) + 2 ^ 32"
    "nbytes (xss ! l @ xss ! r) < 2 ^ 32" using nbytes_append [of "xss ! l" "xss ! r"] by simp_all
  then have "(nbytes (xss ! l) + nbytes (xss ! r) + 2 ^ 32 - 7) mod 2 ^ 32 = nbytes (xss ! l @ xss ! r)"
    by (metis mod_add_self2 mod_less)
  then show ?thesis using lp rp rep(3) by (simp add: CanMergeNodes_def Let_def)
qed

lemma CanMergeNext_ok:
  assumes "ql_ok m q xss" "i < length xss"
  shows "CanMergeNodes q (Some i) (next_ptr q i) =
    Inr (Suc i < length xss \<and> nbytes (xss ! i @ xss ! Suc i) \<le> m)"
  using CanMergeNodes_ok [OF assms, of "Suc i"] ql_rep_length [of m q xss] assms(1)
  by (auto simp: next_ptr_def ql_ok_def CanMergeNodes_def)

lemma CanMergePrev_ok:
  assumes "ql_ok m q xss" "i < length xss"
  shows "CanMergeNodes q (prev_ptr i) (Some i) = Inr (0 < i \<and> nbytes (xss ! (i - 1) @ xss ! i) \<le> m)"
  using CanMergeNodes_ok [OF assms(1) _ assms(2), of "i - 1"] assms(2)
  by (auto simp: prev_ptr_def CanMergeNodes_def)

lemma MergeNext_None [simp]: "MergeNext q None = Inr q"
  by (simp add: MergeNext_def CanMergeNodes_def)

lemma merged_nodes:
  assumes "ql_ok m q xss" "Suc i < length xss" "nbytes (xss ! i @ xss ! Suc i) \<le> m" "snode lp (xss ! i @ xss ! Suc i)"
  shows "ql_ok m (QuickList_DeleteNode (set_node q i lp) (Some (Suc i))) (take i xss @ (xss ! i @ xss ! Suc i) # drop (i + 2) xss)"
    "concat (take i xss @ (xss ! i @ xss ! Suc i) # drop (i + 2) xss) = concat xss"
proof -
  let ?ys = "xss ! i @ xss ! Suc i" and ?xss = "take i xss @ (xss ! i @ xss ! Suc i) # drop (i + 2) xss"
  have xss: "xss = take i xss @ xss ! i # xss ! Suc i # drop (i + 2) xss"
    using assms(2) by (metis Cons_nth_drop_Suc Suc_lessD add_2_eq_Suc' append_take_drop_id)
  show c: "concat ?xss = concat xss" by (subst (4) xss) simp
  have rep: "ql_rep m q xss" "\<forall>xs\<in>set xss. qnode_ok m xs" using assms(1) by (simp_all add: ql_ok_def)
  have "list_all2 snode ((ql_nodes q)[i := lp]) (xss[i := ?ys])"
    using rep(1) assms(2,4) by (auto simp: ql_rep_def intro: list_all2_update_cong)
  then have "list_all2 snode (take (Suc i) ((ql_nodes q)[i := lp]) @ drop (Suc (Suc i)) ((ql_nodes q)[i := lp]))
      (take (Suc i) (xss[i := ?ys]) @ drop (Suc (Suc i)) (xss[i := ?ys]))"
    by (intro list_all2_appendI list_all2_takeI list_all2_dropI)
  moreover have "take (Suc i) (xss[i := ?ys]) @ drop (Suc (Suc i)) (xss[i := ?ys]) = ?xss"
    using assms(2) by (simp add: take_Suc_conv_app_nth)
  ultimately have "list_all2 snode (ql_nodes (QuickList_DeleteNode (set_node q i lp) (Some (Suc i)))) ?xss"
    by (simp add: QuickList_DeleteNode_def set_node_def)
  moreover have "length ?xss = length xss - 1" using assms(2) by simp
  ultimately have "ql_rep m (QuickList_DeleteNode (set_node q i lp) (Some (Suc i))) ?xss"
    using rep(1) c unfolding ql_rep_def by (simp add: QuickList_DeleteNode_def set_node_def)
  moreover have "qnode_ok m (xss ! i)" "qnode_ok m (xss ! Suc i)" using rep(2) assms(2) by simp_all
  then have "qnode_ok m ?ys" using assms(3) by (auto simp: qnode_ok_def)
  then have "\<forall>xs\<in>set ?xss. qnode_ok m xs" using rep(2) by (auto dest: in_set_takeD in_set_dropD)
  ultimately show "ql_ok m (QuickList_DeleteNode (set_node q i lp) (Some (Suc i))) ?xss" by (simp add: ql_ok_def)
qed

lemma MergeNext_ok:
  assumes "ql_ok m q xss" "i < length xss"
  shows "\<exists>q' xss'. MergeNext q (Some i) = Inr q' \<and> ql_ok m q' xss' \<and> concat xss' = concat xss \<and>
    (if Suc i < length xss \<and> nbytes (xss ! i @ xss ! Suc i) \<le> m then length xss = Suc (length xss')
     else q' = q \<and> xss' = xss)"
proof (cases "Suc i < length xss \<and> nbytes (xss ! i @ xss ! Suc i) \<le> m")
  case False
  then show ?thesis using assms CanMergeNext_ok [OF assms] by (simp add: MergeNext_def)
next
  case True
  have rep: "ql_rep m q xss" "\<forall>xs\<in>set xss. qnode_ok m xs" "m \<le> 2 ^ 30"
    using assms(1) by (simp_all add: ql_ok_def ql_rep_def)
  obtain lp where lp: "node_at q i = Inr lp" "snode lp (xss ! i)" using ql_rep_node [OF rep(1) assms(2)] .
  obtain rp where rp: "node_at q (Suc i) = Inr rp" "snode rp (xss ! Suc i)"
    using ql_rep_node [OF rep(1), of "Suc i"] True by blast
  have r: "qnode_ok m (xss ! Suc i)" using rep(2) True by simp
  then have small: "\<forall>y\<in>set (xss ! Suc i). length y < 2 ^ 31" "xss ! Suc i \<noteq> []" by (auto simp: qnode_ok_def)
  have "nbytes (xss ! i @ xss ! Suc i) \<le> UINT32_MAX" using True rep(3) by simp
  then obtain lp' where lp': "visit append_visitor (xss ! Suc i) (Inr lp) = (True, Inr lp')" "snode lp' (xss ! i @ xss ! Suc i)"
    using visit_append [OF lp(2) small(1)] by blast
  have "ListPack_ForEach rp 0 (length (xss ! Suc i) - 1) append_visitor (Inr lp) = Inr (True, Inr lp')"
    using snode_ForEach [OF rp(2), of 0 "length (xss ! Suc i) - 1" append_visitor "Inr lp"] lp'(1) small(2) by simp
  then have "MergeNext q (Some i) = Inr (QuickList_DeleteNode (set_node q i lp') (Some (Suc i)))"
    using CanMergeNext_ok [OF assms] True lp(1) rp small(2) by (simp add: MergeNext_def)
  then show ?thesis using merged_nodes [OF assms(1) _ _ lp'(2)] True
    by (intro exI [of _ "QuickList_DeleteNode (set_node q i lp') (Some (Suc i))"]
        exI [of _ "take i xss @ (xss ! i @ xss ! Suc i) # drop (i + 2) xss"]) auto
qed

lemma MergeWhile_ok:
  assumes "ql_ok m q xss" "i < length xss" "length xss \<le> n + Suc i"
  shows "\<exists>q' xss'. MergeWhile n q i = Inr q' \<and> ql_ok m q' xss' \<and> concat xss' = concat xss \<and>
    i < length xss' \<and> length xss' \<le> length xss"
  using assms
proof (induction n arbitrary: q xss)
  case 0
  then show ?case using CanMergeNext_ok [OF 0(1,2)] by auto
next
  case (Suc n)
  show ?case
  proof (cases "Suc i < length xss \<and> nbytes (xss ! i @ xss ! Suc i) \<le> m")
    case False
    then show ?thesis using Suc.prems CanMergeNext_ok [OF Suc.prems(1,2)] by auto
  next
    case True
    obtain q1 xss1 where q1: "MergeNext q (Some i) = Inr q1" "ql_ok m q1 xss1" "concat xss1 = concat xss"
      "length xss = Suc (length xss1)" using MergeNext_ok [OF Suc.prems(1,2)] True by auto
    then obtain q2 xss2 where "MergeWhile n q1 i = Inr q2" "ql_ok m q2 xss2" "concat xss2 = concat xss1"
      "i < length xss2" "length xss2 \<le> length xss1" using Suc.IH [OF q1(2)] Suc.prems(3) True by auto
    then show ?thesis using q1 True CanMergeNext_ok [OF Suc.prems(1,2)]
      by (intro exI [of _ q2] exI [of _ xss2]) simp
  qed
qed

lemma MergeAround_ok:
  assumes "ql_ok m q xss" "i < length xss"
  shows "\<exists>q'. MergeAround q (Some i) = Inr q' \<and> ql_holds m q' (concat xss)"
proof -
  have len: "length (ql_nodes q) = length xss" using assms(1) ql_rep_length by (auto simp: ql_ok_def)
  show ?thesis
  proof (cases "0 < i \<and> nbytes (xss ! (i - 1) @ xss ! i) \<le> m")
    case False
    obtain q' xss' where "MergeWhile (length xss) q i = Inr q'" "ql_ok m q' xss'" "concat xss' = concat xss"
      using MergeWhile_ok [OF assms, of "length xss"] by auto
    then show ?thesis using False CanMergePrev_ok [OF assms] len by (auto simp: MergeAround_def ql_holds_def)
  next
    case True
    then have "i - 1 < length xss" using assms(2) by simp
    then obtain q1 xss1 where q1: "MergeNext q (Some (i - 1)) = Inr q1" "ql_ok m q1 xss1" "concat xss1 = concat xss"
      "length xss = Suc (length xss1)" using MergeNext_ok [OF assms(1), of "i - 1"] True assms(2) by auto
    have l1: "length (ql_nodes q1) = length xss1" using q1(2) ql_rep_length by (auto simp: ql_ok_def)
    have "i - 1 < length xss1" using q1(4) assms(2) True by linarith
    then obtain q' xss' where "MergeWhile (length xss1) q1 (i - 1) = Inr q'" "ql_ok m q' xss'" "concat xss' = concat xss1"
      using MergeWhile_ok [OF q1(2), of "i - 1" "length xss1"] by auto
    then show ?thesis using True CanMergePrev_ok [OF assms] q1(1,3) l1
      by (auto simp: MergeAround_def ql_holds_def prev_ptr_def)
  qed
qed

lemma MergeAll_loop_ok:
  assumes "ql_ok m q xss" "length xss \<le> n + i"
  shows "\<exists>q'. MergeAll_loop n q i = Inr q' \<and> ql_holds m q' (concat xss)"
  using assms
proof (induction n arbitrary: q xss i)
  case 0
  then show ?case using ql_rep_length [of m q xss] by (auto simp: ql_ok_def ql_holds_def)
next
  case (Suc n)
  have len: "length (ql_nodes q) = length xss" using Suc.prems(1) ql_rep_length by (auto simp: ql_ok_def)
  show ?case
  proof (cases "i < length xss")
    case False
    then show ?thesis using len Suc.prems(1) by (auto simp: ql_holds_def)
  next
    case True
    obtain q1 xss1 where q1: "MergeWhile (length xss) q i = Inr q1" "ql_ok m q1 xss1" "concat xss1 = concat xss"
      "length xss1 \<le> length xss" using MergeWhile_ok [OF Suc.prems(1) True, of "length xss"] by auto
    then show ?thesis using Suc.IH [OF q1(2), of "i + 1"] Suc.prems(2) True len by simp
  qed
qed

lemma MergeAll_ok:
  assumes "ql_ok m q xss"
  shows "\<exists>q'. MergeAll q = Inr q' \<and> ql_holds m q' (concat xss)"
  using MergeAll_loop_ok [OF assms, of "length xss" 0] assms ql_rep_length [of m q xss]
  by (simp add: MergeAll_def ql_ok_def)


section \<open>The ends of the list\<close>

lemma MergeNext_holds:
  assumes "ql_ok m q xss" "\<And>i. p = Some i \<Longrightarrow> i < length xss"
  shows "\<exists>q'. MergeNext q p = Inr q' \<and> ql_holds m q' (concat xss)"
proof (cases p)
  case None
  then show ?thesis using assms(1) by (auto simp: ql_holds_def)
next
  case (Some i)
  then show ?thesis using MergeNext_ok [OF assms(1) assms(2) [OF Some]] unfolding ql_holds_def by metis
qed

lemma qnode_ok_shrink:
  assumes "qnode_ok m ys" "zs \<noteq> []" "nbytes zs \<le> nbytes ys" "length zs \<le> length ys" "set zs \<subseteq> set ys"
  shows "qnode_ok m zs"
  using assms by (cases zs) (auto simp: qnode_ok_def)

lemma nbytes_single: "length v < 2 ^ 30 \<Longrightarrow> nbytes [v] \<le> UINT32_MAX"
  using length_enc_entry_of [of v] by simp

lemma CanAppendToNode_ok:
  assumes "ql_ok m q xss" "i < length xss" "length v < 2 ^ 30"
  shows "CanAppendToNode q (Some i) v = Inr (nbytes (v # xss ! i) \<le> m)"
proof -
  have rep: "ql_rep m q xss" "ql_node_max_bytes q = m" using assms(1) by (simp_all add: ql_ok_def ql_rep_def)
  obtain lp where lp: "node_at q i = Inr lp" "snode lp (xss ! i)" using ql_rep_node [OF rep(1) assms(2)] .
  have "xss ! i \<noteq> []" using assms(1,2) by (simp add: ql_ok_def qnode_ok_def)
  moreover have "ListPack_EstimateEntryBytes v = length (enc (entry_of v))" using EstimateEntryBytes_exact assms(3) by simp
  ultimately show ?thesis using lp rep(2) by (auto simp: CanAppendToNode_def Let_def)
qed

lemma ql_ok_Cons:
  "ql_ok m q (ys # yss) \<longleftrightarrow> (\<exists>lp lps. ql_nodes q = lp # lps \<and> snode lp ys \<and> qnode_ok m ys \<and>
     ql_size q = length ys + length (concat yss) \<and> ql_node_count q = Suc (length yss) \<and>
     ql_ok m (q\<lparr>ql_nodes := lps, ql_size := length (concat yss), ql_node_count := length yss\<rparr>) yss)"
  by (auto simp: ql_ok_def ql_rep_def list_all2_Cons2)

lemma ql_ok_snoc:
  "ql_ok m q (yss @ [ys]) \<longleftrightarrow> (\<exists>lp lps. ql_nodes q = lps @ [lp] \<and> snode lp ys \<and> qnode_ok m ys \<and>
     ql_size q = length (concat yss) + length ys \<and> ql_node_count q = Suc (length yss) \<and>
     ql_ok m (q\<lparr>ql_nodes := lps, ql_size := length (concat yss), ql_node_count := length yss\<rparr>) yss)"
proof
  assume "ql_ok m q (yss @ [ys])"
  then show "\<exists>lp lps. ql_nodes q = lps @ [lp] \<and> snode lp ys \<and> qnode_ok m ys \<and>
     ql_size q = length (concat yss) + length ys \<and> ql_node_count q = Suc (length yss) \<and>
     ql_ok m (q\<lparr>ql_nodes := lps, ql_size := length (concat yss), ql_node_count := length yss\<rparr>) yss"
    by (auto simp: ql_ok_def ql_rep_def list_all2_append2 list_all2_Cons2)
qed (auto simp: ql_ok_def ql_rep_def intro!: list_all2_appendI)

lemma push_head:
  assumes "ql_nodes q = lp # lps" "snode lp ys" "length v < 2 ^ 30" "nbytes (v # ys) \<le> UINT32_MAX"
  shows "\<exists>lp'. PushToHeadNode q v = Inr (True, q\<lparr>ql_nodes := lp' # lps\<rparr>) \<and> snode lp' (v # ys)"
proof -
  have "length v < 2 ^ 31" using assms(3) by simp
  then show ?thesis using snode_Prepend [OF assms(2) _ assms(4)] assms(1)
    by (auto simp: PushToHeadNode_def head_ptr_def node_at_def set_node_def)
qed

lemma push_tail:
  assumes "ql_nodes q = lps @ [lp]" "snode lp ys" "length v < 2 ^ 30" "nbytes (ys @ [v]) \<le> UINT32_MAX"
  shows "\<exists>lp'. PushToTailNode q v = Inr (True, q\<lparr>ql_nodes := lps @ [lp']\<rparr>) \<and> snode lp' (ys @ [v])"
proof -
  have "length v < 2 ^ 31" using assms(3) by simp
  then show ?thesis using snode_Append [OF assms(2) _ assms(4)] assms(1)
    by (auto simp: PushToTailNode_def tail_ptr_def node_at_def set_node_def)
qed

lemma nbytes_rotate: "nbytes (ys @ [v]) = nbytes (v # ys)"
  using nbytes_append [of ys "[v]"] by simp

lemma LPush_new:
  assumes "ql_ok m q xss" "length v < 2 ^ 30" "CanAppendToNode q (head_ptr q) v = Inr False"
  shows "\<exists>q'. QuickList_LPush q v = Inr (True, q') \<and> ql_ok m q' ([v] # xss)"
proof -
  obtain lp where lp: "ListPack_new = Inr lp" "snode lp []" using snode_new by blast
  let ?q = "q\<lparr>ql_nodes := lp # ql_nodes q, ql_node_count := ql_node_count q + 1\<rparr>"
  have p: "PrependNode q = Inr ?q" unfolding PrependNode_def by (subst lp(1)) simp
  obtain lp' where lp': "PushToHeadNode ?q v = Inr (True, ?q\<lparr>ql_nodes := lp' # ql_nodes q\<rparr>)" "snode lp' [v]"
    using push_head [of ?q lp "ql_nodes q" "[]" v] lp(2) assms(2) nbytes_single [OF assms(2)] by auto
  have "qnode_ok m [v]" using assms(2) by (simp add: qnode_ok_def)
  then show ?thesis using assms(1,3) p lp' by (simp add: QuickList_LPush_def ql_ok_def ql_rep_def)
qed

lemma RPush_new:
  assumes "ql_ok m q xss" "length v < 2 ^ 30" "CanAppendToNode q (tail_ptr q) v = Inr False"
  shows "\<exists>q'. QuickList_RPush q v = Inr (True, q') \<and> ql_ok m q' (xss @ [[v]])"
proof -
  obtain lp where lp: "ListPack_new = Inr lp" "snode lp []" using snode_new by blast
  let ?q = "q\<lparr>ql_nodes := ql_nodes q @ [lp], ql_node_count := ql_node_count q + 1\<rparr>"
  have p: "AppendNode q = Inr ?q" unfolding AppendNode_def by (subst lp(1)) simp
  obtain lp' where lp': "PushToTailNode ?q v = Inr (True, ?q\<lparr>ql_nodes := ql_nodes q @ [lp']\<rparr>)" "snode lp' [v]"
    using push_tail [of ?q "ql_nodes q" lp "[]" v] lp(2) assms(2) nbytes_single [OF assms(2)] by auto
  have "qnode_ok m [v]" using assms(2) by (simp add: qnode_ok_def)
  then show ?thesis using assms(1,3) p lp'
    by (auto simp: QuickList_RPush_def ql_ok_def ql_rep_def intro!: list_all2_appendI)
qed

lemma LPush_holds:
  assumes "ql_holds m q xs" "length v < 2 ^ 30"
  shows "\<exists>q'. QuickList_LPush q v = Inr (True, q') \<and> ql_holds m q' (v # xs)"
proof -
  obtain xss where xss: "ql_ok m q xss" "xs = concat xss" using assms(1) by (auto simp: ql_holds_def)
  have "\<exists>q' xss'. QuickList_LPush q v = Inr (True, q') \<and> ql_ok m q' xss' \<and> concat xss' = v # xs"
  proof (cases xss)
    case Nil
    then have "CanAppendToNode q (head_ptr q) v = Inr False"
      using xss(1) by (simp add: ql_ok_def ql_rep_def head_ptr_def CanAppendToNode_def)
    then show ?thesis using LPush_new [OF xss(1) assms(2)] xss(2) by fastforce
  next
    case (Cons ys yss)
    then obtain lp lps where n: "ql_nodes q = lp # lps" "snode lp ys" "qnode_ok m ys"
      using xss(1) by (auto simp: ql_ok_Cons)
    have c: "CanAppendToNode q (head_ptr q) v = Inr (nbytes (v # ys) \<le> m)"
      using CanAppendToNode_ok [OF xss(1) _ assms(2), of 0] Cons n(1) by (simp add: head_ptr_def)
    show ?thesis
    proof (cases "nbytes (v # ys) \<le> m")
      case False
      then show ?thesis using LPush_new [OF xss(1) assms(2)] c xss(2) by fastforce
    next
      case True
      moreover have "m \<le> 2 ^ 30" using xss(1) by (simp add: ql_ok_def ql_rep_def)
      ultimately have "nbytes (v # ys) \<le> UINT32_MAX" by simp
      then obtain lp' where lp': "PushToHeadNode q v = Inr (True, q\<lparr>ql_nodes := lp' # lps\<rparr>)" "snode lp' (v # ys)"
        using push_head [OF n(1,2) assms(2)] by blast
      have "qnode_ok m (v # ys)" using True n(3) assms(2) by (simp add: qnode_ok_def)
      then have "ql_ok m (q\<lparr>ql_nodes := lp' # lps, ql_size := ql_size q + 1\<rparr>) ((v # ys) # yss)"
        using xss(1) Cons n(1) lp'(2) by (auto simp: ql_ok_Cons)
      then show ?thesis using True c lp'(1) xss(2) Cons by (fastforce simp: QuickList_LPush_def)
    qed
  qed
  then show ?thesis unfolding ql_holds_def by metis
qed

lemma RPush_holds:
  assumes "ql_holds m q xs" "length v < 2 ^ 30"
  shows "\<exists>q'. QuickList_RPush q v = Inr (True, q') \<and> ql_holds m q' (xs @ [v])"
proof -
  obtain xss where xss: "ql_ok m q xss" "xs = concat xss" using assms(1) by (auto simp: ql_holds_def)
  have "\<exists>q' xss'. QuickList_RPush q v = Inr (True, q') \<and> ql_ok m q' xss' \<and> concat xss' = xs @ [v]"
  proof (cases xss rule: rev_cases)
    case Nil
    then have "CanAppendToNode q (tail_ptr q) v = Inr False"
      using xss(1) by (simp add: ql_ok_def ql_rep_def tail_ptr_def CanAppendToNode_def)
    then show ?thesis using RPush_new [OF xss(1) assms(2)] xss(2) by fastforce
  next
    case (snoc yss ys)
    then obtain lp lps where n: "ql_nodes q = lps @ [lp]" "snode lp ys" "qnode_ok m ys"
      using xss(1) by (auto simp: ql_ok_snoc)
    have "length (ql_nodes q) = length xss" using xss(1) ql_rep_length by (auto simp: ql_ok_def)
    then have c: "CanAppendToNode q (tail_ptr q) v = Inr (nbytes (v # ys) \<le> m)"
      using CanAppendToNode_ok [OF xss(1) _ assms(2), of "length yss"] snoc n(1) by (simp add: tail_ptr_def nth_append)
    show ?thesis
    proof (cases "nbytes (v # ys) \<le> m")
      case False
      then show ?thesis using RPush_new [OF xss(1) assms(2)] c xss(2) by fastforce
    next
      case True
      moreover have "m \<le> 2 ^ 30" using xss(1) by (simp add: ql_ok_def ql_rep_def)
      ultimately have "nbytes (ys @ [v]) \<le> UINT32_MAX" by (simp add: nbytes_rotate)
      then obtain lp' where lp': "PushToTailNode q v = Inr (True, q\<lparr>ql_nodes := lps @ [lp']\<rparr>)" "snode lp' (ys @ [v])"
        using push_tail [OF n(1,2) assms(2)] by blast
      have "qnode_ok m (ys @ [v])" using True n(3) assms(2) by (auto simp: qnode_ok_def nbytes_rotate)
      then have "ql_ok m (q\<lparr>ql_nodes := lps @ [lp'], ql_size := ql_size q + 1\<rparr>) (yss @ [ys @ [v]])"
        using xss(1) snoc n(1) lp'(2) by (auto simp: ql_ok_snoc)
      then show ?thesis using True c lp'(1) xss(2) snoc by (fastforce simp: QuickList_RPush_def)
    qed
  qed
  then show ?thesis unfolding ql_holds_def by metis
qed

lemma LPop_holds:
  assumes "ql_holds m q xs"
  shows "\<exists>q'. QuickList_LPop q = Inr (if xs = [] then None else Some (hd xs), q') \<and> ql_holds m q' (tl xs)"
proof -
  obtain xss where xss: "ql_ok m q xss" "xs = concat xss" using assms(1) by (auto simp: ql_holds_def)
  show ?thesis
  proof (cases xss)
    case Nil
    then have "QuickList_LPop q = Inr (None, q)" using xss(1)
      by (simp add: ql_ok_def ql_rep_def QuickList_LPop_def head_ptr_def)
    then show ?thesis using assms xss(2) Nil by simp
  next
    case (Cons ys yss)
    obtain lp lps where n: "ql_nodes q = lp # lps" "snode lp ys" "qnode_ok m ys"
      "ql_ok m (q\<lparr>ql_nodes := lps, ql_size := length (concat yss), ql_node_count := length yss\<rparr>) yss"
      "ql_size q = length ys + length (concat yss)" "ql_node_count q = Suc (length yss)"
      using xss(1) unfolding Cons ql_ok_Cons by blast
    obtain y ys' where ys: "ys = y # ys'" using n(3) by (cases ys) (auto simp: qnode_ok_def)
    obtain lp' where lp': "ListPack_Delete lp (lp_off (map entry_of ys) 0) = Inr lp'" "snode lp' ys'"
      using snode_Delete [OF n(2), of 0] ys by auto
    define q1 where "q1 = (let q1 = (set_node q 0 lp')\<lparr>ql_size := ql_size q - 1\<rparr>
      in if length ys' = 0 then QuickList_DeleteNode q1 (Some 0) else q1)"
    define xss1 where "xss1 = (if ys' = [] then yss else ys' # yss)"
    have "ql_ok m q1 xss1"
    proof (cases "ys' = []")
      case True
      then have "q1 = q\<lparr>ql_nodes := lps, ql_size := length (concat yss), ql_node_count := length yss\<rparr>"
        using n(1,5,6) ys by (simp add: q1_def set_node_def QuickList_DeleteNode_def)
      then show ?thesis using True n(4) by (simp add: xss1_def)
    next
      case False
      have "qnode_ok m ys'" by (rule qnode_ok_shrink [OF n(3) False]) (auto simp: ys)
      then show ?thesis using False n ys lp'(2)
        by (simp add: xss1_def q1_def set_node_def ql_ok_Cons)
    qed
    moreover have "i < length xss1" if "head_ptr q1 = Some i" for i
      using that ql_rep_length [of m q1 xss1] calculation by (auto simp: head_ptr_def ql_ok_def split: if_splits)
    ultimately obtain q' where q': "MergeNext q1 (head_ptr q1) = Inr q'" "ql_holds m q' (concat xss1)"
      using MergeNext_holds by blast
    have "QuickList_LPop q = Inr (Some y, q')"
      using n(1) snode_First [OF n(2)] snode_Get [OF n(2), of 0] lp' q'(1) ys
      by (simp add: QuickList_LPop_def head_ptr_def [of q] node_at_def Let_def q1_def split: if_splits)
    then show ?thesis using q'(2) xss(2) Cons ys by (simp add: xss1_def split: if_splits)
  qed
qed

lemma RPop_holds:
  assumes "ql_holds m q xs"
  shows "\<exists>q'. QuickList_RPop q = Inr (if xs = [] then None else Some (last xs), q') \<and> ql_holds m q' (butlast xs)"
proof -
  obtain xss where xss: "ql_ok m q xss" "xs = concat xss" using assms(1) by (auto simp: ql_holds_def)
  show ?thesis
  proof (cases xss rule: rev_cases)
    case Nil
    then have "QuickList_RPop q = Inr (None, q)" using xss(1)
      by (simp add: ql_ok_def ql_rep_def QuickList_RPop_def tail_ptr_def)
    then show ?thesis using assms xss(2) Nil by simp
  next
    case (snoc yss ys)
    obtain lp lps where n: "ql_nodes q = lps @ [lp]" "snode lp ys" "qnode_ok m ys"
      "ql_ok m (q\<lparr>ql_nodes := lps, ql_size := length (concat yss), ql_node_count := length yss\<rparr>) yss"
      "ql_size q = length (concat yss) + length ys" "ql_node_count q = Suc (length yss)"
      using xss(1) unfolding snoc ql_ok_snoc by blast
    have len: "length lps = length yss" using n(4) ql_rep_length by (fastforce simp: ql_ok_def)
    obtain y ys' where ys: "ys = ys' @ [y]" using n(3) by (cases ys rule: rev_cases) (auto simp: qnode_ok_def)
    obtain lp' where lp': "ListPack_Delete lp (lp_off (map entry_of ys) (length ys')) = Inr lp'" "snode lp' ys'"
      using snode_Delete [OF n(2), of "length ys'"] ys by auto
    define q0 where "q0 = (set_node q (length lps) lp')\<lparr>ql_size := ql_size q - 1\<rparr>"
    have "\<exists>q'. (if length ys' = 0 then let q = QuickList_DeleteNode q0 (Some (length lps)) in
          MergeNext q (case tail_ptr q of None \<Rightarrow> None | Some t \<Rightarrow> prev_ptr t)
        else if prev_ptr (length lps) \<noteq> None then MergeNext q0 (prev_ptr (length lps)) else Inr q0) = Inr q' \<and>
      ql_holds m q' (concat yss @ ys')"
    proof (cases "ys' = []")
      case True
      let ?q = "q\<lparr>ql_nodes := lps, ql_size := length (concat yss), ql_node_count := length yss\<rparr>"
      have "QuickList_DeleteNode q0 (Some (length lps)) = ?q"
        using n(1,5,6) ys True by (simp add: q0_def set_node_def QuickList_DeleteNode_def)
      moreover have "\<exists>q'. MergeNext ?q (case tail_ptr ?q of None \<Rightarrow> None | Some t \<Rightarrow> prev_ptr t) = Inr q' \<and>
          ql_holds m q' (concat yss)"
        by (rule MergeNext_holds [OF n(4)]) (use len in \<open>auto simp: tail_ptr_def prev_ptr_def split: if_splits\<close>)
      ultimately show ?thesis using True by (simp add: Let_def)
    next
      case False
      have "qnode_ok m ys'" by (rule qnode_ok_shrink [OF n(3) False]) (auto simp: ys nbytes_rotate)
      moreover have "q0 = q\<lparr>ql_nodes := lps @ [lp'], ql_size := ql_size q - 1\<rparr>"
        using n(1) by (simp add: q0_def set_node_def)
      ultimately have ok: "ql_ok m q0 (yss @ [ys'])" using n(4,5,6) ys lp'(2) by (simp add: ql_ok_snoc)
      have "\<exists>q'. MergeNext q0 (prev_ptr (length lps)) = Inr q' \<and> ql_holds m q' (concat (yss @ [ys']))"
        by (rule MergeNext_holds [OF ok]) (use len in \<open>auto simp: prev_ptr_def split: if_splits\<close>)
      then show ?thesis using False ok by (auto simp: ql_holds_def)
    qed
    then obtain q' where q': "(if length ys' = 0 then let q = QuickList_DeleteNode q0 (Some (length lps)) in
          MergeNext q (case tail_ptr q of None \<Rightarrow> None | Some t \<Rightarrow> prev_ptr t)
        else if prev_ptr (length lps) \<noteq> None then MergeNext q0 (prev_ptr (length lps)) else Inr q0) = Inr q'"
      "ql_holds m q' (concat yss @ ys')" by blast
    have "tail_ptr q = Some (length lps)" "node_at q (length lps) = Inr lp"
      using n(1) by (simp_all add: tail_ptr_def node_at_def)
    then have "QuickList_RPop q = Inr (Some y, q')"
      using snode_Last [OF n(2)] snode_Get [OF n(2), of "length ys'"] lp' q'(1) [unfolded q0_def Let_def] ys
      unfolding QuickList_RPop_def Let_def by simp
    then show ?thesis using q'(2) xss(2) snoc ys by (simp add: butlast_append)
  qed
qed

section \<open>Traversals\<close>

lemma visit_append_list: "visit f (xs @ ys) s = (case visit f xs s of (go, s) \<Rightarrow> if go then visit f ys s else (False, s))"
  by (induction xs arbitrary: s) (auto split: prod.splits)

lemma ForEach_nodes:
  assumes "list_all2 snode lps xss" "index \<le> stop" "start \<le> stop"
  shows "QuickList_ForEach_loop lps index start stop f s =
    Inr (visit f (drop (start - index) (take (Suc stop - index) (concat xss))) s)"
  using assms
proof (induction lps xss arbitrary: index s rule: list_all2_induct)
  case (Cons lp lps ys yss)
  show ?case
  proof (cases "ys = []")
    case True
    then show ?thesis using Cons by simp
  next
    case False
    show ?thesis
    proof (cases "index + length ys \<le> start")
      case True
      then show ?thesis using Cons False by simp
    next
      case F: False
      have t: "take (Suc (min (stop - index) (length ys - 1))) ys = take (Suc stop - index) ys"
        using False Cons.prems(1) by (auto simp: min_def Suc_diff_le)
      let ?a = "drop (start - index) (take (Suc stop - index) ys)"
      obtain go s' where v: "visit f ?a s = (go, s')" by fastforce
      have "(if start > index then start - index else 0) = start - index" by simp
      then have lpv: "ListPack_ForEach lp (if start > index then start - index else 0)
          (min (stop - index) (length ys - 1)) f s = Inr (go, s')"
        using snode_ForEach [OF Cons.hyps(1), of "start - index" "min (stop - index) (length ys - 1)" f s] t v by simp
      have split: "drop (start - index) (take (Suc stop - index) (concat (ys # yss))) =
          ?a @ take (Suc stop - index - length ys) (concat yss)" using F Cons.prems by (auto simp: min_def)
      show ?thesis
      proof (cases "index + length ys > stop")
        case True
        then show ?thesis using F False Cons.hyps(1) lpv v split by (simp add: visit_append_list Let_def)
      next
        case go: False
        then show ?thesis using F False Cons.hyps(1) lpv v split Cons.IH [of "index + length ys" s'] Cons.prems(2)
          by (simp add: visit_append_list Let_def)
      qed
    qed
  qed
qed simp

lemma take_min: "start < length xs \<Longrightarrow> take (Suc (min stop (length xs - 1))) xs = take (Suc stop) xs"
  by (cases "Suc stop \<le> length xs") (auto simp: min_def)

lemma ForEach_holds:
  assumes "ql_holds m q xs"
  shows "QuickList_ForEach q start stop f s = Inr (visit f (drop start (take (Suc stop) xs)) s)"
proof -
  obtain xss where xss: "list_all2 snode (ql_nodes q) xss" "xs = concat xss" "ql_size q = length xs"
    using assms by (auto simp: ql_holds_def ql_ok_def ql_rep_def)
  show ?thesis
  proof (cases "start > stop \<or> start \<ge> length xs")
    case True
    then show ?thesis using xss(3) by (auto simp: QuickList_ForEach_def)
  next
    case False
    then have "start \<le> min stop (length xs - 1)" by linarith
    then show ?thesis using False ForEach_nodes [OF xss(1), of 0 "min stop (length xs - 1)" start f s] take_min [of start xs stop]
      by (simp add: QuickList_ForEach_def xss(3) xss(2) [symmetric])
  qed
qed

lemma ForEachReverse_nodes:
  assumes "list_all2 snode lps xss" "start \<le> stop"
  shows "QuickList_ForEachReverse_loop lps (length (concat (rev xss))) start stop f s =
    Inr (visit f (rev (drop start (take (Suc stop) (concat (rev xss))))) s)"
  using assms
proof (induction lps xss arbitrary: s rule: list_all2_induct)
  case (Cons lp lps ys yss)
  let ?n = "length (concat (rev yss))"
  show ?case
  proof (cases "ys = []")
    case True
    then show ?thesis using Cons by simp
  next
    case False
    consider "?n > stop" | "?n \<le> stop" "?n + length ys \<le> start" | "?n \<le> stop" "start < ?n + length ys" by linarith
    then show ?thesis
    proof cases
      case 1
      then show ?thesis using Cons False by simp
    next
      case 2
      then have "?n + length ys - 1 < start" using False by (cases ys) auto
      then show ?thesis using 2 Cons.hyps(1) False by (simp add: Let_def)
    next
      case 3
      define n where "n = ?n"
      have n: "length (concat (rev (ys # yss))) = n + length ys" "n \<le> stop" "start < n + length ys" "\<not> n + length ys - 1 < start"
        using 3 False by (auto simp: n_def)
      let ?a = "rev (drop (start - n) (take (Suc stop - n) ys))"
      have "take (Suc (min stop (n + length ys - 1) - n)) ys = take (Suc stop - n) ys"
        using False n(2) by (auto simp: min_def Suc_diff_le)
      then have lpv: "ListPack_ForEachReverse lp (start - n) (min stop (n + length ys - 1) - n) f s = Inr (visit f ?a s)"
        by (simp only: snode_ForEachReverse [OF Cons.hyps(1)])
      have loc: "(if start > n then start - n else 0) = start - n" by simp
      have eq: "QuickList_ForEachReverse_loop (lp # lps) (n + length ys) start stop f s =
          bindE (ListPack_ForEachReverse lp (start - n) (min stop (n + length ys - 1) - n) f s) (\<lambda>(go, s).
            if \<not> go then Inr (False, s) else QuickList_ForEachReverse_loop lps n start stop f s)"
        using n(2-4) False Cons.hyps(1) by (simp add: Let_def loc del: One_nat_def)
      have "rev (drop start (take (Suc stop) (concat (rev (ys # yss))))) =
          ?a @ rev (drop start (take (Suc stop) (concat (rev yss))))" using 3 by (simp add: n_def)
      then show ?thesis unfolding n(1) eq lpv using Cons.IH Cons.prems
        by (simp add: visit_append_list n_def case_prod_beta del: length_concat_rev)
    qed
  qed
qed simp

lemma ForEachReverse_holds:
  assumes "ql_holds m q xs"
  shows "QuickList_ForEachReverse q start stop f s = Inr (visit f (rev (drop start (take (Suc stop) xs))) s)"
proof -
  obtain xss where xss: "list_all2 snode (ql_nodes q) xss" "xs = concat xss" "ql_size q = length xs"
    using assms by (auto simp: ql_holds_def ql_ok_def ql_rep_def)
  have "list_all2 snode (rev (ql_nodes q)) (rev xss)" using xss(1) by simp
  note F = ForEachReverse_nodes [OF this, of start "min stop (length xs - 1)" f s]
  show ?thesis
  proof (cases "start > stop \<or> start \<ge> length xs")
    case True
    then show ?thesis using xss(3) by (auto simp: QuickList_ForEachReverse_def)
  next
    case False
    then have "start \<le> min stop (length xs - 1)" by linarith
    then show ?thesis using False F take_min [of start xs stop]
      by (simp add: QuickList_ForEachReverse_def xss(3) xss(2) [symmetric])
  qed
qed


section \<open>Positions\<close>

lemma take_Suc_concat: "i < length xss \<Longrightarrow> length (concat (take (Suc i) xss)) = length (concat (take i xss)) + length (xss ! i)"
  by (simp add: take_Suc_conv_app_nth)

lemma Locate_forward_ok:
  assumes "ql_rep m q xss" "index < length (concat xss)"
  shows "i + n = length xss \<Longrightarrow> length (concat (take i xss)) \<le> index \<Longrightarrow>
    \<exists>j k. Locate_forward n q i index (length (concat (take i xss))) = Inr (Some (j, k)) \<and>
      j < length xss \<and> k < length (xss ! j) \<and> index = length (concat (take j xss)) + k"
proof (induction n arbitrary: i)
  case 0
  then show ?case using assms(2) by simp
next
  case (Suc n)
  then have i: "i < length xss" by simp
  obtain lp where lp: "node_at q i = Inr lp" "snode lp (xss ! i)" using ql_rep_node [OF assms(1) i] .
  show ?case
  proof (cases "index - length (concat (take i xss)) < length (xss ! i)")
    case True
    then show ?thesis using lp i Suc.prems(2) by simp
  next
    case False
    then show ?thesis using lp Suc.IH [of "i + 1"] Suc.prems take_Suc_concat [OF i] by simp
  qed
qed

lemma Locate_backward_ok:
  assumes "ql_rep m q xss"
  shows "i \<le> length xss \<Longrightarrow> index < length (concat (take i xss)) \<Longrightarrow>
    \<exists>j k. Locate_backward i q index (length (concat (take i xss))) = Inr (Some (j, k)) \<and>
      j < length xss \<and> k < length (xss ! j) \<and> index = length (concat (take j xss)) + k"
proof (induction i)
  case (Suc i)
  then have i: "i < length xss" by simp
  obtain lp where lp: "node_at q i = Inr lp" "snode lp (xss ! i)" using ql_rep_node [OF assms i] .
  show ?case
  proof (cases "index \<ge> length (concat (take i xss))")
    case True
    then show ?thesis using lp i Suc.prems(2) take_Suc_concat [OF i]
      by (intro exI [of _ i] exI [of _ "index - length (concat (take i xss))"]) (auto simp: Let_def)
  next
    case False
    then show ?thesis using lp Suc.IH Suc.prems take_Suc_concat [OF i] by (simp add: Let_def)
  qed
qed simp

lemma Locate_ok:
  assumes "ql_rep m q xss" "index < length (concat xss)"
  shows "\<exists>j k. Locate q index = Inr (Some (j, k)) \<and>
    j < length xss \<and> k < length (xss ! j) \<and> index = length (concat (take j xss)) + k"
proof -
  have "ql_size q = length (concat xss)" "length (ql_nodes q) = length xss"
    using assms(1) ql_rep_length by (auto simp: ql_rep_def)
  then show ?thesis
    using Locate_forward_ok [OF assms, of 0 "length xss"] Locate_backward_ok [OF assms(1), of "length xss" index] assms(2)
    by (simp add: Locate_def)
qed

lemma SplitNode_ok:
  assumes "ql_rep m q xss" "i < length xss" "length (xss ! i) > 1" "\<forall>x\<in>set (xss ! i). length x < 2 ^ 30"
  defines "h \<equiv> length (xss ! i) div 2"
  shows "\<exists>q'. SplitNode q i = Inr (True, q') \<and>
    ql_rep m q' (take i xss @ take h (xss ! i) # drop h (xss ! i) # drop (Suc i) xss)"
proof -
  let ?ys = "xss ! i"
  have h: "h < length ?ys" "h \<le> length ?ys - 1" using assms(3) by (auto simp: h_def)
  obtain lp where lp: "node_at q i = Inr lp" "snode lp ?ys" using ql_rep_node [OF assms(1,2)] .
  obtain rp where rp: "ListPack_new = Inr rp" "snode rp []" using snode_new by blast
  have "nbytes ?ys \<le> UINT32_MAX" using repr_fits lp(2) unfolding snode_def lp_fits_def nbytes_def by blast
  moreover have "nbytes (drop h ?ys) \<le> nbytes ?ys" using nbytes_append [of "take h ?ys" "drop h ?ys"] nbytes_pos [of "take h ?ys"] by simp
  ultimately have "nbytes ([] @ drop h ?ys) \<le> UINT32_MAX" by simp
  moreover have "\<forall>y\<in>set (drop h ?ys). length y < 2 ^ 31" using assms(4) by (auto dest!: in_set_dropD)
  ultimately obtain rp' where rp': "visit append_visitor (drop h ?ys) (Inr rp) = (True, Inr rp')" "snode rp' (drop h ?ys)"
    using visit_append [OF rp(2)] by (metis append_Nil)
  have f: "ListPack_ForEach lp h (length ?ys - 1) append_visitor (Inr rp) = Inr (True, Inr rp')"
    using snode_ForEach [OF lp(2), of h "length ?ys - 1" append_visitor "Inr rp"] rp'(1) assms(3) by simp
  obtain lp' where lp': "ListPack_DeleteRange lp (lp_off (map entry_of ?ys) h) (length ?ys - h) = Inr (length ?ys - h, lp')"
    "snode lp' (take h ?ys)" using snode_DeleteRange [OF lp(2) h(1), of "length ?ys - h"] h by auto
  let ?q = "InsertNodeAfter (set_node q i lp') i rp'"
  have "SplitNode q i = Inr (True, ?q)"
    unfolding SplitNode_def lp(1) bindE_Inr snode_size [OF lp(2)] Let_def h_def [symmetric]
    by (subst rp(1)) (use f lp' snode_IndexAt [OF lp(2), of h] h assms(3) in simp)
  moreover have "ql_rep m ?q (take i xss @ take h ?ys # drop h ?ys # drop (Suc i) xss)"
  proof -
    have l: "list_all2 snode (ql_nodes q) xss" "length (ql_nodes q) = length xss"
      using assms(1) ql_rep_length by (auto simp: ql_rep_def)
    have "ql_nodes ?q = take i (ql_nodes q) @ lp' # rp' # drop (Suc i) (ql_nodes q)"
      using assms(2) l(2) by (simp add: InsertNodeAfter_def set_node_def take_Suc_conv_app_nth)
    then have "list_all2 snode (ql_nodes ?q) (take i xss @ take h ?ys # drop h ?ys # drop (Suc i) xss)"
      using l(1) lp'(2) rp'(2) by (auto intro!: list_all2_appendI)
    moreover have "concat (take i xss @ take h ?ys # drop h ?ys # drop (Suc i) xss) = concat xss"
      using concat_nth [OF assms(2)] by (simp flip: append_assoc)
    moreover have "length (take i xss @ take h ?ys # drop h ?ys # drop (Suc i) xss) = Suc (length xss)"
      using assms(2) by simp
    ultimately show ?thesis using assms(1) unfolding ql_rep_def by (simp add: InsertNodeAfter_def set_node_def)
  qed
  ultimately show ?thesis by blast
qed

text \<open>The iterations that are enough to split the nodes from a position on.\<close>

definition split_work :: "string list list \<Rightarrow> nat" where
  "split_work xss = sum_list (map (\<lambda>xs. 2 * length xs - 1) xss)"

lemma split_work_le: "split_work xss \<le> 2 * length (concat xss)"
  by (induction xss) (auto simp: split_work_def)

lemma Normalize_ok:
  assumes "ql_rep m q xss" "\<forall>xs\<in>set xss. xs \<noteq> [] \<and> (\<forall>x\<in>set xs. length x < 2 ^ 30)"
    "\<forall>xs\<in>set (take i xss). qnode_ok m xs" "i \<le> length xss" "split_work (drop i xss) \<le> n"
  shows "\<exists>q' xss'. NormalizeNodeSizesFrom n q i = Inr (True, q') \<and> ql_ok m q' xss' \<and>
    concat xss' = concat xss \<and> length xss \<le> length xss'"
  using assms
proof (induction n arbitrary: q xss i)
  case 0
  have "i = length xss"
  proof (rule ccontr)
    assume "i \<noteq> length xss"
    then have i: "i < length xss" using 0 by simp
    then have "split_work (drop i xss) \<ge> 2 * length (xss ! i) - 1" by (simp add: split_work_def flip: Cons_nth_drop_Suc)
    moreover have "xss ! i \<noteq> []" using 0(2) i by simp
    ultimately show False using 0(5) by (cases "xss ! i") auto
  qed
  then show ?case using 0 ql_rep_length [OF 0(1)] by (auto simp: ql_ok_def)
next
  case (Suc n)
  have len: "length (ql_nodes q) = length xss" "ql_node_max_bytes q = m"
    using ql_rep_length [OF Suc.prems(1)] Suc.prems(1) by (simp_all add: ql_rep_def)
  show ?case
  proof (cases "i = length xss")
    case True
    then show ?thesis using Suc.prems len by (auto simp: ql_ok_def)
  next
    case False
    then have i: "i < length xss" using Suc.prems(4) by simp
    let ?ys = "xss ! i"
    have ys: "?ys \<noteq> []" "\<forall>x\<in>set ?ys. length x < 2 ^ 30" using Suc.prems(2) nth_mem [OF i] by blast+
    have d: "drop i xss = ?ys # drop (Suc i) xss" using i by (simp add: Cons_nth_drop_Suc)
    obtain lp where lp: "node_at q i = Inr lp" "snode lp ?ys" using ql_rep_node [OF Suc.prems(1) i] .
    show ?thesis
    proof (cases "nbytes ?ys > m \<and> length ?ys > 1")
      case True
      define h where "h = length ?ys div 2"
      have h: "0 < h" "h < length ?ys" using True by (auto simp: h_def)
      let ?xss = "take i xss @ take h ?ys # drop h ?ys # drop (Suc i) xss"
      obtain q1 where q1: "SplitNode q i = Inr (True, q1)" "ql_rep m q1 ?xss"
        using SplitNode_ok [OF Suc.prems(1) i _ ys(2)] True by (auto simp: h_def)
      have c: "concat ?xss = concat xss" using concat_nth [OF i] by (simp flip: append_assoc)
      have a: "\<forall>xs\<in>set ?xss. xs \<noteq> [] \<and> (\<forall>x\<in>set xs. length x < 2 ^ 30)"
        using Suc.prems(2) ys(2) h by (auto dest: in_set_takeD in_set_dropD)
      have b: "\<forall>xs\<in>set (take i ?xss). qnode_ok m xs" "i \<le> length ?xss" using Suc.prems(3) i by simp_all
      have "split_work (drop i ?xss) \<le> n"
        using Suc.prems(5) h i unfolding d by (simp add: split_work_def)
      then obtain q' xss' where q': "NormalizeNodeSizesFrom n q1 i = Inr (True, q')" "ql_ok m q' xss'"
        "concat xss' = concat ?xss" "length ?xss \<le> length xss'"
        using Suc.IH [OF q1(2) a b] by blast
      then have "length xss \<le> length xss'" using i by simp
      then show ?thesis using True i lp q1(1) len c q'
        by (intro exI [of _ q'] exI [of _ xss']) simp
    next
      case no: False
      have "qnode_ok m ?ys" using no ys by (cases ?ys) (auto simp: qnode_ok_def not_less)
      then have "\<forall>xs\<in>set (take (i + 1) xss). qnode_ok m xs" using Suc.prems(3) i by (simp add: take_Suc_conv_app_nth)
      moreover have "split_work (drop (i + 1) xss) \<le> n"
        using Suc.prems(5) ys(1) unfolding d by (cases ?ys) (auto simp: split_work_def)
      ultimately obtain q' xss' where "NormalizeNodeSizesFrom n q (i + 1) = Inr (True, q')" "ql_ok m q' xss'"
        "concat xss' = concat xss" "length xss \<le> length xss'"
        using Suc.IH [OF Suc.prems(1,2), of "i + 1"] i by auto
      then show ?thesis using no i lp len by (intro exI [of _ q'] exI [of _ xss']) auto
    qed
  qed
qed

lemma nbytes_update: "k < length ys \<Longrightarrow> nbytes (ys[k := v]) \<le> nbytes ys + length (enc (entry_of v))"
proof -
  assume k: "k < length ys"
  have "nbytes ys = nbytes (take k ys @ ys ! k # drop (Suc k) ys)" using id_take_nth_drop [OF k] by simp
  then show ?thesis using nbytes_append [of "take k ys" "ys ! k # drop (Suc k) ys"]
      nbytes_append [of "take k ys" "v # drop (Suc k) ys"] k by (simp add: upd_conv_take_nth_drop)
qed

lemma Set_holds:
  assumes "ql_holds m q xs" "length v < 2 ^ 30"
  shows "\<exists>q'. QuickList_Set q index v = Inr (index < length xs, q') \<and> ql_holds m q' (xs[index := v])"
proof -
  obtain xss where xss: "ql_ok m q xss" "xs = concat xss" using assms(1) by (auto simp: ql_holds_def)
  then have rep: "ql_rep m q xss" "\<forall>xs\<in>set xss. qnode_ok m xs" "ql_size q = length xs" "m \<le> 2 ^ 30"
    by (simp_all add: ql_ok_def ql_rep_def)
  show ?thesis
  proof (cases "index < length xs")
    case False
    then show ?thesis using assms(1) rep(3) by (simp add: QuickList_Set_def Locate_def list_update_beyond)
  next
    case True
    then obtain i k where ik: "Locate q index = Inr (Some (i, k))" "i < length xss" "k < length (xss ! i)"
      "index = length (concat (take i xss)) + k" using Locate_ok [OF rep(1)] xss(2) by blast
    let ?ys = "(xss ! i)[k := v]"
    obtain lp where lp: "node_at q i = Inr lp" "snode lp (xss ! i)" using ql_rep_node [OF rep(1) ik(2)] .
    have ok: "qnode_ok m (xss ! i)" using rep(2) ik(2) by simp
    have "nbytes ?ys \<le> UINT32_MAX" using nbytes_update [OF ik(3), of v] node_bytes_bound [OF ok rep(4)]
        length_enc_entry_of [of v] assms(2) by simp
    moreover have "length v < 2 ^ 31" using assms(2) by simp
    ultimately obtain lp' where lp': "ListPack_Replace lp (lp_off (map entry_of (xss ! i)) k) v = Inr (True, lp')"
      "snode lp' ?ys" using snode_Replace [OF lp(2) ik(3)] by blast
    have c: "concat (xss[i := ?ys]) = xs[index := v]"
      unfolding xss(2) concat_update [OF ik(2)] using concat_nth [OF ik(2)] ik(3,4)
      by (simp add: list_update_append)
    have size: "length (concat (xss[i := ?ys])) = ql_size q" using c rep(3) by simp
    have q1: "ql_rep m (set_node q i lp') (xss[i := ?ys])"
      using ql_rep_set_node [OF rep(1) ik(2) lp'(2)] size_update_same [of "set_node q i lp'"] size
      by (simp add: set_node_def)
    have small: "\<forall>zs\<in>set (xss[i := ?ys]). zs \<noteq> [] \<and> (\<forall>x\<in>set zs. length x < 2 ^ 30)"
      using rep(2) ok assms(2) by (auto simp: qnode_ok_def dest!: set_update_subset_insert [THEN subsetD] )
    have "split_work (drop i (xss[i := ?ys])) \<le> 2 * ql_size q"
      using split_work_le [of "drop i (xss[i := ?ys])"] size
      by (metis append_take_drop_id concat_append le_add2 le_trans length_append mult_le_mono2)
    moreover have "\<forall>zs\<in>set (take i (xss[i := ?ys])). qnode_ok m zs" using rep(2) by (auto dest: in_set_takeD)
    ultimately obtain q2 xss2 where q2: "NormalizeNodeSizesFrom (2 * ql_size q) (set_node q i lp') i = Inr (True, q2)"
      "ql_ok m q2 xss2" "concat xss2 = xs[index := v]" "length xss \<le> length xss2"
      using Normalize_ok [OF q1 small, of i "2 * ql_size q"] ik(2) c by auto
    obtain q3 where "MergeAround q2 (Some i) = Inr q3" "ql_holds m q3 (xs[index := v])"
      using MergeAround_ok [OF q2(2), of i] q2(3,4) ik(2) by auto
    then show ?thesis using True ik(1,3) lp snode_IndexAt [OF lp(2), of k] lp'(1) q2(1)
      by (simp add: QuickList_Set_def)
  qed
qed


section \<open>Removal\<close>

lemma remove_first_shrink:
  "nbytes (remove_first P n xs) \<le> nbytes xs \<and> length (remove_first P n xs) \<le> length xs \<and> set (remove_first P n xs) \<subseteq> set xs"
proof (induction xs arbitrary: n)
  case (Cons x xs)
  show ?case
  proof (cases n)
    case (Suc k)
    then show ?thesis using Cons [of k] Cons [of n] by auto
  qed simp
qed simp

lemma nbytes_rev: "nbytes (rev xs) = nbytes xs"
  by (induction xs) (simp_all add: nbytes_rotate)

lemma nbytes_filter: "nbytes (filter P xs) \<le> nbytes xs"
  by (induction xs) auto

lemma remove_strs_shrink:
  "nbytes (remove_strs val n t xs) \<le> nbytes xs \<and> length (remove_strs val n t xs) \<le> length xs \<and>
   set (remove_strs val n t xs) \<subseteq> set xs"
  using remove_first_shrink [of "\<lambda>x. x = val" n "rev xs"] remove_first_shrink [of "\<lambda>x. x = val" n xs]
  by (auto simp: remove_strs_def remove_last_def nbytes_rev nbytes_filter)

lemma remove_first_append:
  "remove_first P n (xs @ ys) =
     remove_first P n xs @ remove_first P (n - (length xs - length (remove_first P n xs))) ys"
proof (induction xs arbitrary: n)
  case (Cons x xs)
  show ?case
  proof (cases n)
    case (Suc k)
    then show ?thesis using Cons [of k] Cons [of n] length_remove_first [of P k xs] length_remove_first [of P n xs]
      by (auto simp: Suc_diff_le)
  qed simp
qed simp

lemma remove_last_append:
  "remove_last P n (xs @ ys) =
     remove_last P (n - (length ys - length (remove_last P n ys))) xs @ remove_last P n ys"
  by (simp add: remove_last_def remove_first_append)

lemma ql_ok_replace:
  assumes "ql_ok m q xss" "i < length xss" "snode lp ys" "qnode_ok m ys \<or> ys = []" "n = length (concat (xss[i := ys]))"
  shows "ql_ok m (if ys = [] then QuickList_DeleteNode ((set_node q i lp)\<lparr>ql_size := n\<rparr>) (Some i) else (set_node q i lp)\<lparr>ql_size := n\<rparr>)
    (if ys = [] then take i xss @ drop (Suc i) xss else xss[i := ys])"
proof -
  have rep: "ql_rep m q xss" "\<forall>xs\<in>set xss. qnode_ok m xs" using assms(1) by (simp_all add: ql_ok_def)
  note r1 = ql_rep_set_node [OF rep(1) assms(2,3), folded assms(5)]
  show ?thesis
  proof (cases "ys = []")
    case False
    then show ?thesis using r1 rep(2) assms(4) by (auto simp: ql_ok_def dest!: set_update_subset_insert [THEN subsetD])
  next
    case True
    let ?q = "(set_node q i lp)\<lparr>ql_size := n\<rparr>" and ?xss = "take i xss @ drop (Suc i) xss"
    have x: "take i (xss[i := ys]) @ drop (Suc i) (xss[i := ys]) = ?xss" by simp
    have "length (concat ?xss) = n" using assms(2,5) True by (simp add: concat_update)
    then have "ql_rep m (QuickList_DeleteNode ?q (Some i)) ?xss"
      using ql_rep_delete [OF r1, of i] assms(2) unfolding x
      by (simp add: size_update_same QuickList_DeleteNode_def)
    moreover have "\<forall>xs\<in>set ?xss. qnode_ok m xs" using rep(2) by (auto dest: in_set_takeD in_set_dropD)
    ultimately show ?thesis using True by (simp add: ql_ok_def)
  qed
qed

lemma remove_at_ok:
  fixes val n t
  assumes "ql_ok m q xss" "i < length xss"
  defines "ys \<equiv> remove_strs val n t (xss ! i)"
  shows "\<exists>q'. remove_at q i val n t = Inr (length (xss ! i) - length ys, ys = [], q') \<and>
    ql_ok m q' (if ys = [] then take i xss @ drop (Suc i) xss else xss[i := ys])"
proof -
  have rep: "ql_rep m q xss" "qnode_ok m (xss ! i)" "ql_size q = length (concat xss)"
    using assms(1,2) by (simp_all add: ql_ok_def ql_rep_def)
  obtain lp where lp: "node_at q i = Inr lp" "snode lp (xss ! i)" using ql_rep_node [OF rep(1) assms(2)] .
  obtain lp' where lp': "ListPack_DeleteMatching lp val n t = Inr (length (xss ! i) - length ys, lp')" "snode lp' ys"
    using snode_DeleteMatching [OF lp(2), of val n t] unfolding ys_def by blast
  have sh: "nbytes ys \<le> nbytes (xss ! i)" "length ys \<le> length (xss ! i)" "set ys \<subseteq> set (xss ! i)"
    using remove_strs_shrink [of val n t "xss ! i"] by (simp_all add: ys_def)
  then have a: "qnode_ok m ys \<or> ys = []" using qnode_ok_shrink [OF rep(2)] by blast
  have b: "ql_size q - (length (xss ! i) - length ys) = length (concat (xss[i := ys]))"
    using rep(3) concat_nth [OF assms(2)] concat_update [OF assms(2), of ys] sh(2) by simp
  have "remove_at q i val n t = Inr (length (xss ! i) - length ys, ys = [],
      if ys = [] then QuickList_DeleteNode ((set_node q i lp')\<lparr>ql_size := ql_size q - (length (xss ! i) - length ys)\<rparr>) (Some i)
      else (set_node q i lp')\<lparr>ql_size := ql_size q - (length (xss ! i) - length ys)\<rparr>)"
    using lp lp' by (simp add: remove_at_def Let_def)
  then show ?thesis using ql_ok_replace [OF assms(1,2) lp'(2) a b] by (intro exI conjI)
qed

lemma Remove_forward_ok:
  fixes val limit
  assumes "ql_ok m q (front @ rest)"
  defines "R \<equiv> \<lambda>k zs. if limit = 0 then filter (\<lambda>x. x \<noteq> val) zs else remove_first (\<lambda>x. x = val) (limit - k) zs"
  shows "\<exists>q' xss'. Remove_forward (length rest) q (length front) val limit removed =
      Inr (removed + (length (concat rest) - length (R removed (concat rest))), q') \<and>
    ql_ok m q' xss' \<and> concat xss' = concat front @ R removed (concat rest)"
  using assms(1)
proof (induction rest arbitrary: q front removed)
  case Nil
  then show ?case by (auto simp: R_def)
next
  case (Cons ys rest)
  show ?case
  proof (cases "HasRemoveLimit limit \<and> \<not> removed < limit")
    case True
    then show ?thesis using Cons.prems by (intro exI [of _ q] exI [of _ "front @ ys # rest"]) (auto simp: R_def HasRemoveLimit_def)
  next
    case False
    let ?zs = "R removed ys"
    have "(if HasRemoveLimit limit then limit - removed else 0) = 0 \<longleftrightarrow> limit = 0" using False by (auto simp: HasRemoveLimit_def)
    then have zs: "remove_strs val (if HasRemoveLimit limit then limit - removed else 0) False ys = ?zs"
      by (auto simp: remove_strs_def R_def HasRemoveLimit_def)
    have x: "(front @ ys # rest) ! length front = ys" "(front @ ys # rest)[length front := ?zs] = front @ ?zs # rest"
      "take (length front) (front @ ys # rest) @ drop (Suc (length front)) (front @ ys # rest) = front @ rest"
      and len: "length front < length (front @ ys # rest)" by simp_all
    obtain q1 where q1: "remove_at q (length front) val (if HasRemoveLimit limit then limit - removed else 0) False =
        Inr (length ys - length ?zs, ?zs = [], q1)" "ql_ok m q1 (if ?zs = [] then front @ rest else front @ ?zs # rest)"
      using remove_at_ok [OF Cons.prems len, of val "if HasRemoveLimit limit then limit - removed else 0" False,
          unfolded x(1) zs x(2,3)] by (elim exE conjE) (rule that)
    let ?front = "if ?zs = [] then front else front @ [?zs]" and ?k = "removed + (length ys - length ?zs)"
    have "(if ?zs = [] then front @ rest else front @ ?zs # rest) = ?front @ rest"
      and l: "(if ?zs = [] then length front else length front + 1) = length ?front" by simp_all
    then have ok: "ql_ok m q1 (?front @ rest)" using q1(2) by (simp only:)
    obtain q' xss' where q': "Remove_forward (length rest) q1 (if ?zs = [] then length front else length front + 1) val limit ?k =
        Inr (?k + (length (concat rest) - length (R ?k (concat rest))), q')" "ql_ok m q' xss'"
      "concat xss' = concat ?front @ R ?k (concat rest)" 
      using Cons.IH [OF ok, of ?k, folded l] by (elim exE conjE) (rule that)
    have R: "R removed (concat (ys # rest)) = ?zs @ R ?k (concat rest)"
      by (simp add: R_def remove_first_append diff_diff_left)
    have "length ?zs \<le> length ys" "length (R ?k (concat rest)) \<le> length (concat rest)"
      by (simp_all add: R_def length_remove_first)
    then have "?k + (length (concat rest) - length (R ?k (concat rest))) =
        removed + (length (concat (ys # rest)) - length (R removed (concat (ys # rest))))" unfolding R by simp
    moreover have "Remove_forward (length (ys # rest)) q (length front) val limit removed =
        Inr (?k + (length (concat rest) - length (R ?k (concat rest))), q')"
      using False q1(1) q'(1) by (auto simp: R)
    moreover have "concat xss' = concat front @ R removed (concat (ys # rest))" unfolding R q'(3) by simp
    ultimately show ?thesis using q'(2) by (intro exI [of _ q'] exI [of _ xss']) simp
  qed
qed

lemma Remove_backward_ok:
  fixes val limit
  assumes "ql_ok m q (front @ rest)" "limit \<noteq> 0"
  defines "R \<equiv> \<lambda>k zs. remove_last (\<lambda>x. x = val) (limit - k) zs"
  shows "\<exists>q' xss'. Remove_backward (length front) q val limit removed =
      Inr (removed + (length (concat front) - length (R removed (concat front))), q') \<and>
    ql_ok m q' xss' \<and> concat xss' = R removed (concat front) @ concat rest"
  using assms(1)
proof (induction front arbitrary: q rest removed rule: rev_induct)
  case Nil
  then show ?case by (auto simp: R_def remove_last_def)
next
  case (snoc ys front)
  show ?case
  proof (cases "removed < limit")
    case False
    then show ?thesis using snoc.prems
      by (intro exI [of _ q] exI [of _ "(front @ [ys]) @ rest"]) (auto simp: R_def remove_last_def)
  next
    case True
    let ?zs = "R removed ys"
    have zs: "remove_strs val (limit - removed) True ys = ?zs" using True by (simp add: remove_strs_def R_def)
    have x: "((front @ [ys]) @ rest) ! length front = ys" "((front @ [ys]) @ rest)[length front := ?zs] = front @ ?zs # rest"
      "take (length front) ((front @ [ys]) @ rest) @ drop (Suc (length front)) ((front @ [ys]) @ rest) = front @ rest"
      and len: "length front < length ((front @ [ys]) @ rest)" by simp_all
    obtain q1 where q1: "remove_at q (length front) val (limit - removed) True =
        Inr (length ys - length ?zs, ?zs = [], q1)" "ql_ok m q1 (if ?zs = [] then front @ rest else front @ ?zs # rest)"
      using remove_at_ok [OF snoc.prems len, of val "limit - removed" True, unfolded x(1) zs x(2,3)]
      by (elim exE conjE) (rule that)
    let ?rest = "if ?zs = [] then rest else ?zs # rest" and ?k = "removed + (length ys - length ?zs)"
    have "(if ?zs = [] then front @ rest else front @ ?zs # rest) = front @ ?rest" by simp
    then have ok: "ql_ok m q1 (front @ ?rest)" using q1(2) by (simp only:)
    obtain q' xss' where q': "Remove_backward (length front) q1 val limit ?k =
        Inr (?k + (length (concat front) - length (R ?k (concat front))), q')" "ql_ok m q' xss'"
      "concat xss' = R ?k (concat front) @ concat ?rest" 
      using snoc.IH [OF ok, of ?k] by (elim exE conjE) (rule that)
    have R: "R removed (concat (front @ [ys])) = R ?k (concat front) @ ?zs"
      by (simp add: R_def remove_last_append diff_diff_left)
    have "length ?zs \<le> length ys" "length (R ?k (concat front)) \<le> length (concat front)"
      unfolding R_def remove_last_def length_rev by (metis length_remove_first length_rev)+
    then have "?k + (length (concat front) - length (R ?k (concat front))) =
        removed + (length (concat (front @ [ys])) - length (R removed (concat (front @ [ys]))))" unfolding R by simp
    moreover have "Remove_backward (length (front @ [ys])) q val limit removed =
        Inr (?k + (length (concat front) - length (R ?k (concat front))), q')"
      using True q1(1) q'(1) by simp
    moreover have "concat xss' = R removed (concat (front @ [ys])) @ concat rest" unfolding R q'(3) by simp
    ultimately show ?thesis using q'(2) by (intro exI [of _ q'] exI [of _ xss']) simp
  qed
qed

lemma Remove_holds:
  fixes val limit direction
  assumes "ql_holds m q xs"
  defines "ys \<equiv> remove_strs val limit (direction = kFromTail) xs"
  shows "\<exists>q'. QuickList_Remove q val limit direction = Inr (Some (length xs - length ys), q') \<and> ql_holds m q' ys"
proof -
  obtain xss where xss: "ql_ok m q xss" "xs = concat xss" "ql_size q = length xs" "length (ql_nodes q) = length xss"
    using assms(1) ql_rep_length by (fastforce simp: ql_holds_def ql_ok_def ql_rep_def)
  show ?thesis
  proof (cases "xs = []")
    case True
    then have "ys = []" by (simp add: ys_def remove_strs_def remove_last_def)
    then show ?thesis using True xss(3) assms(1) by (simp add: QuickList_Remove_def)
  next
    case False
    have "\<exists>q1 xss1. (if direction = kFromTail \<and> HasRemoveLimit limit
         then Remove_backward (length (ql_nodes q)) q val limit 0
         else Remove_forward (length (ql_nodes q)) q 0 val limit 0) = Inr (length xs - length ys, q1) \<and>
       ql_ok m q1 xss1 \<and> concat xss1 = ys"
    proof (cases "direction = kFromTail \<and> HasRemoveLimit limit")
      case True
      then show ?thesis using Remove_backward_ok [where m = m and q = q and front = xss and rest = "[]" and limit = limit and val = val and removed = 0] xss(1,2,4)
        by (auto simp: HasRemoveLimit_def ys_def remove_strs_def)
    next
      case F: False
      have "ys = (if limit = 0 then filter (\<lambda>x. x \<noteq> val) xs else remove_first (\<lambda>x. x = val) limit xs)"
        using F by (auto simp: HasRemoveLimit_def ys_def remove_strs_def)
      then show ?thesis using Remove_forward_ok [where m = m and q = q and front = "[]" and rest = xss and limit = limit and val = val and removed = 0] xss(1,2,4) F by auto
    qed
    then obtain q1 xss1 where q1: "(if direction = kFromTail \<and> HasRemoveLimit limit
         then Remove_backward (length (ql_nodes q)) q val limit 0
         else Remove_forward (length (ql_nodes q)) q 0 val limit 0) = Inr (length xs - length ys, q1)"
       "ql_ok m q1 xss1" "concat xss1 = ys" by blast
    obtain q2 where "MergeAll q1 = Inr q2" "ql_holds m q2 ys" using MergeAll_ok [OF q1(2)] q1(3) by auto
    then show ?thesis using False xss(3) q1(1) unfolding QuickList_Remove_def by simp
  qed
qed


section \<open>Trimming\<close>

lemma Trim_suffix_ok:
  assumes "ql_ok m q xss" "c \<le> length (concat xss)"
  shows "\<exists>q' c' xss'. Trim_suffix q c = Inr (c', q') \<and> ql_ok m q' xss' \<and> (if xss' = [] then c' = 0 else c' < length (last xss')) \<and>
    take (length (concat xss') - c') (concat xss') = take (length (concat xss) - c) (concat xss)"
  using assms
proof (induction xss arbitrary: q c rule: rev_induct)
  case Nil
  then have "Trim_suffix q c = Inr (0, q)" by (subst Trim_suffix.simps) (simp add: ql_ok_def ql_rep_def)
  then show ?case using Nil by (intro exI [of _ q] exI [of _ 0] exI [of _ "[]"]) simp
next
  case (snoc ys xss)
  obtain lp lps where n: "ql_nodes q = lps @ [lp]" "snode lp ys" "ql_size q = length (concat xss) + length ys"
    "ql_node_count q = Suc (length xss)"
    "ql_ok m (q\<lparr>ql_nodes := lps, ql_size := length (concat xss), ql_node_count := length xss\<rparr>) xss"
    using snoc.prems(1) unfolding ql_ok_snoc by blast
  show ?case
  proof (cases "c \<ge> length ys")
    case False
    then have "Trim_suffix q c = Inr (c, q)" using n(1,2) by (subst Trim_suffix.simps) simp
    then show ?thesis using snoc.prems(1) False by (intro exI [of _ q] exI [of _ c] exI [of _ "xss @ [ys]"]) simp
  next
    case True
    let ?q = "q\<lparr>ql_nodes := lps, ql_size := length (concat xss), ql_node_count := length xss\<rparr>"
    have "QuickList_DeleteNode (q\<lparr>ql_size := ql_size q - length ys\<rparr>) (tail_ptr q) = ?q"
      using n(1,3,4) by (simp add: QuickList_DeleteNode_def tail_ptr_def)
    then have "Trim_suffix q c = Trim_suffix ?q (c - length ys)"
      using True n(1,2) by (subst Trim_suffix.simps) simp
    moreover have "c - length ys \<le> length (concat xss)" using snoc.prems(2) by simp
    moreover have "take (length (concat xss) - (c - length ys)) (concat xss) =
        take (length (concat (xss @ [ys])) - c) (concat (xss @ [ys]))" using True snoc.prems(2) by simp
    ultimately show ?thesis using snoc.IH [OF n(5), of "c - length ys"] by simp
  qed
qed

lemma Trim_prefix_ok:
  assumes "ql_ok m q xss" "c \<le> length (concat xss)"
  shows "\<exists>q' c' xss'. Trim_prefix q c = Inr (c', q') \<and> ql_ok m q' xss' \<and> (if xss' = [] then c' = 0 else c' < length (hd xss')) \<and>
    drop c' (concat xss') = drop c (concat xss)"
  using assms
proof (induction xss arbitrary: q c)
  case Nil
  then have "Trim_prefix q c = Inr (0, q)" by (subst Trim_prefix.simps) (simp add: ql_ok_def ql_rep_def)
  then show ?case using Nil by (intro exI [of _ q] exI [of _ 0] exI [of _ "[]"]) simp
next
  case (Cons ys xss)
  obtain lp lps where n: "ql_nodes q = lp # lps" "snode lp ys" "ql_size q = length ys + length (concat xss)"
    "ql_node_count q = Suc (length xss)"
    "ql_ok m (q\<lparr>ql_nodes := lps, ql_size := length (concat xss), ql_node_count := length xss\<rparr>) xss"
    using Cons.prems(1) unfolding ql_ok_Cons by blast
  show ?case
  proof (cases "c \<ge> length ys")
    case False
    then have "Trim_prefix q c = Inr (c, q)" using n(1,2) by (subst Trim_prefix.simps) simp
    then show ?thesis using Cons.prems(1) False by (intro exI [of _ q] exI [of _ c] exI [of _ "ys # xss"]) simp
  next
    case True
    let ?q = "q\<lparr>ql_nodes := lps, ql_size := length (concat xss), ql_node_count := length xss\<rparr>"
    have "QuickList_DeleteNode (q\<lparr>ql_size := ql_size q - length ys\<rparr>) (head_ptr q) = ?q"
      using n(1,3,4) by (simp add: QuickList_DeleteNode_def head_ptr_def)
    then have "Trim_prefix q c = Trim_prefix ?q (c - length ys)"
      using True n(1,2) by (subst Trim_prefix.simps) simp
    moreover have "c - length ys \<le> length (concat xss)" using Cons.prems(2) by simp
    moreover have "drop (c - length ys) (concat xss) = drop c (concat (ys # xss))" using True by simp
    ultimately show ?thesis using Cons.IH [OF n(5), of "c - length ys"] by simp
  qed
qed

lemma trim_node_ok:
  assumes "ql_ok m q xss" "i < length xss" "0 < c" "node = Some i" "k + c \<le> length (xss ! i)" "c < length (xss ! i)"
    "\<And>lp. snode lp (xss ! i) \<Longrightarrow> position lp = Inr (Some (lp_off (map entry_of (xss ! i)) k))"
  shows "\<exists>q'. trim_node q node position c = Inr (True, q') \<and>
    ql_ok m q' (xss[i := take k (xss ! i) @ drop (k + c) (xss ! i)])"
proof -
  let ?ys = "take k (xss ! i) @ drop (k + c) (xss ! i)"
  have rep: "ql_rep m q xss" "qnode_ok m (xss ! i)" "ql_size q = length (concat xss)"
    using assms(1,2) by (simp_all add: ql_ok_def ql_rep_def)
  obtain lp where lp: "node_at q i = Inr lp" "snode lp (xss ! i)" using ql_rep_node [OF rep(1) assms(2)] .
  obtain lp' where lp': "ListPack_DeleteRange lp (lp_off (map entry_of (xss ! i)) k) c = Inr (c, lp')" "snode lp' ?ys"
    using snode_DeleteRange [OF lp(2), of k c] assms(3,5) by auto
  have len: "length ?ys = length (xss ! i) - c" using assms(5) by simp
  have ne: "?ys \<noteq> []" using len assms(6) by (metis length_0_conv zero_less_diff less_numeral_extra(3))
  have "qnode_ok m ?ys"
    by (rule qnode_ok_shrink [OF rep(2) ne nbytes_drop_take]) (use len in \<open>auto dest: in_set_takeD in_set_dropD\<close>)
  moreover have "ql_size q - c = length (concat (xss[i := ?ys]))"
    using rep(3) concat_nth [OF assms(2)] concat_update [OF assms(2), of ?ys] assms(5) by simp
  ultimately have "ql_ok m ((set_node q i lp')\<lparr>ql_size := ql_size q - c\<rparr>) (xss[i := ?ys])"
    using ql_ok_replace [OF assms(1,2) lp'(2)] ne by auto
  then show ?thesis using assms(3,4) assms(7) [OF lp(2)] lp(1) lp'(1) by (simp add: trim_node_def)
qed

lemma trim_tail_ok:
  assumes "ql_ok m q xss" "if xss = [] then c = 0 else c < length (last xss)"
  shows "\<exists>q' xss'. trim_node q (tail_ptr q) (\<lambda>lp. bindE (ListPack_size_of lp) (\<lambda>n. ListPack_IndexAt lp (n - c))) c
      = Inr (True, q') \<and> ql_ok m q' xss' \<and> concat xss' = take (length (concat xss) - c) (concat xss)"
proof (cases "c = 0")
  case True
  then show ?thesis using assms(1) by (auto simp: trim_node_def)
next
  case False
  then obtain yss ys where x: "xss = yss @ [ys]" "c < length ys" using assms(2) by (cases xss rule: rev_cases) auto
  have "length (ql_nodes q) = length xss" using assms(1) ql_rep_length by (auto simp: ql_ok_def)
  then have t: "tail_ptr q = Some (length yss)" using x(1) by (auto simp: tail_ptr_def)
  have "\<exists>q'. trim_node q (tail_ptr q) (\<lambda>lp. bindE (ListPack_size_of lp) (\<lambda>n. ListPack_IndexAt lp (n - c))) c = Inr (True, q') \<and>
      ql_ok m q' (xss[length yss := take (length ys - c) (xss ! length yss) @ drop (length ys - c + c) (xss ! length yss)])"
    by (rule trim_node_ok [OF assms(1) _ _ t]) (use x False snode_IndexAt in auto)
  moreover have "concat (xss[length yss := take (length ys - c) (xss ! length yss) @ drop (length ys - c + c) (xss ! length yss)])
      = take (length (concat xss) - c) (concat xss)" using x by simp
  ultimately show ?thesis by blast
qed

lemma trim_head_ok:
  assumes "ql_ok m q xss" "if xss = [] then c = 0 else c < length (hd xss)"
  shows "\<exists>q' xss'. trim_node q (head_ptr q) ListPack_First c = Inr (True, q') \<and> ql_ok m q' xss' \<and>
    concat xss' = drop c (concat xss)"
proof (cases "c = 0")
  case True
  then show ?thesis using assms(1) by (auto simp: trim_node_def)
next
  case False
  then obtain yss ys where x: "xss = ys # yss" "c < length ys" using assms(2) by (cases xss) auto
  have "length (ql_nodes q) = length xss" using assms(1) ql_rep_length by (auto simp: ql_ok_def)
  then have t: "head_ptr q = Some 0" using x(1) by (auto simp: head_ptr_def)
  have "\<exists>q'. trim_node q (head_ptr q) ListPack_First c = Inr (True, q') \<and>
      ql_ok m q' (xss[0 := take 0 (xss ! 0) @ drop (0 + c) (xss ! 0)])"
    by (rule trim_node_ok [OF assms(1) _ _ t]) (use x False snode_First in auto)
  moreover have "concat (xss[0 := take 0 (xss ! 0) @ drop (0 + c) (xss ! 0)]) = drop c (concat xss)" using x by simp
  ultimately show ?thesis by blast
qed

lemma MergeAround_holds:
  assumes "ql_holds m q xs" "\<And>i. p = Some i \<Longrightarrow> i < length (ql_nodes q)"
  shows "\<exists>q'. MergeAround q p = Inr q' \<and> ql_holds m q' xs"
proof (cases p)
  case None
  then show ?thesis using assms(1) by (simp add: MergeAround_def)
next
  case (Some i)
  obtain xss where xss: "ql_ok m q xss" "xs = concat xss" using assms(1) by (auto simp: ql_holds_def)
  then have "i < length xss" using assms(2) [OF Some] ql_rep_length by (fastforce simp: ql_ok_def)
  then show ?thesis using MergeAround_ok [OF xss(1)] xss(2) Some by simp
qed

lemma Trim_holds:
  assumes "ql_holds m q xs"
  shows "\<exists>q'. QuickList_Trim q start stop = Inr (True, q') \<and> ql_holds m q' (drop start (take (Suc stop) xs))"
proof -
  obtain xss where xss: "ql_ok m q xss" "xs = concat xss" "ql_size q = length xs"
    using assms by (auto simp: ql_holds_def ql_ok_def ql_rep_def)
  show ?thesis
  proof (cases "xs = [] \<or> start > stop \<or> start \<ge> length xs")
    case True
    have "ql_holds m (Clear q) []" using xss(1) by (auto simp: ql_holds_def ql_ok_def ql_rep_def Clear_def intro: exI [of _ "[]"])
    then show ?thesis using True xss(3) by (auto simp: QuickList_Trim_def)
  next
    case False
    define st where "st = min stop (length xs - 1)"
    have st: "Suc st \<le> length xs" "start \<le> st" "take (Suc st) xs = take (Suc stop) xs"
      using False take_min [of start xs stop] by (auto simp: st_def min_def)
    obtain q1 c1 xss1 where q1: "Trim_suffix q (length xs - st - 1) = Inr (c1, q1)" "ql_ok m q1 xss1"
      "if xss1 = [] then c1 = 0 else c1 < length (last xss1)"
      "take (length (concat xss1) - c1) (concat xss1) = take (Suc st) xs"
      using Trim_suffix_ok [OF xss(1), of "length xs - st - 1"] xss(2) st(1) by auto
    obtain q2 xss2 where q2: "trim_node q1 (tail_ptr q1) (\<lambda>lp. bindE (ListPack_size_of lp) (\<lambda>n.
        ListPack_IndexAt lp (n - c1))) c1 = Inr (True, q2)" "ql_ok m q2 xss2" "concat xss2 = take (Suc st) xs"
      using trim_tail_ok [OF q1(2,3)] q1(4) by auto
    have "start \<le> length (concat xss2)" using q2(3) st(1,2) by simp
    then obtain q3 c3 xss3 where q3: "Trim_prefix q2 start = Inr (c3, q3)" "ql_ok m q3 xss3"
      "if xss3 = [] then c3 = 0 else c3 < length (hd xss3)" "drop c3 (concat xss3) = drop start (take (Suc st) xs)"
      using Trim_prefix_ok [OF q2(2)] q2(3) by metis
    obtain q4 xss4 where q4: "trim_node q3 (head_ptr q3) ListPack_First c3 = Inr (True, q4)" "ql_ok m q4 xss4"
      "concat xss4 = drop start (take (Suc st) xs)" using trim_head_ok [OF q3(2,3)] q3(4) by auto
    let ?ys = "drop start (take (Suc stop) xs)"
    have "ql_holds m q4 ?ys" using q4(2,3) st(3) by (auto simp: ql_holds_def)
    then have "\<exists>q5. MergeAround q4 (head_ptr q4) = Inr q5 \<and> ql_holds m q5 ?ys"
      by (rule MergeAround_holds) (auto simp: head_ptr_def split: if_splits)
    then obtain q5 where q5: "MergeAround q4 (head_ptr q4) = Inr q5" "ql_holds m q5 ?ys" by blast
    obtain q6 where q6: "(case tail_ptr q5 of None \<Rightarrow> Inr q5
        | Some t \<Rightarrow> MergeAround q5 (if prev_ptr t \<noteq> None then prev_ptr t else Some t)) = Inr q6" "ql_holds m q6 ?ys"
    proof (cases "tail_ptr q5")
      case None
      then show ?thesis using that q5(2) by simp
    next
      case (Some t)
      then have "t < length (ql_nodes q5)" by (auto simp: tail_ptr_def split: if_splits)
      then have "\<exists>q6. MergeAround q5 (if prev_ptr t \<noteq> None then prev_ptr t else Some t) = Inr q6 \<and> ql_holds m q6 ?ys"
        by (intro MergeAround_holds [OF q5(2)]) (auto simp: prev_ptr_def split: if_splits)
      then show ?thesis using that Some by auto
    qed
    have "QuickList_Trim q start stop = Inr (True, q6)"
      unfolding QuickList_Trim_def Let_def xss(3) st_def [symmetric]
      using False q1(1) q2(1) q3(1) q4(1) q5(1) q6(1) by simp
    then show ?thesis using q6(2) by blast
  qed
qed

section \<open>Conversion to a listpack\<close>

lemma new_holds: "n \<le> 2 ^ 30 \<Longrightarrow> ql_holds (max n 7) (QuickList_new n) []"
  by (auto simp: ql_holds_def ql_ok_def ql_rep_def QuickList_new_def intro: exI [of _ "[]"])

lemma ReleaseListPack_holds:
  assumes "ql_holds m q xs"
  obtains (many) "ListPackBytes q = Inr None"
    | (one) lp q' where "ListPackBytes q = Inr (Some (nbytes xs))" "ReleaseListPack q = Inr (Some lp, q')" "snode lp xs"
proof -
  obtain xss where xss: "ql_ok m q xss" "xs = concat xss" "ql_node_count q = length xss"
    using assms by (auto simp: ql_holds_def ql_ok_def ql_rep_def)
  consider "length xss > 1" | "xss = []" | ys where "xss = [ys]"
    by (cases xss; cases "tl xss") auto
  then show ?thesis
  proof cases
    case 1
    then show ?thesis using many xss(3) by (simp add: ListPackBytes_def)
  next
    case 2
    obtain lp where lp: "ListPack_new = Inr lp" "snode lp []" using snode_new by blast
    have n: "ql_nodes q = []" using xss(1) 2 by (simp add: ql_ok_def ql_rep_def)
    have "ReleaseListPack q = Inr (Some lp, Clear q)"
      unfolding ReleaseListPack_def n list.case by (subst lp(1)) (use 2 xss(3) in simp)
    then show ?thesis using one lp(2) 2 xss(2,3) n by (simp add: ListPackBytes_def)
  next
    case 3
    obtain lp where lp: "ql_nodes q = [lp]" "snode lp ys" using xss(1) 3 by (auto simp: ql_ok_def ql_rep_def list_all2_Cons2)
    then show ?thesis using one [of lp "Clear q"] xss(2,3) 3 by (simp add: ListPackBytes_def ReleaseListPack_def)
  qed
qed

end
