(* ===== verification/List_Type.thy ===== *)
theory List_Type
  imports Quicklist_Refinement
begin

text \<open>
  The list type (\<open>src/data_types/list/list.cpp\<close>, \<open>list.h\<close>): a list of strings that is held in one
  \<open>ListPack\<close> while it is short and in a \<open>QuickList\<close> otherwise.
\<close>

section \<open>Definitions\<close>

datatype ListEncoding = kListPack | kQuickList

datatype ListRemoveDirection = kListFromHead | kListFromTail

record list_obj =
  lo_listpack :: "bytes option"
  lo_quicklist :: "quicklist option"
  lo_max_listpack_bytes :: nat

definition ToQuickListRemoveDirection :: "ListRemoveDirection \<Rightarrow> RemoveDirection" where
  "ToQuickListRemoveDirection direction = (if direction = kListFromTail then kFromTail else kFromHead)"

definition List_new :: "nat \<Rightarrow> list_obj res" where
  "List_new list_max_listpack_bytes = bindE ListPack_new (\<lambda>lp.
     Inr \<lparr>lo_listpack = Some lp, lo_quicklist = None, lo_max_listpack_bytes = list_max_listpack_bytes\<rparr>)"

definition List_Size :: "list_obj \<Rightarrow> nat res" where
  "List_Size l = (case lo_listpack l of
     Some lp \<Rightarrow> ListPack_size_of lp
   | None \<Rightarrow> bindE (deref (lo_quicklist l)) (\<lambda>q. Inr (ql_size q)))"

definition NodeCount :: "list_obj \<Rightarrow> nat" where
  "NodeCount l = (case lo_quicklist l of None \<Rightarrow> 0 | Some q \<Rightarrow> ql_node_count q)"

definition List_Encoding :: "list_obj \<Rightarrow> ListEncoding" where
  "List_Encoding l = (if lo_listpack l \<noteq> None then kListPack else kQuickList)"

definition List_ForEach :: "list_obj \<Rightarrow> nat \<Rightarrow> nat \<Rightarrow> 's visitor \<Rightarrow> 's \<Rightarrow> (bool \<times> 's) res" where
  "List_ForEach l start stop visitor s = (case lo_listpack l of
     Some lp \<Rightarrow> ListPack_ForEach lp start stop visitor s
   | None \<Rightarrow> bindE (deref (lo_quicklist l)) (\<lambda>q. QuickList_ForEach q start stop visitor s))"

definition List_ForEachReverse :: "list_obj \<Rightarrow> nat \<Rightarrow> nat \<Rightarrow> 's visitor \<Rightarrow> 's \<Rightarrow> (bool \<times> 's) res" where
  "List_ForEachReverse l start stop visitor s = (case lo_listpack l of
     Some lp \<Rightarrow> ListPack_ForEachReverse lp start stop visitor s
   | None \<Rightarrow> bindE (deref (lo_quicklist l)) (\<lambda>q. QuickList_ForEachReverse q start stop visitor s))"

definition List_At :: "list_obj \<Rightarrow> nat \<Rightarrow> string option res" where
  "List_At l index = bindE (List_ForEach l index index (\<lambda>val _. (True, Some val)) None) (\<lambda>(_, result). Inr result)"

definition List_Range :: "list_obj \<Rightarrow> nat \<Rightarrow> nat \<Rightarrow> string list res" where
  "List_Range l start stop = bindE (List_Size l) (\<lambda>n.
     if start > stop \<or> start \<ge> n then Inr []
     else bindE (List_ForEach l start (min stop (n - 1)) (\<lambda>val vals. (True, vals @ [val])) []) (\<lambda>(_, vals).
       Inr vals))"

text \<open>The visitor that appends each value to the new quicklist.\<close>

definition rpush_visitor :: "string \<Rightarrow> quicklist res \<Rightarrow> bool \<times> quicklist res" where
  "rpush_visitor val r = (case r of
     Inl f \<Rightarrow> (False, Inl f)
   | Inr q \<Rightarrow> (case QuickList_RPush q val of Inl f \<Rightarrow> (False, Inl f) | Inr (b, q) \<Rightarrow> (b, Inr q)))"

definition ConvertListPackToQuickList :: "list_obj \<Rightarrow> (bool \<times> list_obj) res" where
  "ConvertListPackToQuickList l =
     bindE (deref (lo_listpack l)) (\<lambda>lp. bindE (ListPack_size_of lp) (\<lambda>n.
     let quicklist = QuickList_new (lo_max_listpack_bytes l) in
     bindE (if n = 0 then Inr (True, Inr quicklist)
            else ListPack_ForEach lp 0 (n - 1) rpush_visitor (Inr quicklist)) (\<lambda>(converted, r).
     bindE r (\<lambda>quicklist.
       if \<not> converted then Inr (False, l)
       else Inr (True, l\<lparr>lo_quicklist := Some quicklist, lo_listpack := None\<rparr>)))))"

definition TryConvertQuickListToListPack :: "list_obj \<Rightarrow> list_obj res" where
  "TryConvertQuickListToListPack l = (case lo_quicklist l of
     None \<Rightarrow> Inr l
   | Some q \<Rightarrow> bindE (ListPackBytes q) (\<lambda>bytes.
       case bytes of
         None \<Rightarrow> Inr l
       | Some n \<Rightarrow>
           if n > lo_max_listpack_bytes l div 2 then Inr l
           else bindE (ReleaseListPack q) (\<lambda>(lp, q). Inr (l\<lparr>lo_listpack := lp, lo_quicklist := None\<rparr>))))"

definition WouldExceedListpackLimit :: "list_obj \<Rightarrow> string \<Rightarrow> bool res" where
  "WouldExceedListpackLimit l val = (case lo_listpack l of
     None \<Rightarrow> Inr False
   | Some lp \<Rightarrow> bindE (ListPack_TotalBytes lp) (\<lambda>bytes.
       let added = ListPack_EstimateEntryBytes val in
       Inr (bytes > lo_max_listpack_bytes l \<or> added > lo_max_listpack_bytes l - bytes)))"

definition quicklist_push :: "list_obj \<Rightarrow> string \<Rightarrow> bool \<Rightarrow> (bool \<times> list_obj) res" where
  "quicklist_push l val head = bindE (deref (lo_quicklist l)) (\<lambda>q.
     bindE (if head then QuickList_LPush q val else QuickList_RPush q val) (\<lambda>(b, q).
       Inr (b, l\<lparr>lo_quicklist := Some q\<rparr>)))"

definition Push :: "list_obj \<Rightarrow> string \<Rightarrow> bool \<Rightarrow> (bool \<times> list_obj) res" where
  "Push l val head = (case lo_listpack l of
     None \<Rightarrow> quicklist_push l val head
   | Some _ \<Rightarrow>
       bindE (WouldExceedListpackLimit l val) (\<lambda>exceeds.
       bindE (if exceeds then ConvertListPackToQuickList l else Inr (True, l)) (\<lambda>(ready, l).
       if \<not> ready then Inr (False, l)
       else case lo_listpack l of
         Some lp \<Rightarrow> bindE (if head then ListPack_Prepend lp val else ListPack_Append lp val) (\<lambda>(b, lp).
           Inr (b, l\<lparr>lo_listpack := Some lp\<rparr>))
       | None \<Rightarrow> quicklist_push l val head)))"

definition List_LPush :: "list_obj \<Rightarrow> string \<Rightarrow> (bool \<times> list_obj) res" where
  "List_LPush l val = Push l val True"

definition List_RPush :: "list_obj \<Rightarrow> string \<Rightarrow> (bool \<times> list_obj) res" where
  "List_RPush l val = Push l val False"

definition Pop :: "list_obj \<Rightarrow> bool \<Rightarrow> (string option \<times> list_obj) res" where
  "Pop l head = (case lo_listpack l of
     Some lp \<Rightarrow> bindE (ListPack_size_of lp) (\<lambda>n.
       if n = 0 then Inr (None, l)
       else bindE (if head then ListPack_First lp else ListPack_Last lp) (\<lambda>idx.
         case idx of
           None \<Rightarrow> Inr (None, l)
         | Some i \<Rightarrow> bindE (ListPack_Get lp i) (\<lambda>val. bindE (ListPack_Delete lp i) (\<lambda>lp.
             Inr (val, l\<lparr>lo_listpack := Some lp\<rparr>)))))
   | None \<Rightarrow> bindE (deref (lo_quicklist l)) (\<lambda>q.
       bindE (if head then QuickList_LPop q else QuickList_RPop q) (\<lambda>(val, q).
       bindE (TryConvertQuickListToListPack (l\<lparr>lo_quicklist := Some q\<rparr>)) (\<lambda>l. Inr (val, l)))))"

definition List_LPop :: "list_obj \<Rightarrow> (string option \<times> list_obj) res" where
  "List_LPop l = Pop l True"

definition List_RPop :: "list_obj \<Rightarrow> (string option \<times> list_obj) res" where
  "List_RPop l = Pop l False"

definition List_Set :: "list_obj \<Rightarrow> nat \<Rightarrow> string \<Rightarrow> (bool \<times> list_obj) res" where
  "List_Set l index val = bindE (List_Size l) (\<lambda>n.
     if index \<ge> n then Inr (False, l)
     else case lo_listpack l of
       Some lp \<Rightarrow> bindE (ListPack_IndexAt lp index) (\<lambda>listpack_index.
         case listpack_index of
           None \<Rightarrow> Inr (False, l)
         | Some i \<Rightarrow> bindE (ListPack_Replace lp i val) (\<lambda>(replaced, lp).
             if \<not> replaced then Inr (False, l)
             else
               let l = l\<lparr>lo_listpack := Some lp\<rparr> in
               bindE (ListPack_TotalBytes lp) (\<lambda>bytes.
                 if bytes > lo_max_listpack_bytes l then ConvertListPackToQuickList l else Inr (True, l))))
     | None \<Rightarrow> bindE (deref (lo_quicklist l)) (\<lambda>q.
         bindE (QuickList_Set q index val) (\<lambda>(b, q). Inr (b, l\<lparr>lo_quicklist := Some q\<rparr>))))"

definition RemoveFromListPack ::
  "list_obj \<Rightarrow> string \<Rightarrow> nat \<Rightarrow> ListRemoveDirection \<Rightarrow> (nat option \<times> list_obj) res" where
  "RemoveFromListPack l val limit direction = bindE (deref (lo_listpack l)) (\<lambda>lp.
     bindE (ListPack_DeleteMatching lp val limit (direction = kListFromTail)) (\<lambda>(removed, lp).
       Inr (Some removed, l\<lparr>lo_listpack := Some lp\<rparr>)))"

definition List_Remove ::
  "list_obj \<Rightarrow> string \<Rightarrow> nat \<Rightarrow> ListRemoveDirection \<Rightarrow> (nat option \<times> list_obj) res" where
  "List_Remove l val limit direction = bindE (List_Size l) (\<lambda>n.
     if n = 0 then Inr (Some 0, l)
     else if lo_listpack l \<noteq> None then RemoveFromListPack l val limit direction
     else bindE (deref (lo_quicklist l)) (\<lambda>q.
       bindE (QuickList_Remove q val limit (ToQuickListRemoveDirection direction)) (\<lambda>(removed, q).
         Inr (removed, l\<lparr>lo_quicklist := Some q\<rparr>))))"

definition TrimListPack :: "list_obj \<Rightarrow> nat \<Rightarrow> nat \<Rightarrow> list_obj res" where
  "TrimListPack l start stop = bindE (deref (lo_listpack l)) (\<lambda>lp. bindE (ListPack_size_of lp) (\<lambda>n.
     let tail_count = n - stop - 1 in
     bindE (ListPack_IndexAt lp (stop + 1)) (\<lambda>tail_index.
     bindE (case tail_index of
         None \<Rightarrow> Inr lp
       | Some i \<Rightarrow> bindE (ListPack_DeleteRange lp i tail_count) (\<lambda>(_, lp). Inr lp)) (\<lambda>lp.
     bindE (ListPack_First lp) (\<lambda>first.
     bindE (case first of
         None \<Rightarrow> Inr lp
       | Some i \<Rightarrow> bindE (ListPack_DeleteRange lp i start) (\<lambda>(_, lp). Inr lp)) (\<lambda>lp.
       Inr (l\<lparr>lo_listpack := Some lp\<rparr>)))))))"

definition AdoptReplacement :: "list_obj \<Rightarrow> list_obj \<Rightarrow> bool \<times> list_obj" where
  "AdoptReplacement l replacement =
     (True, l\<lparr>lo_listpack := lo_listpack replacement, lo_quicklist := lo_quicklist replacement\<rparr>)"

definition List_Trim :: "list_obj \<Rightarrow> nat \<Rightarrow> nat \<Rightarrow> (bool \<times> list_obj) res" where
  "List_Trim l start stop = bindE (List_Size l) (\<lambda>n.
     if n = 0 \<or> start > stop \<or> start \<ge> n then
       bindE (List_new (lo_max_listpack_bytes l)) (\<lambda>replacement. Inr (AdoptReplacement l replacement))
     else
       let stop = min stop (n - 1) in
       if start = 0 \<and> stop = n - 1 then Inr (True, l)
       else if lo_listpack l \<noteq> None then bindE (TrimListPack l start stop) (\<lambda>l. Inr (True, l))
       else bindE (deref (lo_quicklist l)) (\<lambda>q.
         bindE (QuickList_Trim q start stop) (\<lambda>(b, q). Inr (b, l\<lparr>lo_quicklist := Some q\<rparr>))))"

text \<open>A sequence of operations with their answers, and the same on a list of strings.\<close>

datatype list_op =
    OpPush string bool
  | OpPop bool
  | OpSet nat string
  | OpRemove string nat ListRemoveDirection
  | OpTrim nat nat

datatype list_answer = Done bool | Popped "string option" | Removed "nat option"

fun list_apply :: "list_op \<Rightarrow> list_obj \<Rightarrow> (list_answer \<times> list_obj) res" where
  "list_apply (OpPush val head) l =
     bindE (if head then List_LPush l val else List_RPush l val) (\<lambda>(b, l). Inr (Done b, l))"
| "list_apply (OpPop head) l = bindE (if head then List_LPop l else List_RPop l) (\<lambda>(v, l). Inr (Popped v, l))"
| "list_apply (OpSet index val) l = bindE (List_Set l index val) (\<lambda>(b, l). Inr (Done b, l))"
| "list_apply (OpRemove val limit direction) l =
     bindE (List_Remove l val limit direction) (\<lambda>(n, l). Inr (Removed n, l))"
| "list_apply (OpTrim start stop) l = bindE (List_Trim l start stop) (\<lambda>(b, l). Inr (Done b, l))"

fun list_run :: "list_op list \<Rightarrow> list_obj \<Rightarrow> (list_answer list \<times> list_obj) res" where
  "list_run [] l = Inr ([], l)"
| "list_run (c # cs) l = bindE (list_apply c l) (\<lambda>(a, l). bindE (list_run cs l) (\<lambda>(as, l). Inr (a # as, l)))"

fun spec_apply :: "list_op \<Rightarrow> string list \<Rightarrow> list_answer \<times> string list" where
  "spec_apply (OpPush val head) xs = (Done True, if head then val # xs else xs @ [val])"
| "spec_apply (OpPop head) xs =
     (Popped (if xs = [] then None else Some (if head then hd xs else last xs)), if head then tl xs else butlast xs)"
| "spec_apply (OpSet index val) xs = (Done (index < length xs), xs[index := val])"
| "spec_apply (OpRemove val limit direction) xs =
     (let ys = remove_strs val limit (direction = kListFromTail) xs in (Removed (Some (length xs - length ys)), ys))"
| "spec_apply (OpTrim start stop) xs = (Done True, drop start (take (Suc stop) xs))"

fun spec_run :: "list_op list \<Rightarrow> string list \<Rightarrow> list_answer list \<times> string list" where
  "spec_run [] xs = ([], xs)"
| "spec_run (c # cs) xs =
     (case spec_apply c xs of (a, xs) \<Rightarrow> case spec_run cs xs of (as, xs) \<Rightarrow> (a # as, xs))"

fun op_ok :: "list_op \<Rightarrow> bool" where
  "op_ok (OpPush val _) = (length val < 2 ^ 30)"
| "op_ok (OpSet _ val) = (length val < 2 ^ 30)"
| "op_ok _ = True"

section \<open>The list of strings\<close>

definition pack_ok :: "nat \<Rightarrow> bytes \<Rightarrow> string list \<Rightarrow> bool" where
  "pack_ok m lp xs \<longleftrightarrow> snode lp xs \<and> nbytes xs \<le> max m 7 \<and> (\<forall>x\<in>set xs. length x < 2 ^ 30)"

definition list_holds :: "list_obj \<Rightarrow> string list \<Rightarrow> bool" where
  "list_holds l xs \<longleftrightarrow> lo_max_listpack_bytes l \<le> 2 ^ 30 \<and> (case lo_listpack l of
     Some lp \<Rightarrow> pack_ok (lo_max_listpack_bytes l) lp xs
   | None \<Rightarrow> (case lo_quicklist l of None \<Rightarrow> False | Some q \<Rightarrow> ql_holds (max (lo_max_listpack_bytes l) 7) q xs))"

lemma list_holds_cases:
  assumes "list_holds l xs"
  obtains (pack) lp where "lo_listpack l = Some lp" "pack_ok (lo_max_listpack_bytes l) lp xs" "snode lp xs"
      "nbytes xs \<le> 2 ^ 30" "\<forall>x\<in>set xs. length x < 2 ^ 30" "lo_max_listpack_bytes l \<le> 2 ^ 30"
    | (quick) q where "lo_listpack l = None" "lo_quicklist l = Some q" "ql_holds (max (lo_max_listpack_bytes l) 7) q xs"
      "lo_max_listpack_bytes l \<le> 2 ^ 30"
  using assms by (auto simp: list_holds_def pack_ok_def split: option.splits)

lemma ql_holds_size: "ql_holds m q xs \<Longrightarrow> ql_size q = length xs"
  by (auto simp: ql_holds_def ql_ok_def ql_rep_def)

lemma List_Size_holds: "list_holds l xs \<Longrightarrow> List_Size l = Inr (length xs)"
  by (erule list_holds_cases) (auto simp: List_Size_def ql_holds_size)

lemma List_ForEach_holds:
  "list_holds l xs \<Longrightarrow> List_ForEach l start stop f s = Inr (visit f (drop start (take (Suc stop) xs)) s)"
  by (erule list_holds_cases) (auto simp: List_ForEach_def snode_ForEach ForEach_holds)

lemma List_ForEachReverse_holds:
  "list_holds l xs \<Longrightarrow> List_ForEachReverse l start stop f s = Inr (visit f (rev (drop start (take (Suc stop) xs))) s)"
  by (erule list_holds_cases) (auto simp: List_ForEachReverse_def snode_ForEachReverse ForEachReverse_holds)

lemma visit_collects: "visit (\<lambda>x acc. (True, acc @ [x])) xs acc = (True, acc @ xs)"
  by (induction xs arbitrary: acc) auto

lemma List_Range_holds:
  assumes "list_holds l xs"
  shows "List_Range l start stop = Inr (drop start (take (Suc stop) xs))"
proof (cases "start > stop \<or> start \<ge> length xs")
  case True
  then show ?thesis using List_Size_holds [OF assms] by (auto simp: List_Range_def)
next
  case False
  then show ?thesis using List_Size_holds [OF assms] take_min [of start xs stop]
    by (simp add: List_Range_def List_ForEach_holds [OF assms] visit_collects)
qed

lemma List_At_holds:
  assumes "list_holds l xs"
  shows "List_At l index = Inr (if index < length xs then Some (xs ! index) else None)"
proof (cases "index < length xs")
  case True
  then have "drop index (take (Suc index) xs) = [xs ! index]" by (simp add: take_Suc_conv_app_nth)
  then show ?thesis using True by (simp add: List_At_def List_ForEach_holds [OF assms])
next
  case False
  then show ?thesis by (simp add: List_At_def List_ForEach_holds [OF assms])
qed

lemma List_new_holds: "n \<le> 2 ^ 30 \<Longrightarrow> \<exists>l. List_new n = Inr l \<and> list_holds l [] \<and> lo_max_listpack_bytes l = n"
proof -
  assume n: "n \<le> 2 ^ 30"
  obtain lp where lp: "ListPack_new = Inr lp" "snode lp []" using snode_new by blast
  have "List_new n = Inr \<lparr>lo_listpack = Some lp, lo_quicklist = None, lo_max_listpack_bytes = n\<rparr>"
    unfolding List_new_def by (subst lp(1)) simp
  then show ?thesis using lp(2) n by (simp add: list_holds_def pack_ok_def)
qed

lemma visit_rpush:
  assumes "ql_holds m q xs" "\<forall>y\<in>set ys. length y < 2 ^ 30"
  shows "\<exists>q'. visit rpush_visitor ys (Inr q) = (True, Inr q') \<and> ql_holds m q' (xs @ ys)"
  using assms
proof (induction ys arbitrary: q xs)
  case (Cons y ys)
  obtain q1 where q1: "QuickList_RPush q y = Inr (True, q1)" "ql_holds m q1 (xs @ [y])"
    using RPush_holds [OF Cons.prems(1)] Cons.prems(2) by auto
  then show ?case using Cons.IH [OF q1(2)] Cons.prems(2) by (simp add: rpush_visitor_def)
qed simp

lemma Convert_holds:
  assumes "lo_listpack l = Some lp" "snode lp xs" "\<forall>x\<in>set xs. length x < 2 ^ 30" "lo_max_listpack_bytes l \<le> 2 ^ 30"
  shows "\<exists>q. ConvertListPackToQuickList l = Inr (True, l\<lparr>lo_quicklist := Some q, lo_listpack := None\<rparr>) \<and>
    ql_holds (max (lo_max_listpack_bytes l) 7) q xs"
proof -
  obtain q where "visit rpush_visitor xs (Inr (QuickList_new (lo_max_listpack_bytes l))) = (True, Inr q)"
    "ql_holds (max (lo_max_listpack_bytes l) 7) q xs"
    using visit_rpush [OF new_holds [OF assms(4)] assms(3)] by auto
  then show ?thesis using assms(1,2)
    by (cases xs) (auto simp: ConvertListPackToQuickList_def Let_def snode_ForEach [OF assms(2)])
qed

lemma TryConvert_holds:
  assumes "lo_listpack l = None" "list_holds l xs"
  shows "\<exists>l'. TryConvertQuickListToListPack l = Inr l' \<and> list_holds l' xs"
proof -
  obtain q where q: "lo_quicklist l = Some q" "ql_holds (max (lo_max_listpack_bytes l) 7) q xs" "lo_max_listpack_bytes l \<le> 2 ^ 30"
    using assms by (auto simp: list_holds_def split: option.splits)
  have small: "\<forall>x\<in>set xs. length x < 2 ^ 30" using q(2) by (auto simp: ql_holds_def ql_ok_def qnode_ok_def)
  show ?thesis using q(2)
  proof (cases rule: ReleaseListPack_holds)
    case many
    then show ?thesis using q(1) assms(2) by (simp add: TryConvertQuickListToListPack_def)
  next
    case (one lp q')
    show ?thesis
    proof (cases "nbytes xs > lo_max_listpack_bytes l div 2")
      case True
      then show ?thesis using one q(1) assms(2) by (simp add: TryConvertQuickListToListPack_def)
    next
      case False
      then show ?thesis using one q(1,3) small
        by (simp add: TryConvertQuickListToListPack_def list_holds_def pack_ok_def)
    qed
  qed
qed

lemma quicklist_push_holds:
  assumes "lo_listpack l = None" "list_holds l xs" "length val < 2 ^ 30"
  shows "\<exists>l'. quicklist_push l val head = Inr (True, l') \<and> list_holds l' (if head then val # xs else xs @ [val])"
proof -
  obtain q where q: "lo_quicklist l = Some q" "ql_holds (max (lo_max_listpack_bytes l) 7) q xs" "lo_max_listpack_bytes l \<le> 2 ^ 30"
    using assms by (auto simp: list_holds_def split: option.splits)
  show ?thesis using LPush_holds [OF q(2) assms(3)] RPush_holds [OF q(2) assms(3)] q(1,3) assms(1)
    by (auto simp: quicklist_push_def list_holds_def)
qed

lemma Push_holds:
  assumes "list_holds l xs" "length val < 2 ^ 30"
  shows "\<exists>l'. Push l val head = Inr (True, l') \<and> list_holds l' (if head then val # xs else xs @ [val])"
  using assms(1)
proof (cases rule: list_holds_cases)
  case (quick q)
  then show ?thesis using quicklist_push_holds [OF _ assms] by (simp add: Push_def)
next
  case (pack lp)
  have v: "length val < 2 ^ 31" using assms(2) by simp
  let ?exceeds = "nbytes xs > lo_max_listpack_bytes l \<or> length (enc (entry_of val)) > lo_max_listpack_bytes l - nbytes xs"
  have w: "WouldExceedListpackLimit l val = Inr ?exceeds"
    using pack(1,3) EstimateEntryBytes_exact [OF v] by (simp add: WouldExceedListpackLimit_def Let_def)
  show ?thesis
  proof (cases ?exceeds)
    case True
    obtain q where q: "ConvertListPackToQuickList l = Inr (True, l\<lparr>lo_quicklist := Some q, lo_listpack := None\<rparr>)"
      "ql_holds (max (lo_max_listpack_bytes l) 7) q xs" using Convert_holds [OF pack(1,3,5,6)] by blast
    let ?l = "l\<lparr>lo_quicklist := Some q, lo_listpack := None\<rparr>"
    have "list_holds ?l xs" using q(2) pack(6) by (simp add: list_holds_def)
    then obtain l' where "quicklist_push ?l val head = Inr (True, l')" "list_holds l' (if head then val # xs else xs @ [val])"
      using quicklist_push_holds [of ?l xs val head] assms(2) by auto
    then show ?thesis using True w q(1) pack(1) unfolding Push_def by simp
  next
    case False
    then have b: "nbytes (val # xs) \<le> lo_max_listpack_bytes l" "nbytes (xs @ [val]) \<le> lo_max_listpack_bytes l"
      by (auto simp: nbytes_rotate)
    then have f: "nbytes (val # xs) \<le> UINT32_MAX" "nbytes (xs @ [val]) \<le> UINT32_MAX" using pack(6) by simp_all
    show ?thesis using False w pack(1,5,6) b assms(2) snode_Prepend [OF pack(3) v f(1)] snode_Append [OF pack(3) v f(2)]
      by (auto simp: Push_def list_holds_def pack_ok_def simp del: nbytes_simps)
  qed
qed

lemma pack_ok_shrink:
  "pack_ok m lp xs \<Longrightarrow> snode lp' ys \<Longrightarrow> nbytes ys \<le> nbytes xs \<Longrightarrow> set ys \<subseteq> set xs \<Longrightarrow> pack_ok m lp' ys"
  by (auto simp: pack_ok_def)


lemma Pop_holds:
  assumes "list_holds l xs"
  shows "\<exists>l'. Pop l head = Inr (if xs = [] then None else Some (if head then hd xs else last xs), l') \<and>
    list_holds l' (if head then tl xs else butlast xs)"
  using assms
proof (cases rule: list_holds_cases)
  case (pack lp)
  show ?thesis
  proof (cases "xs = []")
    case True
    then show ?thesis using pack(1,3) assms by (simp add: Pop_def)
  next
    case False
    define k where "k = (if head then 0 else length xs - 1)"
    define ys where "ys = take k xs @ drop (k + 1) xs"
    have k: "k < length xs" using False by (simp add: k_def)
    obtain lp' where lp': "ListPack_Delete lp (lp_off (map entry_of xs) k) = Inr lp'" "snode lp' ys"
      using snode_Delete [OF pack(3) k] by (auto simp: ys_def)
    have ys: "ys = (if head then tl xs else butlast xs)" "xs ! k = (if head then hd xs else last xs)"
      using False by (auto simp: ys_def k_def drop_Suc butlast_conv_take hd_conv_nth last_conv_nth)
    have "set ys \<subseteq> set xs" by (auto simp: ys_def dest: in_set_takeD in_set_dropD)
    then have "pack_ok (lo_max_listpack_bytes l) lp' ys"
      using pack_ok_shrink [OF pack(2) lp'(2)] nbytes_drop_take [of k xs 1] by (simp add: ys_def)
    then have "list_holds (l\<lparr>lo_listpack := Some lp'\<rparr>) ys" using pack(6) by (simp add: list_holds_def)
    moreover have "(if head then ListPack_First lp else ListPack_Last lp) = Inr (Some (lp_off (map entry_of xs) k))"
      using snode_First [OF pack(3)] snode_Last [OF pack(3)] False by (simp add: k_def)
    then have "Pop l head = Inr (Some (xs ! k), l\<lparr>lo_listpack := Some lp'\<rparr>)"
      unfolding Pop_def using False pack(1,3) snode_Get [OF pack(3) k] lp'(1) by simp
    ultimately show ?thesis using False unfolding ys by simp
  qed
next
  case (quick q)
  obtain q' where q': "(if head then QuickList_LPop q else QuickList_RPop q) =
      Inr (if xs = [] then None else Some (if head then hd xs else last xs), q')"
    "ql_holds (max (lo_max_listpack_bytes l) 7) q' (if head then tl xs else butlast xs)"
    using LPop_holds [OF quick(3)] RPop_holds [OF quick(3)] by (cases head) auto
  let ?l = "l\<lparr>lo_quicklist := Some q'\<rparr>"
  have "list_holds ?l (if head then tl xs else butlast xs)" using q'(2) quick(1,4) by (simp add: list_holds_def)
  then obtain l' where "TryConvertQuickListToListPack ?l = Inr l'" "list_holds l' (if head then tl xs else butlast xs)"
    using TryConvert_holds [of ?l] quick(1) by auto
  then show ?thesis using q'(1) quick(1,2) unfolding Pop_def by simp
qed

lemma List_Set_holds:
  assumes "list_holds l xs" "length val < 2 ^ 30"
  shows "\<exists>l'. List_Set l index val = Inr (index < length xs, l') \<and> list_holds l' (xs[index := val])"
proof (cases "index < length xs")
  case False
  then show ?thesis using List_Size_holds [OF assms(1)] assms(1) by (simp add: List_Set_def list_update_beyond)
next
  case True
  show ?thesis using assms(1)
  proof (cases rule: list_holds_cases)
    case (quick q)
    then show ?thesis using True List_Size_holds [OF assms(1)] Set_holds [OF quick(3) assms(2), of index]
      by (auto simp: List_Set_def list_holds_def)
  next
    case (pack lp)
    let ?ys = "xs[index := val]"
    have v: "length val < 2 ^ 31" "nbytes ?ys \<le> UINT32_MAX"
      using nbytes_update [OF True, of val] pack(4) length_enc_entry_of [of val] assms(2) by simp_all
    obtain lp' where lp': "ListPack_Replace lp (lp_off (map entry_of xs) index) val = Inr (True, lp')" "snode lp' ?ys"
      using snode_Replace [OF pack(3) True v] by blast
    let ?l = "l\<lparr>lo_listpack := Some lp'\<rparr>"
    have small: "\<forall>x\<in>set ?ys. length x < 2 ^ 30" using pack(5) assms(2) set_update_subset_insert [of xs index val] by auto
    have eq: "List_Set l index val =
        (if nbytes ?ys > lo_max_listpack_bytes l then ConvertListPackToQuickList ?l else Inr (True, ?l))"
      using True List_Size_holds [OF assms(1)] pack(1) snode_IndexAt [OF pack(3), of index] lp'
      by (simp add: List_Set_def)
    show ?thesis
    proof (cases "nbytes ?ys > lo_max_listpack_bytes l")
      case exceeds: True
      obtain q where "ConvertListPackToQuickList ?l = Inr (True, ?l\<lparr>lo_quicklist := Some q, lo_listpack := None\<rparr>)"
        "ql_holds (max (lo_max_listpack_bytes l) 7) q ?ys" using Convert_holds [OF _ lp'(2) small, of ?l] pack(6) by auto
      then show ?thesis using True exceeds eq pack(6) by (auto simp: list_holds_def)
    next
      case False
      then show ?thesis using True eq pack(6) lp'(2) small by (simp add: list_holds_def pack_ok_def)
    qed
  qed
qed

lemma List_Remove_holds:
  assumes "list_holds l xs"
  shows "\<exists>l'. List_Remove l val limit direction =
      Inr (Some (length xs - length (remove_strs val limit (direction = kListFromTail) xs)), l') \<and>
    list_holds l' (remove_strs val limit (direction = kListFromTail) xs)"
proof (cases "xs = []")
  case True
  then have "remove_strs val limit (direction = kListFromTail) xs = []" by (simp add: remove_strs_def remove_last_def)
  then show ?thesis using True List_Size_holds [OF assms] assms by (simp add: List_Remove_def)
next
  case False
  let ?ys = "remove_strs val limit (direction = kListFromTail) xs"
  show ?thesis using assms
  proof (cases rule: list_holds_cases)
    case (quick q)
    have "(ToQuickListRemoveDirection direction = kFromTail) = (direction = kListFromTail)"
      by (cases direction) (simp_all add: ToQuickListRemoveDirection_def)
    then obtain q' where "QuickList_Remove q val limit (ToQuickListRemoveDirection direction) =
        Inr (Some (length xs - length ?ys), q')" "ql_holds (max (lo_max_listpack_bytes l) 7) q' ?ys"
      using Remove_holds [OF quick(3), of val limit "ToQuickListRemoveDirection direction"] by auto
    then show ?thesis using False quick List_Size_holds [OF assms] by (simp add: List_Remove_def list_holds_def)
  next
    case (pack lp)
    obtain lp' where lp': "ListPack_DeleteMatching lp val limit (direction = kListFromTail) = Inr (length xs - length ?ys, lp')"
      "snode lp' ?ys" using snode_DeleteMatching [OF pack(3)] by blast
    have "pack_ok (lo_max_listpack_bytes l) lp' ?ys"
      using pack_ok_shrink [OF pack(2) lp'(2)] remove_strs_shrink by blast
    then show ?thesis using False pack(1,6) lp'(1) List_Size_holds [OF assms]
      by (simp add: List_Remove_def RemoveFromListPack_def list_holds_def)
  qed
qed

lemma TrimListPack_holds:
  assumes "lo_listpack l = Some lp" "list_holds l xs" "start \<le> stop" "stop < length xs"
  shows "\<exists>l'. TrimListPack l start stop = Inr l' \<and> list_holds l' (drop start (take (Suc stop) xs))"
proof -
  have pk: "snode lp xs" "pack_ok (lo_max_listpack_bytes l) lp xs" "lo_max_listpack_bytes l \<le> 2 ^ 30"
    using assms(1,2) by (simp_all add: list_holds_def pack_ok_def)
  let ?ys = "take (Suc stop) xs"
  have "\<exists>lp1. (case if Suc stop < length xs then Some (lp_off (map entry_of xs) (Suc stop)) else None of None \<Rightarrow> Inr lp
      | Some i \<Rightarrow> bindE (ListPack_DeleteRange lp i (length xs - stop - 1)) (\<lambda>(_, lp). Inr lp)) = Inr lp1 \<and> snode lp1 ?ys"
  proof (cases "Suc stop < length xs")
    case True
    then show ?thesis using snode_DeleteRange [OF pk(1) True, of "length xs - stop - 1"] by auto
  next
    case False
    then show ?thesis using pk(1) by simp
  qed
  then obtain lp1 where lp1: "(case if Suc stop < length xs then Some (lp_off (map entry_of xs) (Suc stop)) else None of None \<Rightarrow> Inr lp
      | Some i \<Rightarrow> bindE (ListPack_DeleteRange lp i (length xs - stop - 1)) (\<lambda>(_, lp). Inr lp)) = Inr lp1" "snode lp1 ?ys" by blast
  have ne: "?ys \<noteq> []" using assms(4) by auto
  obtain n lp2 where lp2: "ListPack_DeleteRange lp1 (lp_off (map entry_of ?ys) 0) start = Inr (n, lp2)" "snode lp2 (drop start ?ys)"
    using snode_DeleteRange [OF lp1(2), of 0 start] ne by auto
  have "nbytes (drop start ?ys) \<le> nbytes xs"
    using nbytes_drop_take [of 0 ?ys start] nbytes_drop_take [of "Suc stop" xs "length xs"] by simp
  moreover have "set (drop start ?ys) \<subseteq> set xs" by (auto dest: in_set_takeD in_set_dropD)
  ultimately have "pack_ok (lo_max_listpack_bytes l) lp2 (drop start ?ys)" using pack_ok_shrink [OF pk(2) lp2(2)] by blast
  then have "list_holds (l\<lparr>lo_listpack := Some lp2\<rparr>) (drop start ?ys)" using pk(3) by (simp add: list_holds_def)
  moreover have "TrimListPack l start stop = Inr (l\<lparr>lo_listpack := Some lp2\<rparr>)"
    unfolding TrimListPack_def assms(1) deref_Some bindE_Inr snode_size [OF pk(1)] Let_def
      snode_IndexAt [OF pk(1)] Suc_eq_plus1 [symmetric] lp1(1) snode_First [OF lp1(2)]
    using ne lp2(1) by simp
  ultimately show ?thesis by blast
qed

lemma List_Trim_holds:
  assumes "list_holds l xs"
  shows "\<exists>l'. List_Trim l start stop = Inr (True, l') \<and> list_holds l' (drop start (take (Suc stop) xs))"
proof -
  note sz = List_Size_holds [OF assms]
  have mx: "lo_max_listpack_bytes l \<le> 2 ^ 30" using assms by (simp add: list_holds_def)
  show ?thesis
  proof (cases "xs = [] \<or> start > stop \<or> start \<ge> length xs")
    case True
    obtain r where r: "List_new (lo_max_listpack_bytes l) = Inr r" "list_holds r []"
      "lo_max_listpack_bytes r = lo_max_listpack_bytes l" using List_new_holds [OF mx] by blast
    then have "list_holds (snd (AdoptReplacement l r)) []"
      by (auto simp: AdoptReplacement_def list_holds_def split: option.splits)
    moreover have "drop start (take (Suc stop) xs) = []" using True by auto
    ultimately show ?thesis using True sz r(1) by (auto simp: List_Trim_def AdoptReplacement_def)
  next
    case False
    define st where "st = min stop (length xs - 1)"
    have st: "start \<le> st" "st < length xs" "take (Suc st) xs = take (Suc stop) xs"
      using False take_min [of start xs stop] by (auto simp: st_def min_def)
    have eq: "List_Trim l start stop = (if start = 0 \<and> st = length xs - 1 then Inr (True, l)
       else if lo_listpack l \<noteq> None then bindE (TrimListPack l start st) (\<lambda>l. Inr (True, l))
       else bindE (deref (lo_quicklist l)) (\<lambda>q.
         bindE (QuickList_Trim q start st) (\<lambda>(b, q). Inr (b, l\<lparr>lo_quicklist := Some q\<rparr>))))"
      unfolding List_Trim_def sz bindE_Inr Let_def st_def [symmetric] using False by simp
    show ?thesis
    proof (cases "start = 0 \<and> st = length xs - 1")
      case True
      then have "Suc st = length xs" using st(2) by linarith
      then have "drop start (take (Suc stop) xs) = xs" using True unfolding st(3) [symmetric] by simp
      then show ?thesis using True eq assms by simp
    next
      case part: False
      show ?thesis using assms
      proof (cases rule: list_holds_cases)
        case (pack lp)
        then show ?thesis using part eq TrimListPack_holds [OF pack(1) assms st(1,2)] st(3) by auto
      next
        case (quick q)
        then show ?thesis using part eq Trim_holds [OF quick(3), of start st] st(3) by (auto simp: list_holds_def)
      qed
    qed
  qed
qed

lemma list_apply_holds:
  assumes "list_holds l xs" "op_ok c"
  shows "\<exists>l'. list_apply c l = Inr (fst (spec_apply c xs), l') \<and> list_holds l' (snd (spec_apply c xs))"
proof (cases c)
  case (OpPush val head)
  obtain l' where "Push l val head = Inr (True, l')" "list_holds l' (if head then val # xs else xs @ [val])"
    using Push_holds [OF assms(1), of val head] assms(2) OpPush by (metis op_ok.simps(1))
  then show ?thesis using OpPush by (cases head) (simp_all add: List_LPush_def List_RPush_def)
next
  case (OpPop head)
  obtain l' where "Pop l head = Inr (if xs = [] then None else Some (if head then hd xs else last xs), l')"
    "list_holds l' (if head then tl xs else butlast xs)" using Pop_holds [OF assms(1)] by blast
  then show ?thesis using OpPop by (cases head) (simp_all add: List_LPop_def List_RPop_def)
next
  case (OpSet index val)
  obtain l' where "List_Set l index val = Inr (index < length xs, l')" "list_holds l' (xs[index := val])"
    using List_Set_holds [OF assms(1), of val index] assms(2) OpSet by (metis op_ok.simps(2))
  then show ?thesis using OpSet by simp
next
  case (OpRemove val limit direction)
  obtain l' where "List_Remove l val limit direction =
      Inr (Some (length xs - length (remove_strs val limit (direction = kListFromTail) xs)), l')"
    "list_holds l' (remove_strs val limit (direction = kListFromTail) xs)"
    using List_Remove_holds [OF assms(1)] by blast
  then show ?thesis using OpRemove by (simp add: Let_def)
next
  case (OpTrim start stop)
  obtain l' where "List_Trim l start stop = Inr (True, l')" "list_holds l' (drop start (take (Suc stop) xs))"
    using List_Trim_holds [OF assms(1)] by blast
  then show ?thesis using OpTrim by simp
qed

lemma list_run_holds:
  "list_holds l xs \<Longrightarrow> list_all op_ok cs \<Longrightarrow>
   \<exists>l'. list_run cs l = Inr (fst (spec_run cs xs), l') \<and> list_holds l' (snd (spec_run cs xs))"
proof (induction cs arbitrary: l xs)
  case (Cons c cs)
  obtain l1 where l1: "list_apply c l = Inr (fst (spec_apply c xs), l1)" "list_holds l1 (snd (spec_apply c xs))"
    using list_apply_holds [OF Cons.prems(1)] Cons.prems(2) by auto
  obtain l2 where "list_run cs l1 = Inr (fst (spec_run cs (snd (spec_apply c xs))), l2)"
    "list_holds l2 (snd (spec_run cs (snd (spec_apply c xs))))" using Cons.IH [OF l1(2)] Cons.prems(2) by auto
  then show ?case using l1(1) by (simp add: case_prod_beta)
qed simp

section \<open>Properties\<close>



end
