(* ===== verification/List_Commands.thy ===== *)
theory List_Commands
  imports Command_Env List_Type
begin

text \<open>
  The list commands, \<open>src/server/commands/list/list.cpp\<close>, over the list type and the database.  A
  list found in the database is changed in place: the new value of the object is stored under its
  key.
\<close>

section \<open>Definitions\<close>

datatype PushSide = kPushLeft | kPushRight

datatype PopSide = kPopLeft | kPopRight

datatype ListStatus = kListOk | kListMissing | kListWrongType | kListError

definition List_ParseKeyArgs :: "string list \<Rightarrow> string option" where
  "List_ParseKeyArgs args = (case args of [key] \<Rightarrow> Some key | _ \<Rightarrow> None)"

definition ParseRangeArgs :: "string list \<Rightarrow> (string \<times> int \<times> int) option" where
  "ParseRangeArgs args =
     (if length args \<noteq> 3 then None
      else case ToInt64 (args ! 1) of
          None \<Rightarrow> None
        | Some start \<Rightarrow> (case ToInt64 (args ! 2) of None \<Rightarrow> None | Some stop \<Rightarrow> Some (args ! 0, start, stop)))"

definition ParseIndexArgs :: "string list \<Rightarrow> (string \<times> int) option" where
  "ParseIndexArgs args =
     (if length args \<noteq> 2 then None
      else case ToInt64 (args ! 1) of None \<Rightarrow> None | Some index \<Rightarrow> Some (args ! 0, index))"

definition ParseSetArgs :: "string list \<Rightarrow> (string \<times> int \<times> string) option" where
  "ParseSetArgs args =
     (if length args \<noteq> 3 then None
      else case ToInt64 (args ! 1) of None \<Rightarrow> None | Some index \<Rightarrow> Some (args ! 0, index, args ! 2))"

definition ParseRemoveArgs :: "string list \<Rightarrow> (string \<times> int \<times> string) option" where
  "ParseRemoveArgs args =
     (if length args \<noteq> 3 then None
      else case ToInt64 (args ! 1) of None \<Rightarrow> None | Some limit \<Rightarrow> Some (args ! 0, limit, args ! 2))"

text \<open>\<open>FindList\<close> and \<open>FindMutableList\<close> differ in the type of the pointer only.\<close>

definition FindList :: "server_env \<Rightarrow> ('s, list_obj, 'z, 'h) redis_object redis_db \<Rightarrow> string
    \<Rightarrow> ((list_obj option \<times> ListStatus) \<times> ('s, list_obj, 'z, 'h) redis_object redis_db) res" where
  "FindList env db key = (case LookupKey (key_hash env) (clock env 0) db key of
     (None, db) \<Rightarrow> Inr ((None, kListMissing), db)
   | (Some ob, db) \<Rightarrow>
       if RedisObject_Type ob \<noteq> kList then Inr ((None, kListWrongType), db)
       else bindE (RedisObject_List ob) (\<lambda>l. Inr ((Some l, kListOk), db)))"

definition NormalizeIndex :: "int \<Rightarrow> nat \<Rightarrow> nat option" where
  "NormalizeIndex index n =
     (if n = 0 then None
      else let list_size = int n; index = (if index < 0 then index + list_size else index) in
        if index < 0 \<or> index \<ge> list_size then None else Some (nat index))"

definition FindOrCreateList :: "server_env \<Rightarrow> ('s, list_obj, 'z, 'h) redis_object redis_db \<Rightarrow> string
    \<Rightarrow> ((list_obj option \<times> ListStatus) \<times> ('s, list_obj, 'z, 'h) redis_object redis_db) res" where
  "FindOrCreateList env db key = bindE (FindList env db key) (\<lambda>((l, status), db).
     if status \<noteq> kListMissing then Inr ((l, status), db)
     else bindE (List_new kDefaultNodeMaxBytes) (\<lambda>l.
       case SetKey (key_hash env) db key (Some (List_value l)) 0 False of (st, db) \<Rightarrow>
         if st = DbStatus.kError then Inr ((None, kListError), db) else Inr ((Some l, kListOk), db)))"

definition NormalizeRange :: "int \<Rightarrow> int \<Rightarrow> nat \<Rightarrow> (nat \<times> nat) option" where
  "NormalizeRange start stop n =
     (if n = 0 then None
      else let list_size = int n;
               start = (if start < 0 then start + list_size else start);
               stop = (if stop < 0 then stop + list_size else stop);
               start = max start 0;
               stop = min stop (list_size - 1) in
        if start > stop \<or> start \<ge> list_size then None else Some (nat start, nat stop))"

definition NormalizeRemoveCount :: "int \<Rightarrow> nat \<times> ListRemoveDirection" where
  "NormalizeRemoveCount n =
     (if n = 0 then (0, kListFromHead)
      else if n > 0 then (nat n, kListFromHead)
      else if n = INT64_MIN then (SIZE_MAX, kListFromTail)
      else (nat (- n), kListFromTail))"

text \<open>The second component is false when a push failed, which ends the loop.\<close>

fun Push_loop :: "PushSide \<Rightarrow> string list \<Rightarrow> list_obj \<Rightarrow> (bool \<times> list_obj) res" where
  "Push_loop side [] l = Inr (True, l)"
| "Push_loop side (val # vals) l =
     bindE (if side = kPushLeft then List_LPush l val else List_RPush l val) (\<lambda>(pushed, l).
       if \<not> pushed then Inr (False, l) else Push_loop side vals l)"

definition Push_command :: "server_env \<Rightarrow> ('s, list_obj, 'z, 'h) redis_object redis_db \<Rightarrow> string list \<Rightarrow> PushSide
    \<Rightarrow> (int option \<times> ('s, list_obj, 'z, 'h) redis_object redis_db) res" where
  "Push_command env db args side = bindE (FindOrCreateList env db (args ! 0)) (\<lambda>((l, status), db).
     if status \<noteq> kListOk then Inr (None, db)
     else bindE (deref l) (\<lambda>l. bindE (Push_loop side (drop 1 args) l) (\<lambda>(pushed, l).
       let db = StoreObject env db (args ! 0) (List_value l) in
       if \<not> pushed then Inr (None, db)
       else bindE (List_Size l) (\<lambda>n. Inr (ToReplyInteger n, db)))))"

definition Pop_command :: "server_env \<Rightarrow> ('s, list_obj, 'z, 'h) redis_object redis_db \<Rightarrow> string \<Rightarrow> PopSide
    \<Rightarrow> ((string option \<times> ListStatus) \<times> ('s, list_obj, 'z, 'h) redis_object redis_db) res" where
  "Pop_command env db key side = bindE (FindList env db key) (\<lambda>((l, status), db).
     if status = kListMissing then Inr ((None, kListMissing), db)
     else if status \<noteq> kListOk then Inr ((None, status), db)
     else bindE (deref l) (\<lambda>l. bindE (if side = kPopLeft then List_LPop l else List_RPop l) (\<lambda>(val, l).
       bindE (List_Size l) (\<lambda>n.
         let db = StoreObject env db key (List_value l);
             db = (if n = 0 then snd (DeleteKey (key_hash env) db key) else db) in
         Inr ((val, kListOk), db)))))"

definition LLen :: "server_env \<Rightarrow> ('s, list_obj, 'z, 'h) redis_object redis_db \<Rightarrow> string
    \<Rightarrow> (int option \<times> ('s, list_obj, 'z, 'h) redis_object redis_db) res" where
  "LLen env db key = bindE (FindList env db key) (\<lambda>((l, status), db).
     if status = kListMissing then Inr (Some 0, db)
     else if status \<noteq> kListOk then Inr (None, db)
     else bindE (deref l) (\<lambda>l. bindE (List_Size l) (\<lambda>n. Inr (ToReplyInteger n, db))))"

definition LRange :: "server_env \<Rightarrow> ('s, list_obj, 'z, 'h) redis_object redis_db \<Rightarrow> string \<times> int \<times> int
    \<Rightarrow> (string option \<times> ('s, list_obj, 'z, 'h) redis_object redis_db) res" where
  "LRange env db a = (case a of (key, start, stop) \<Rightarrow> bindE (FindList env db key) (\<lambda>((l, status), db).
     if status = kListMissing then Inr (Some (FromArrayHeader 0), db)
     else if status \<noteq> kListOk then Inr (None, db)
     else bindE (deref l) (\<lambda>l. bindE (List_Size l) (\<lambda>n.
       case NormalizeRange start stop n of
         None \<Rightarrow> Inr (Some (FromArrayHeader 0), db)
       | Some (range_start, range_stop) \<Rightarrow>
           bindE (List_ForEach l range_start range_stop (\<lambda>val encoded. (True, AppendBulkString val encoded))
               (FromArrayHeader (range_stop - range_start + 1)))
             (\<lambda>(_, encoded). Inr (Some encoded, db))))))"

definition LIndex :: "server_env \<Rightarrow> ('s, list_obj, 'z, 'h) redis_object redis_db \<Rightarrow> string \<times> int
    \<Rightarrow> ((string option \<times> ListStatus) \<times> ('s, list_obj, 'z, 'h) redis_object redis_db) res" where
  "LIndex env db a = (case a of (key, index) \<Rightarrow> bindE (FindList env db key) (\<lambda>((l, status), db).
     if status = kListMissing then Inr ((None, kListMissing), db)
     else if status \<noteq> kListOk then Inr ((None, status), db)
     else bindE (deref l) (\<lambda>l. bindE (List_Size l) (\<lambda>n.
       bindE (case NormalizeIndex index n of Some i \<Rightarrow> List_At l i | None \<Rightarrow> Inr None) (\<lambda>val.
         Inr ((val, kListOk), db))))))"

definition LSet :: "server_env \<Rightarrow> ('s, list_obj, 'z, 'h) redis_object redis_db \<Rightarrow> string \<times> int \<times> string
    \<Rightarrow> (ListStatus \<times> ('s, list_obj, 'z, 'h) redis_object redis_db) res" where
  "LSet env db a = (case a of (key, index, val) \<Rightarrow> bindE (FindList env db key) (\<lambda>((l, status), db).
     if status \<noteq> kListOk then Inr (status, db)
     else bindE (deref l) (\<lambda>l. bindE (List_Size l) (\<lambda>n.
       case NormalizeIndex index n of
         None \<Rightarrow> Inr (kListError, db)
       | Some i \<Rightarrow> bindE (List_Set l i val) (\<lambda>(b, l).
           Inr (if b then kListOk else kListError, StoreObject env db key (List_value l)))))))"

definition LRem :: "server_env \<Rightarrow> ('s, list_obj, 'z, 'h) redis_object redis_db \<Rightarrow> string \<times> int \<times> string
    \<Rightarrow> (int option \<times> ('s, list_obj, 'z, 'h) redis_object redis_db) res" where
  "LRem env db a = (case a of (key, n, val) \<Rightarrow> bindE (FindList env db key) (\<lambda>((l, status), db).
     if status = kListMissing then Inr (Some 0, db)
     else if status \<noteq> kListOk then Inr (None, db)
     else bindE (deref l) (\<lambda>l. case NormalizeRemoveCount n of (limit, direction) \<Rightarrow>
       bindE (List_Remove l val limit direction) (\<lambda>(removed, l).
         let db = StoreObject env db key (List_value l) in
         case removed of
           None \<Rightarrow> Inr (None, db)
         | Some r \<Rightarrow> bindE (List_Size l) (\<lambda>n.
             Inr (ToReplyInteger r, if n = 0 then snd (DeleteKey (key_hash env) db key) else db))))))"

definition LTrim :: "server_env \<Rightarrow> ('s, list_obj, 'z, 'h) redis_object redis_db \<Rightarrow> string \<times> int \<times> int
    \<Rightarrow> (ListStatus \<times> ('s, list_obj, 'z, 'h) redis_object redis_db) res" where
  "LTrim env db a = (case a of (key, start, stop) \<Rightarrow> bindE (FindList env db key) (\<lambda>((l, status), db).
     if status = kListMissing then Inr (kListOk, db)
     else if status \<noteq> kListOk then Inr (status, db)
     else bindE (deref l) (\<lambda>l. bindE (List_Size l) (\<lambda>n.
       bindE (case NormalizeRange start stop n of
           Some (range_start, range_stop) \<Rightarrow> List_Trim l range_start range_stop
         | None \<Rightarrow> List_Trim l 1 0) (\<lambda>(b, l).
         let db = StoreObject env db key (List_value l) in
         if \<not> b then Inr (kListError, db)
         else bindE (List_Size l) (\<lambda>n.
           Inr (kListOk, if n = 0 then snd (DeleteKey (key_hash env) db key) else db)))))))"

definition HandlePush :: "PushSide \<Rightarrow> server_env \<Rightarrow> ProtocolVersion \<Rightarrow> string list
    \<Rightarrow> ('s, list_obj, 'z, 'h) redis_object redis_db option \<Rightarrow> ('s, list_obj, 'z, 'h) redis_object handled" where
  "HandlePush side env p args redis_db =
     (if length args < 2 then Inr (reply env WrongNumberOfArguments, redis_db)
      else with_db env redis_db (\<lambda>db. bindE (Push_command env db args side) (\<lambda>(result, db).
        Inr ((if result \<noteq> None then [MarkModified] else []) @ integer_reply env result, db))))"

definition HandlePop :: "PopSide \<Rightarrow> server_env \<Rightarrow> ProtocolVersion \<Rightarrow> string list
    \<Rightarrow> ('s, list_obj, 'z, 'h) redis_object redis_db option \<Rightarrow> ('s, list_obj, 'z, 'h) redis_object handled" where
  "HandlePop side env p args redis_db = (case List_ParseKeyArgs args of
     None \<Rightarrow> Inr (reply env WrongNumberOfArguments, redis_db)
   | Some key \<Rightarrow> with_db env redis_db (\<lambda>db. bindE (Pop_command env db key side) (\<lambda>((val, status), db).
       Inr (if status \<noteq> kListOk \<and> status \<noteq> kListMissing then reply env WrongTypeError
         else case val of
             Some v \<Rightarrow> MarkModified # reply env (FromBulkString v)
           | None \<Rightarrow> reply env (Null p), db))))"

definition HandleLPush :: "server_env \<Rightarrow> ProtocolVersion \<Rightarrow> string list
    \<Rightarrow> ('s, list_obj, 'z, 'h) redis_object redis_db option \<Rightarrow> ('s, list_obj, 'z, 'h) redis_object handled" where
  "HandleLPush = HandlePush kPushLeft"

definition HandleRPush :: "server_env \<Rightarrow> ProtocolVersion \<Rightarrow> string list
    \<Rightarrow> ('s, list_obj, 'z, 'h) redis_object redis_db option \<Rightarrow> ('s, list_obj, 'z, 'h) redis_object handled" where
  "HandleRPush = HandlePush kPushRight"

definition HandleLPop :: "server_env \<Rightarrow> ProtocolVersion \<Rightarrow> string list
    \<Rightarrow> ('s, list_obj, 'z, 'h) redis_object redis_db option \<Rightarrow> ('s, list_obj, 'z, 'h) redis_object handled" where
  "HandleLPop = HandlePop kPopLeft"

definition HandleRPop :: "server_env \<Rightarrow> ProtocolVersion \<Rightarrow> string list
    \<Rightarrow> ('s, list_obj, 'z, 'h) redis_object redis_db option \<Rightarrow> ('s, list_obj, 'z, 'h) redis_object handled" where
  "HandleRPop = HandlePop kPopRight"

definition HandleLLen :: "server_env \<Rightarrow> ProtocolVersion \<Rightarrow> string list
    \<Rightarrow> ('s, list_obj, 'z, 'h) redis_object redis_db option \<Rightarrow> ('s, list_obj, 'z, 'h) redis_object handled" where
  "HandleLLen env p args redis_db = (case List_ParseKeyArgs args of
     None \<Rightarrow> Inr (reply env WrongNumberOfArguments, redis_db)
   | Some key \<Rightarrow> with_db env redis_db (\<lambda>db. bindE (LLen env db key) (\<lambda>(result, db).
       Inr (integer_reply env result, db))))"

definition HandleLRange :: "server_env \<Rightarrow> ProtocolVersion \<Rightarrow> string list
    \<Rightarrow> ('s, list_obj, 'z, 'h) redis_object redis_db option \<Rightarrow> ('s, list_obj, 'z, 'h) redis_object handled" where
  "HandleLRange env p args redis_db = (case ParseRangeArgs args of
     None \<Rightarrow> Inr (reply env WrongNumberOfArguments, redis_db)
   | Some a \<Rightarrow> with_db env redis_db (\<lambda>db. bindE (LRange env db a) (\<lambda>(result, db).
       Inr (encoded_reply env result, db))))"

definition HandleLIndex :: "server_env \<Rightarrow> ProtocolVersion \<Rightarrow> string list
    \<Rightarrow> ('s, list_obj, 'z, 'h) redis_object redis_db option \<Rightarrow> ('s, list_obj, 'z, 'h) redis_object handled" where
  "HandleLIndex env p args redis_db = (case ParseIndexArgs args of
     None \<Rightarrow> Inr (reply env WrongNumberOfArguments, redis_db)
   | Some a \<Rightarrow> with_db env redis_db (\<lambda>db. bindE (LIndex env db a) (\<lambda>((val, status), db).
       Inr (reply env (if status = kListWrongType then WrongTypeError
         else case val of Some v \<Rightarrow> FromBulkString v | None \<Rightarrow> Null p), db))))"

definition HandleLSet :: "server_env \<Rightarrow> ProtocolVersion \<Rightarrow> string list
    \<Rightarrow> ('s, list_obj, 'z, 'h) redis_object redis_db option \<Rightarrow> ('s, list_obj, 'z, 'h) redis_object handled" where
  "HandleLSet env p args redis_db = (case ParseSetArgs args of
     None \<Rightarrow> Inr (reply env WrongNumberOfArguments, redis_db)
   | Some a \<Rightarrow> with_db env redis_db (\<lambda>db. bindE (LSet env db a) (\<lambda>(status, db).
       Inr (if status = kListOk then MarkModified # reply env (FromString ''OK'')
         else if status = kListWrongType then reply env WrongTypeError
         else reply env (FromError ''ERR index out of range''), db))))"

definition HandleLRem :: "server_env \<Rightarrow> ProtocolVersion \<Rightarrow> string list
    \<Rightarrow> ('s, list_obj, 'z, 'h) redis_object redis_db option \<Rightarrow> ('s, list_obj, 'z, 'h) redis_object handled" where
  "HandleLRem env p args redis_db = (case ParseRemoveArgs args of
     None \<Rightarrow> Inr (reply env WrongNumberOfArguments, redis_db)
   | Some a \<Rightarrow> with_db env redis_db (\<lambda>db. bindE (LRem env db a) (\<lambda>(removed, db).
       Inr ((case removed of Some n \<Rightarrow> if n > 0 then [MarkModified] else [] | None \<Rightarrow> []) @
         integer_reply env removed, db))))"

definition HandleLTrim :: "server_env \<Rightarrow> ProtocolVersion \<Rightarrow> string list
    \<Rightarrow> ('s, list_obj, 'z, 'h) redis_object redis_db option \<Rightarrow> ('s, list_obj, 'z, 'h) redis_object handled" where
  "HandleLTrim env p args redis_db = (case ParseRangeArgs args of
     None \<Rightarrow> Inr (reply env WrongNumberOfArguments, redis_db)
   | Some a \<Rightarrow> with_db env redis_db (\<lambda>db. bindE (LTrim env db a) (\<lambda>(status, db).
       Inr (if status = kListOk then MarkModified # reply env (FromString ''OK'')
         else if status = kListWrongType then reply env WrongTypeError
         else reply env (FromError ''ERR list trim failed''), db))))"

section \<open>Lemmas\<close>

text \<open>The key holds a list with these elements, or nothing, the empty list.\<close>

definition list_at :: "int \<Rightarrow> ('s, list_obj, 'z, 'h) redis_object redis_db \<Rightarrow> string \<Rightarrow> string list \<Rightarrow> bool" where
  "list_at now db key xs \<longleftrightarrow> (case visible now db key of
     None \<Rightarrow> xs = []
   | Some (List_value l) \<Rightarrow> list_holds l xs
   | Some _ \<Rightarrow> False)"

lemma FindList_cases:
  assumes ok: "Db_Refinement.db_ok (key_hash env) db" and at: "list_at (clock env 0) db key xs"
  obtains (missing) db' where "FindList env db key = Inr ((None, kListMissing), db')" "xs = []"
      "Db_Refinement.db_ok (key_hash env) db'"
  | (found) l db' where "FindList env db key = Inr ((Some l, kListOk), db')" "list_holds l xs"
      "Db_Refinement.db_ok (key_hash env) db'" "objects db' key \<noteq> None"
  using ok
proof (cases rule: LookupKey_cases [where now = "clock env 0" and key = key])
  case (missing db')
  have "xs = []" using at missing(2) by (simp add: list_at_def)
  moreover have "FindList env db key = Inr ((None, kListMissing), db')" using missing(1) by (simp add: FindList_def)
  ultimately show thesis using that(1) missing(4) by blast
next
  case (found ob db')
  obtain l where l: "ob = List_value l" "list_holds l xs"
    using at found(2) by (cases ob) (simp_all add: list_at_def)
  have f: "FindList env db key = Inr ((Some l, kListOk), db')"
    using found(1) l(1) by (simp add: FindList_def RedisObject_Type_def RedisObject_List_def)
  have "objects db' key \<noteq> None" using found(5,7) by simp
  then show thesis using that(2) [OF f l(2) found(4)] by blast
qed

lemma FindOrCreateList_ok:
  assumes ok: "Db_Refinement.db_ok (key_hash env) db" and at: "list_at (clock env 0) db key xs"
  shows "\<exists>l db'. FindOrCreateList env db key = Inr ((Some l, kListOk), db') \<and> list_holds l xs \<and>
    Db_Refinement.db_ok (key_hash env) db' \<and> objects db' key \<noteq> None"
  using ok at
proof (cases rule: FindList_cases)
  case (missing db')
  obtain l where l: "List_new kDefaultNodeMaxBytes = Inr l" "list_holds l []"
    using List_new_holds [of kDefaultNodeMaxBytes] by (auto simp: kDefaultNodeMaxBytes_def)
  obtain st db1 where s: "SetKey (key_hash env) db' key (Some (List_value l)) 0 False = (st, db1)" by fastforce
  have t: "st = DbStatus.kOk" "Db_Refinement.db_ok (key_hash env) db1" "objects db1 key \<noteq> None"
    using SetKey_ok [OF missing(3) s] by (simp_all add: db_to_def)
  have "FindOrCreateList env db key = Inr ((Some l, kListOk), db1)"
    unfolding FindOrCreateList_def missing(1) l(1) using s t(1) by simp
  then show ?thesis using t l(2) missing(2) by blast
next
  case (found l db')
  then show ?thesis by (simp add: FindOrCreateList_def)
qed

definition push_all :: "PushSide \<Rightarrow> string list \<Rightarrow> string list \<Rightarrow> string list" where
  "push_all side vals xs = (if side = kPushLeft then rev vals @ xs else xs @ vals)"

lemma Push_loop_ok:
  assumes "list_holds l xs" "\<forall>v\<in>set vals. length v < 2 ^ 30"
  shows "\<exists>l'. Push_loop side vals l = Inr (True, l') \<and> list_holds l' (push_all side vals xs)"
  using assms
proof (induction vals arbitrary: l xs)
  case (Cons v vals)
  obtain l1 where l1: "Push l v (side = kPushLeft) = Inr (True, l1)"
    "list_holds l1 (if side = kPushLeft then v # xs else xs @ [v])"
    using Push_holds [OF Cons.prems(1), of v "side = kPushLeft"] Cons.prems(2) by auto
  obtain l' where l': "Push_loop side vals l1 = Inr (True, l')"
    "list_holds l' (push_all side vals (if side = kPushLeft then v # xs else xs @ [v]))"
    using Cons.IH [OF l1(2)] Cons.prems(2) by auto
  have "Push_loop side (v # vals) l = Push_loop side vals l1"
    using l1(1) by (cases side) (simp_all add: List_LPush_def List_RPush_def)
  then show ?case using l' by (cases side) (simp_all add: push_all_def)
qed (simp add: push_all_def)

lemma Push_command_ok:
  assumes ok: "Db_Refinement.db_ok (key_hash env) db" and at: "list_at (clock env 0) db key xs"
    and v: "\<forall>v\<in>set vals. length v < 2 ^ 30" and n: "int (length xs + length vals) \<le> INT64_MAX"
  shows "\<exists>db'. Push_command env db (key # vals) side = Inr (Some (int (length xs + length vals)), db') \<and>
    Db_Refinement.db_ok (key_hash env) db' \<and>
    (\<forall>now. \<not> expired now db' key \<longrightarrow> list_at now db' key (push_all side vals xs))"
proof -
  obtain l db1 where f: "FindOrCreateList env db key = Inr ((Some l, kListOk), db1)" "list_holds l xs"
    "Db_Refinement.db_ok (key_hash env) db1" "objects db1 key \<noteq> None" using FindOrCreateList_ok [OF ok at] by blast
  obtain l' where l': "Push_loop side vals l = Inr (True, l')" "list_holds l' (push_all side vals xs)"
    using Push_loop_ok [OF f(2) v] by blast
  have len: "length (push_all side vals xs) = length xs + length vals" by (cases side) (simp_all add: push_all_def)
  let ?db = "StoreObject env db1 key (List_value l')"
  have r: "Push_command env db (key # vals) side = Inr (Some (int (length xs + length vals)), ?db)"
    using f(1) l'(1) List_Size_holds [OF l'(2)] n len by (simp add: Push_command_def deref_def ToReplyInteger_def)
  note t = StoreObject_ok [OF f(3,4), of "List_value l'"]
  have ok': "Db_Refinement.db_ok (key_hash env) ?db" using t by (simp add: db_to_def)
  have "objects ?db key = Some (List_value l')" using t by (simp add: db_to_def)
  then have "list_at now ?db key (push_all side vals xs)" if "\<not> expired now ?db key" for now
    using l'(2) that by (simp add: list_at_def visible_def)
  then show ?thesis using r ok' by blast
qed

text \<open>The part of a list between two positions, which count from the end when they are negative.\<close>

definition slice :: "int \<Rightarrow> int \<Rightarrow> 'a list \<Rightarrow> 'a list" where
  "slice i j xs =
     (let n = int (length xs); a = max 0 (if i < 0 then i + n else i); b = (if j < 0 then j + n else j) in
      take (nat (b + 1 - a)) (drop (nat a) xs))"

lemma visit_bulks: "visit (\<lambda>v r. (True, r @ bulk v)) xs r = (True, r @ concat (map bulk xs))"
  by (induction xs arbitrary: r) simp_all

lemma NormalizeRange_slice:
  "(case NormalizeRange i j (length xs) of None \<Rightarrow> slice i j xs = []
    | Some (a, b) \<Rightarrow> slice i j xs = drop a (take (Suc b) xs) \<and> a \<le> b \<and> b < length xs)"
proof -
  define n where "n = int (length xs)"
  define a where "a = max 0 (if i < 0 then i + n else i)"
  define b where "b = (if j < 0 then j + n else j)"
  have s: "slice i j xs = take (nat (b + 1 - a)) (drop (nat a) xs)"
    unfolding slice_def Let_def n_def [symmetric] a_def [symmetric] b_def [symmetric] ..
  have r: "NormalizeRange i j (length xs) = (if length xs = 0 then None
      else if a > min b (n - 1) \<or> a \<ge> n then None else Some (nat a, nat (min b (n - 1))))"
    unfolding NormalizeRange_def Let_def n_def [symmetric] a_def b_def max.commute [of _ "0::int"] ..
  have a0: "0 \<le> a" by (simp add: a_def)
  show ?thesis
  proof (cases "length xs = 0 \<or> a > min b (n - 1) \<or> a \<ge> n")
    case True
    then have e: "NormalizeRange i j (length xs) = None" unfolding r by auto
    have "xs = [] \<or> b < a \<or> length xs \<le> nat a" using True n_def by auto
    then show ?thesis unfolding e s by auto
  next
    case False
    then have e: "NormalizeRange i j (length xs) = Some (nat a, nat (min b (n - 1)))" unfolding r by auto
    have le: "nat a \<le> nat (min b (n - 1))" "nat (min b (n - 1)) < length xs" using False a0 n_def by auto
    have "take (nat (b + 1 - a)) (drop (nat a) xs) = drop (nat a) (take (Suc (nat (min b (n - 1)))) xs)"
    proof (cases "b < n")
      case True
      then have "nat (min b (n - 1)) = nat b" "nat (b + 1 - a) = Suc (nat b) - nat a" using False a0 by auto
      then show ?thesis by (simp only: drop_take)
    next
      case big: False
      have "take (nat (b + 1 - a)) (drop (nat a) xs) = drop (nat a) xs" using big a0 n_def by simp
      moreover have "take (Suc (nat (min b (n - 1)))) xs = xs" using big n_def False by simp
      ultimately show ?thesis by simp
    qed
    then show ?thesis unfolding e s using le by simp
  qed
qed

lemma LRange_ok:
  assumes ok: "Db_Refinement.db_ok (key_hash env) db" and at: "list_at (clock env 0) db key xs"
  shows "\<exists>db'. LRange env db (key, i, j) = Inr (Some (FromBulkStringArray (slice i j xs)), db')"
  using ok at
proof (cases rule: FindList_cases)
  case (missing db')
  then show ?thesis by (simp add: LRange_def slice_def FromBulkStringArray_def)
next
  case (found l db')
  note sz = List_Size_holds [OF found(2)]
  show ?thesis
  proof (cases "NormalizeRange i j (length xs)")
    case None
    then have "slice i j xs = []" using NormalizeRange_slice [of i j xs] by simp
    then show ?thesis using found(1) sz None by (simp add: LRange_def deref_def FromBulkStringArray_def)
  next
    case (Some ab)
    obtain a b where ab: "ab = (a, b)" by fastforce
    have s: "slice i j xs = drop a (take (Suc b) xs)" "a \<le> b" "b < length xs"
      using NormalizeRange_slice [of i j xs] Some ab by simp_all
    have len: "length (slice i j xs) = b - a + 1" using s by simp
    have "FromArrayHeader (b - a + 1) @ concat (map bulk (slice i j xs)) = FromBulkStringArray (slice i j xs)"
      unfolding len [symmetric] by (simp add: FromBulkStringArray_bulk FromArrayHeader_dec)
    then show ?thesis
      using found(1) sz Some ab s(1)
      by (simp add: LRange_def deref_def visit_bulks List_ForEach_holds [OF found(2)])
  qed
qed

section \<open>Properties\<close>

text \<open>
  C36: \<open>LPUSH\<close> and \<open>RPUSH\<close> on a list, or on a key that holds nothing, reply the new length; as long as
  the key has not expired \<open>LRANGE\<close> then replies the part between its two positions of the list with
  the values pushed one by one, with positions from the end where they are negative and cut to the
  list, in both encodings of the list.
\<close>

theorem Push_then_LRange:
  assumes "Db_Refinement.db_ok (key_hash env) db" "list_at (clock env 0) db key xs"
    and "vals \<noteq> []" "\<forall>v\<in>set vals. length v < 2 ^ 30" "int (length xs + length vals) \<le> INT64_MAX"
    and "key_hash env' = key_hash env" "ToInt64 start = Some i" "ToInt64 stop = Some j"
  shows "\<exists>db'. HandlePush side env p (key # vals) (Some db) =
      Inr (MarkModified # reply env (FromInt64 (int (length xs + length vals))), Some db') \<and>
    (\<not> expired (clock env' 0) db' key \<longrightarrow> (\<exists>db''. HandleLRange env' p' [key, start, stop] (Some db') =
      Inr (reply env' (FromBulkStringArray (slice i j (push_all side vals xs))), Some db'')))"
proof -
  obtain db' where s: "Push_command env db (key # vals) side = Inr (Some (int (length xs + length vals)), db')"
    "Db_Refinement.db_ok (key_hash env) db'"
    "\<forall>now. \<not> expired now db' key \<longrightarrow> list_at now db' key (push_all side vals xs)"
    using Push_command_ok [OF assms(1,2,4,5)] by blast
  have r: "HandlePush side env p (key # vals) (Some db) =
      Inr (MarkModified # reply env (FromInt64 (int (length xs + length vals))), Some db')"
    using s(1) assms(3) by (cases vals) (simp_all add: HandlePush_def integer_reply_def)
  have g: "\<exists>db''. HandleLRange env' p' [key, start, stop] (Some db') =
      Inr (reply env' (FromBulkStringArray (slice i j (push_all side vals xs))), Some db'')"
    if "\<not> expired (clock env' 0) db' key"
  proof -
    have ok: "Db_Refinement.db_ok (key_hash env') db'" using s(2) assms(6) by simp
    have at: "list_at (clock env' 0) db' key (push_all side vals xs)" using s(3) that by blast
    obtain db'' where "LRange env' db' (key, i, j) = Inr (Some (FromBulkStringArray (slice i j (push_all side vals xs))), db'')"
      using LRange_ok [OF ok at] by blast
    then show ?thesis using assms(7,8) by (simp add: HandleLRange_def ParseRangeArgs_def encoded_reply_def)
  qed
  show ?thesis by (intro exI [of _ db'] conjI impI r g)
qed

theorem Push_then_LRange_witness:
  "\<exists>db'. HandlePush kPushLeft \<lparr>key_hash = length, clock = \<lambda>_. 5, capacity = length\<rparr> kResp2 [''l'', ''a'', ''b'']
      (Some (empty_db :: (unit, list_obj, unit, unit) redis_object redis_db)) =
    Inr (MarkModified # reply \<lparr>key_hash = length, clock = \<lambda>_. 5, capacity = length\<rparr> (FromInt64 2), Some db')"
proof -
  let ?e = "\<lparr>key_hash = length, clock = \<lambda>_. 5, capacity = length\<rparr> :: server_env"
    and ?db = "empty_db :: (unit, list_obj, unit, unit) redis_object redis_db"
  have ok: "Db_Refinement.db_ok (key_hash ?e) ?db" by (simp add: empty_db_ok)
  have at: "list_at (clock ?e 0) ?db ''l'' []" by (simp add: list_at_def visible_def empty_db_ok)
  have v: "[''a'', ''b''] \<noteq> []" "\<forall>v\<in>set [''a'', ''b'']. length v < 2 ^ 30"
    "int (length ([] :: string list) + length [''a'', ''b'']) \<le> INT64_MAX" by simp_all
  have z: "ToInt64 (dec 0) = Some 0" using ToInt64_dec [of 0] by simp
  obtain db' where "HandlePush kPushLeft ?e kResp2 (''l'' # [''a'', ''b'']) (Some ?db) =
      Inr (MarkModified # reply ?e (FromInt64 (int (length ([] :: string list) + length [''a'', ''b'']))), Some db')"
    using Push_then_LRange [OF ok at v refl z z, of kPushLeft kResp2 kResp2] by (elim exE conjE) (rule that)
  moreover have "int (length ([] :: string list) + length [''a'', ''b'']) = 2" by simp
  ultimately show ?thesis by (intro exI [of _ db']) (simp only:)
qed

end
