(* ===== verification/Set_Type.thy ===== *)
theory Set_Type
  imports Containers IntSet_Refinement
begin

text \<open>
  The set type (\<open>src/data_types/set/set.cpp\<close>, \<open>set.h\<close>): a set of strings that is held in an
  \<open>IntSet\<close> while all members are canonical integers, in a \<open>ListPack\<close> while it is small, and in a
  \<open>Dict\<close> otherwise.  The three pointers are options, and a null pointer that is followed is a fault;
  \<open>hf\<close> is the hash of a key.  A lookup in the dict takes its step of a running rehash, so that the
  operations that are \<open>const\<close> return the set as well.
\<close>

section \<open>Definitions\<close>

datatype SetEncoding = kIntSet | kListPack | kDict

record set_obj =
  set_encoding :: SetEncoding
  set_intset :: "intset option"
  set_listpack :: "bytes option"
  set_dict :: "(string, unit) dict option"

definition kIntSetMaxEntries :: nat where
  "kIntSetMaxEntries = 512"

definition kListPackMaxEntries :: nat where
  "kListPackMaxEntries = 128"

definition kListPackElementMaxLength :: nat where
  "kListPackElementMaxLength = 64"

definition Set_new :: set_obj where
  "Set_new = \<lparr>set_encoding = kIntSet, set_intset = None, set_listpack = None, set_dict = None\<rparr>"

definition Set_Size :: "set_obj \<Rightarrow> (nat \<times> set_obj) res" where
  "Set_Size s = (case set_encoding s of
     kIntSet \<Rightarrow> Inr (case set_intset s of None \<Rightarrow> 0 | Some i \<Rightarrow> IntSet_Size i, s)
   | kListPack \<Rightarrow> (case set_listpack s of
       None \<Rightarrow> Inr (0, s)
     | Some lp \<Rightarrow> bindE (ListPack_Size lp) (\<lambda>(n, lp). Inr (n, s\<lparr>set_listpack := Some lp\<rparr>)))
   | kDict \<Rightarrow> Inr (case set_dict s of None \<Rightarrow> 0 | Some d \<Rightarrow> Dict_Size d, s))"

definition Set_Encoding :: "set_obj \<Rightarrow> SetEncoding" where
  "Set_Encoding s = set_encoding s"

definition HasMember :: "(string \<Rightarrow> nat) \<Rightarrow> set_obj \<Rightarrow> string \<Rightarrow> (bool \<times> set_obj) res" where
  "HasMember hf s val = bindE (Set_Size s) (\<lambda>(n, s).
     if n = 0 then Inr (False, s)
     else case set_encoding s of
       kIntSet \<Rightarrow> (case ToCanonicalInt64 val of
           None \<Rightarrow> Inr (False, s)
         | Some int_val \<Rightarrow> bindE (deref (set_intset s)) (\<lambda>i.
             bindE (IntSet_Find i int_val) (\<lambda>b. Inr (b, s))))
     | kListPack \<Rightarrow> bindE (deref (set_listpack s)) (\<lambda>lp.
         bindE (ListPack_Find lp val) (\<lambda>idx. Inr (idx \<noteq> None, s)))
     | kDict \<Rightarrow> bindE (deref (set_dict s)) (\<lambda>d.
         case Dict_Get hf d val of (v, d) \<Rightarrow> Inr (v \<noteq> None, s\<lparr>set_dict := Some d\<rparr>)))"

definition Set_Remove :: "(string \<Rightarrow> nat) \<Rightarrow> set_obj \<Rightarrow> string \<Rightarrow> (bool \<times> set_obj) res" where
  "Set_Remove hf s val = bindE (Set_Size s) (\<lambda>(n, s).
     if n = 0 then Inr (False, s)
     else case set_encoding s of
       kIntSet \<Rightarrow> (case ToCanonicalInt64 val of
           None \<Rightarrow> Inr (False, s)
         | Some int_val \<Rightarrow> bindE (deref (set_intset s)) (\<lambda>i.
             bindE (IntSet_Remove i int_val) (\<lambda>(b, i). Inr (b, s\<lparr>set_intset := Some i\<rparr>))))
     | kListPack \<Rightarrow> bindE (deref (set_listpack s)) (\<lambda>lp.
         bindE (ListPack_Find lp val) (\<lambda>idx.
           case idx of
             None \<Rightarrow> Inr (False, s)
           | Some i \<Rightarrow> bindE (ListPack_Delete lp i) (\<lambda>lp. Inr (True, s\<lparr>set_listpack := Some lp\<rparr>))))
     | kDict \<Rightarrow> bindE (deref (set_dict s)) (\<lambda>d.
         case Dict_Delete hf d val of (b, d) \<Rightarrow> Inr (b, s\<lparr>set_dict := Some d\<rparr>)))"

text \<open>The loops of the conversions; the first number counts the iterations that are left.\<close>

fun ConvertIntSetToDict_loop ::
  "(string \<Rightarrow> nat) \<Rightarrow> intset \<Rightarrow> nat \<Rightarrow> nat \<Rightarrow> (string, unit) dict option \<Rightarrow> (string, unit) dict option res" where
  "ConvertIntSetToDict_loop hf i 0 index d = Inr d"
| "ConvertIntSetToDict_loop hf i (Suc n) index d =
     bindE (IntSet_Get i index) (\<lambda>v. bindE (deref d) (\<lambda>d.
       ConvertIntSetToDict_loop hf i n (index + 1) (Some (Dict_Set hf d (dec_int v) ()))))"

definition ConvertIntSetToDict :: "(string \<Rightarrow> nat) \<Rightarrow> set_obj \<Rightarrow> nat \<Rightarrow> set_obj res" where
  "ConvertIntSetToDict hf s capacity =
     (let s = s\<lparr>set_encoding := kDict, set_dict := Dict_Create capacity\<rparr> in
      case set_intset s of
        None \<Rightarrow> Inr s
      | Some i \<Rightarrow> bindE (ConvertIntSetToDict_loop hf i (IntSet_Size i) 0 (set_dict s)) (\<lambda>d.
          Inr (s\<lparr>set_dict := d, set_intset := None\<rparr>)))"

definition MaybeConvertIntsetToDict :: "(string \<Rightarrow> nat) \<Rightarrow> set_obj \<Rightarrow> set_obj res" where
  "MaybeConvertIntsetToDict hf s = (case set_intset s of
     None \<Rightarrow> Inr s
   | Some i \<Rightarrow> if IntSet_Size i > kIntSetMaxEntries then ConvertIntSetToDict hf s (IntSet_Size i) else Inr s)"

fun ConvertIntSetToListPack_loop :: "intset \<Rightarrow> nat \<Rightarrow> nat \<Rightarrow> bytes \<Rightarrow> bytes res" where
  "ConvertIntSetToListPack_loop i 0 index lp = Inr lp"
| "ConvertIntSetToListPack_loop i (Suc n) index lp =
     bindE (IntSet_Get i index) (\<lambda>v. bindE (ListPack_Append_int lp v) (\<lambda>(_, lp).
       ConvertIntSetToListPack_loop i n (index + 1) lp))"

definition ConvertIntSetToListPack :: "set_obj \<Rightarrow> string \<Rightarrow> set_obj res" where
  "ConvertIntSetToListPack s val =
     bindE ListPack_new (\<lambda>lp.
     bindE (case set_intset s of
         None \<Rightarrow> Inr lp
       | Some i \<Rightarrow> ConvertIntSetToListPack_loop i (IntSet_Size i) 0 lp) (\<lambda>lp.
     bindE (ListPack_Append lp val) (\<lambda>(_, lp).
       Inr (s\<lparr>set_encoding := kListPack, set_listpack := Some lp, set_intset := None\<rparr>))))"

text \<open>
  \<open>Digits10\<close> takes an unsigned argument, to which a negative integer is converted.
\<close>

definition MaybeConvertIntSetToListPack :: "set_obj \<Rightarrow> string \<Rightarrow> (bool \<times> set_obj) res" where
  "MaybeConvertIntSetToListPack s val =
     (if set_encoding s \<noteq> kIntSet then Inr (False, s)
      else
        let len = length val; entry_bytes = ListPack_EstimateEntryBytes val in
        bindE (case set_intset s of
            None \<Rightarrow> Inr (0, 0)
          | Some i \<Rightarrow>
              bindE (IntSet_Max i) (\<lambda>max_integer. bindE (IntSet_Min i) (\<lambda>min_integer.
                let max_integer_digits = Digits10 (nat (max_integer mod 2 ^ 64));
                    min_integer_digits = Digits10 (nat (min_integer mod 2 ^ 64));
                    estimated_integer =
                      (if max_integer_digits > min_integer_digits then max_integer else min_integer)
                in Inr (max max_integer_digits min_integer_digits,
                        ListPack_EstimateBytes estimated_integer (IntSet_Size i)))))
          (\<lambda>(max_integer_length, estimated_bytes).
            let current_size = (case set_intset s of None \<Rightarrow> 0 | Some i \<Rightarrow> IntSet_Size i) in
            bindE (if current_size < kListPackMaxEntries \<and> len \<le> kListPackElementMaxLength \<and>
                      max_integer_length \<le> kListPackElementMaxLength \<and>
                      estimated_bytes \<le> SIZE_MAX - entry_bytes
                   then ListPack_SafeToAdd None (estimated_bytes + entry_bytes) else Inr False) (\<lambda>safe.
              if safe then bindE (ConvertIntSetToListPack s val) (\<lambda>s. Inr (True, s))
              else Inr (False, s))))"

function ConvertListPackToDict_loop ::
  "(string \<Rightarrow> nat) \<Rightarrow> bytes \<Rightarrow> nat option \<Rightarrow> (string, unit) dict option \<Rightarrow> (string, unit) dict option res" where
  "ConvertListPackToDict_loop hf lp idx d = (case idx of
     None \<Rightarrow> Inr d
   | Some i \<Rightarrow>
       bindE (ListPack_Get lp i) (\<lambda>string_result.
       bindE (case string_result of
           None \<Rightarrow> Inr d
         | Some key \<Rightarrow> bindE (deref d) (\<lambda>d. Inr (Some (Dict_Set hf d key ())))) (\<lambda>d.
       bindE (ListPack_Next lp i) (\<lambda>j. ConvertListPackToDict_loop hf lp j d))))"
  by auto
termination
  by (relation "measure (\<lambda>(hf, lp, idx, d). case idx of None \<Rightarrow> 0 | Some i \<Rightarrow> Suc (length lp - i))")
    (auto dest!: ListPack_Next_mono split: option.split)

declare ConvertListPackToDict_loop.simps [simp del]

definition ConvertListPackToDict :: "(string \<Rightarrow> nat) \<Rightarrow> set_obj \<Rightarrow> nat \<Rightarrow> set_obj res" where
  "ConvertListPackToDict hf s capacity =
     (let s = s\<lparr>set_encoding := kDict, set_dict := Dict_Create capacity\<rparr> in
      case set_listpack s of
        None \<Rightarrow> Inr s
      | Some lp \<Rightarrow> bindE (ListPack_First lp) (\<lambda>idx.
          bindE (ConvertListPackToDict_loop hf lp idx (set_dict s)) (\<lambda>d.
            Inr (s\<lparr>set_dict := d, set_listpack := None\<rparr>))))"

text \<open>The last steps of an insertion into the dict: a lookup, and \<open>Set\<close> when the member is new.\<close>

definition dict_add_new :: "(string \<Rightarrow> nat) \<Rightarrow> set_obj \<Rightarrow> string \<Rightarrow> (bool \<times> set_obj) res" where
  "dict_add_new hf s val = bindE (deref (set_dict s)) (\<lambda>d.
     case Dict_Get hf d val of (v, d) \<Rightarrow>
       if v \<noteq> None then Inr (False, s\<lparr>set_dict := Some d\<rparr>)
       else Inr (True, s\<lparr>set_dict := Some (Dict_Set hf d val ())\<rparr>))"

definition DictAdd :: "(string \<Rightarrow> nat) \<Rightarrow> set_obj \<Rightarrow> string \<Rightarrow> (bool \<times> set_obj) res" where
  "DictAdd hf s val =
     dict_add_new hf (case set_dict s of None \<Rightarrow> s\<lparr>set_dict := Dict_Create 2\<rparr> | Some _ \<Rightarrow> s) val"

definition ListPackAddAndMaybeConvert :: "(string \<Rightarrow> nat) \<Rightarrow> set_obj \<Rightarrow> string \<Rightarrow> (bool \<times> set_obj) res" where
  "ListPackAddAndMaybeConvert hf s val =
     bindE (deref (set_listpack s)) (\<lambda>lp.
     bindE (ListPack_Find lp val) (\<lambda>idx.
     if idx \<noteq> None then Inr (False, s)
     else bindE (ListPack_Size lp) (\<lambda>(n, lp).
       bindE (if n < kListPackMaxEntries \<and> length val \<le> kListPackElementMaxLength
              then ListPack_SafeToAdd (Some lp) (ListPack_EstimateEntryBytes val) else Inr False) (\<lambda>safe.
       if safe then bindE (ListPack_Append lp val) (\<lambda>(b, lp). Inr (b, s\<lparr>set_listpack := Some lp\<rparr>))
       else bindE (ListPack_Size lp) (\<lambda>(n, lp).
         bindE (ConvertListPackToDict hf (s\<lparr>set_listpack := Some lp\<rparr>) (n + 1)) (\<lambda>s.
           dict_add_new hf s val))))))"

definition IntSetAddAndMaybeConvert :: "(string \<Rightarrow> nat) \<Rightarrow> set_obj \<Rightarrow> string \<Rightarrow> (bool \<times> set_obj) res" where
  "IntSetAddAndMaybeConvert hf s val = (case ToCanonicalInt64 val of
     Some int_val \<Rightarrow>
       let i = (case set_intset s of None \<Rightarrow> IntSet_new | Some i \<Rightarrow> i) in
       bindE (IntSet_Add i int_val) (\<lambda>(success, i).
         let s = s\<lparr>set_intset := Some i\<rparr> in
         bindE (if success then MaybeConvertIntsetToDict hf s else Inr s) (\<lambda>s. Inr (success, s)))
   | None \<Rightarrow>
       bindE (MaybeConvertIntSetToListPack s val) (\<lambda>(converted, s).
         if converted then Inr (True, s)
         else bindE (ConvertIntSetToDict hf s
                (case set_intset s of None \<Rightarrow> 1 | Some i \<Rightarrow> IntSet_Size i + 1)) (\<lambda>s.
           bindE (deref (set_dict s)) (\<lambda>d.
             Inr (True, s\<lparr>set_dict := Some (Dict_Set hf d val ())\<rparr>)))))"

definition Set_Add :: "(string \<Rightarrow> nat) \<Rightarrow> set_obj \<Rightarrow> string \<Rightarrow> (bool \<times> set_obj) res" where
  "Set_Add hf s val = (case set_encoding s of
     kIntSet \<Rightarrow> IntSetAddAndMaybeConvert hf s val
   | kListPack \<Rightarrow> ListPackAddAndMaybeConvert hf s val
   | kDict \<Rightarrow> DictAdd hf s val)"

section \<open>The set of strings a set object stands for\<close>

definition listpack_holds :: "bytes \<Rightarrow> string set \<Rightarrow> bool" where
  "listpack_holds lp A \<longleftrightarrow> (\<exists>es. ListPack_repr lp es \<and> distinct (map entry_str es) \<and> A = entry_str ` set es)"

definition intset_holds :: "intset \<Rightarrow> string set \<Rightarrow> bool" where
  "intset_holds i A \<longleftrightarrow> intset_ok i \<and> (\<forall>x\<in>intset_set i. is_int64 x) \<and> A = dec_int ` intset_set i"

definition set_holds :: "(string \<Rightarrow> nat) \<Rightarrow> set_obj \<Rightarrow> string set \<Rightarrow> bool" where
  "set_holds hf s A = (case set_encoding s of
     kIntSet \<Rightarrow> (case set_intset s of None \<Rightarrow> A = {} | Some i \<Rightarrow> intset_holds i A)
   | kListPack \<Rightarrow> (case set_listpack s of None \<Rightarrow> False | Some lp \<Rightarrow> listpack_holds lp A)
   | kDict \<Rightarrow> (case set_dict s of None \<Rightarrow> False | Some d \<Rightarrow> dict_ok hf d \<and> A = dom (dict_map d)))"

lemma set_holds_cases:
  assumes "set_holds hf s A"
  obtains (no_intset) "set_encoding s = kIntSet" "set_intset s = None" "A = {}"
    | (intset) i where "set_encoding s = kIntSet" "set_intset s = Some i" "intset_holds i A"
    | (listpack) lp where "set_encoding s = kListPack" "set_listpack s = Some lp" "listpack_holds lp A"
    | (dict) d where "set_encoding s = kDict" "set_dict s = Some d" "dict_ok hf d" "A = dom (dict_map d)"
  using assms by (auto simp: set_holds_def split: SetEncoding.splits option.splits)

lemma inj_dec_int: "(\<forall>x\<in>X. is_int64 x) \<Longrightarrow> inj_on dec_int X"
  using ToCanonicalInt64_dec_int by (metis inj_onI option.inject)

lemma canonical_member:
  assumes "\<forall>x\<in>X. is_int64 x"
  shows "val \<in> dec_int ` X \<longleftrightarrow> (\<exists>v. ToCanonicalInt64 val = Some v \<and> v \<in> X)"
proof
  assume "val \<in> dec_int ` X"
  then obtain v where "v \<in> X" "val = dec_int v" by blast
  then show "\<exists>v. ToCanonicalInt64 val = Some v \<and> v \<in> X" using ToCanonicalInt64_dec_int assms by blast
next
  assume "\<exists>v. ToCanonicalInt64 val = Some v \<and> v \<in> X"
  then obtain v where "ToCanonicalInt64 val = Some v" "v \<in> X" by blast
  then show "val \<in> dec_int ` X" using ToCanonicalInt64_Some by (metis imageI)
qed

lemma find_skip_None: "find_skip val 0 0 es = None \<longleftrightarrow> val \<notin> entry_str ` set es"
  by (induction es) auto

lemma find_skip_Some: "find_skip val 0 0 es = Some i \<Longrightarrow> i < length es \<and> entry_str (es ! i) = val"
  by (induction es arbitrary: i) (auto split: if_splits)

lemma ListPack_Find_holds:
  assumes "ListPack_repr lp es"
  shows "ListPack_Find lp val = Inr (map_option (lp_off es) (find_skip val 0 0 es))"
  using repr_FindAndSkip [OF assms] by (simp add: ListPack_Find_def)

lemma ListPack_Size_holds:
  assumes "listpack_holds lp A"
  shows "\<exists>lp'. ListPack_Size lp = Inr (card A, lp') \<and> listpack_holds lp' A"
proof -
  obtain es where es: "ListPack_repr lp es" "distinct (map entry_str es)" "A = entry_str ` set es"
    using assms by (auto simp: listpack_holds_def)
  have "card A = length es" using es(2,3) distinct_card [of "map entry_str es"] by simp
  moreover obtain lp' where "ListPack_Size lp = Inr (length es, lp')" "ListPack_repr lp' es"
    by (rule repr_Size [OF es(1)])
  ultimately show ?thesis using es(2,3) by (auto simp: listpack_holds_def)
qed

lemma Set_Size_holds:
  assumes "set_holds hf s A"
  shows "\<exists>s'. Set_Size s = Inr (card A, s') \<and> set_holds hf s' A"
  using assms
proof (cases rule: set_holds_cases)
  case no_intset
  then show ?thesis using assms by (simp add: Set_Size_def)
next
  case (intset i)
  then have "card A = card (intset_set i)" "intset_ok i"
    using card_image [OF inj_dec_int] by (auto simp: intset_holds_def)
  then show ?thesis using intset assms iset.count_card by (simp add: Set_Size_def)
next
  case (listpack lp)
  then show ?thesis using ListPack_Size_holds [OF listpack(3)] by (auto simp: Set_Size_def set_holds_def)
next
  case (dict d)
  then show ?thesis using assms dict.card_of [OF dict(3)] by (simp add: Set_Size_def)
qed

lemma set_holds_finite:
  assumes "set_holds hf s A"
  shows "finite A"
  using assms
proof (cases rule: set_holds_cases)
  case (intset i)
  then show ?thesis using iset.elems_finite by (auto simp: intset_holds_def)
next
  case (dict d)
  then show ?thesis using dict.card_of [OF dict(3)] by simp
qed (auto simp: listpack_holds_def)

lemma HasMember_holds:
  assumes "set_holds hf s A"
  shows "\<exists>s'. HasMember hf s val = Inr (val \<in> A, s') \<and> set_holds hf s' A"
proof -
  obtain t where t: "Set_Size s = Inr (card A, t)" "set_holds hf t A" using Set_Size_holds [OF assms] by blast
  show ?thesis
  proof (cases "A = {}")
    case True
    then show ?thesis using t by (simp add: HasMember_def)
  next
    case False
    then have c: "card A \<noteq> 0" using set_holds_finite [OF assms] by simp
    show ?thesis using t(2)
    proof (cases rule: set_holds_cases)
      case (intset i)
      then have i: "intset_ok i" "\<forall>x\<in>intset_set i. is_int64 x" "A = dec_int ` intset_set i"
        by (simp_all add: intset_holds_def)
      show ?thesis
      proof (cases "ToCanonicalInt64 val")
        case None
        then have "val \<notin> A" using canonical_member [OF i(2)] i(3) by simp
        then show ?thesis using None t c intset by (simp add: HasMember_def)
      next
        case (Some v)
        then have "val \<in> A \<longleftrightarrow> v \<in> intset_set i" "is_int64 v"
          using canonical_member [OF i(2), of val] i(3) ToCanonicalInt64_Some [OF Some] by auto
        then show ?thesis using Some t c intset iset.find_elem [OF i(1), of v] by (simp add: HasMember_def)
      qed
    next
      case (listpack lp)
      then obtain es where es: "ListPack_repr lp es" "A = entry_str ` set es" by (auto simp: listpack_holds_def)
      have "(map_option (lp_off es) (find_skip val 0 0 es) \<noteq> None) = (val \<in> A)"
        using find_skip_None [of val es] es(2) by simp
      then show ?thesis using t c listpack ListPack_Find_holds [OF es(1), of val] by (simp add: HasMember_def)
    next
      case (dict d)
      obtain r d' where g: "Dict_Get hf d val = (r, d')" by fastforce
      then have "r = dict_map d val" "dict_ok hf d'" "dict_map d' = dict_map d"
        using dict.get [OF dict(3) g] by simp_all
      then show ?thesis using t c dict g by (auto simp: HasMember_def set_holds_def)
    qed (use False in simp)
  qed
qed

lemma Set_Remove_holds:
  assumes "set_holds hf s A"
  shows "\<exists>s'. Set_Remove hf s val = Inr (val \<in> A, s') \<and> set_holds hf s' (A - {val})"
proof -
  obtain t where t: "Set_Size s = Inr (card A, t)" "set_holds hf t A" using Set_Size_holds [OF assms] by blast
  show ?thesis
  proof (cases "A = {}")
    case True
    then show ?thesis using t by (simp add: Set_Remove_def)
  next
    case False
    then have c: "card A \<noteq> 0" using set_holds_finite [OF assms] by simp
    show ?thesis using t(2)
    proof (cases rule: set_holds_cases)
      case (intset i)
      then have i: "intset_ok i" "\<forall>x\<in>intset_set i. is_int64 x" "A = dec_int ` intset_set i"
        by (simp_all add: intset_holds_def)
      show ?thesis
      proof (cases "ToCanonicalInt64 val")
        case None
        then have "val \<notin> A" using canonical_member [OF i(2)] i(3) by simp
        then show ?thesis using None t c intset by (simp add: Set_Remove_def)
      next
        case (Some v)
        then have v: "val \<in> A \<longleftrightarrow> v \<in> intset_set i" "is_int64 v" "val = dec_int v"
          using canonical_member [OF i(2), of val] i(3) ToCanonicalInt64_Some [OF Some] by auto
        obtain j where j: "IntSet_Remove i v = Inr (v \<in> intset_set i, j)" "intset_ok j"
          "intset_set j = intset_set i - {v}" using iset.del_elem [OF i(1) v(2)] by blast
        have "dec_int ` intset_set j = A - {val}"
          using inj_dec_int [of "insert v (intset_set i)"] i(2,3) v(2,3) j(3) by (auto simp: inj_on_def)
        then have "intset_holds j (A - {val})" using j(2,3) i(2) by (simp add: intset_holds_def)
        then show ?thesis using Some t c intset j(1) v(1) by (simp add: Set_Remove_def set_holds_def)
      qed
    next
      case (listpack lp)
      then obtain es where es: "ListPack_repr lp es" "distinct (map entry_str es)" "A = entry_str ` set es"
        by (auto simp: listpack_holds_def)
      note f = ListPack_Find_holds [OF es(1), of val]
      show ?thesis
      proof (cases "find_skip val 0 0 es")
        case None
        then have "val \<notin> A" using find_skip_None es(3) by simp
        then show ?thesis using None t c listpack f by (simp add: Set_Remove_def)
      next
        case (Some k)
        then have k: "k < length es" "entry_str (es ! k) = val" using find_skip_Some by blast+
        obtain lp' where d: "ListPack_DeleteRange lp (lp_off es k) 1 = Inr (min 1 (length es - k), lp')"
          "ListPack_repr lp' (take k es @ drop (k + 1) es)" using repr_DeleteRange [OF es(1) k(1)] by blast
        have spl: "es = take k es @ es ! k # drop (Suc k) es" using k(1) by (rule id_take_nth_drop)
        have m: "map entry_str es = map entry_str (take k es) @ val # map entry_str (drop (Suc k) es)"
          using arg_cong [OF spl, of "map entry_str"] k(2) by simp
        have "distinct (map entry_str (take k es @ drop (Suc k) es))"
          "entry_str ` set (take k es @ drop (Suc k) es) = A - {val}" "val \<in> A"
          using es(2) unfolding es(3) set_map [symmetric] m by auto
        then have "listpack_holds lp' (A - {val})" "val \<in> A"
          using d(2) unfolding listpack_holds_def by (metis Suc_eq_plus1)+
        then show ?thesis using Some t c listpack f d(1)
          by (simp add: Set_Remove_def ListPack_Delete_def set_holds_def)
      qed
    next
      case (dict d)
      obtain b d' where g: "Dict_Delete hf d val = (b, d')" by fastforce
      then have "b = (dict_map d val \<noteq> None)" "dict_ok hf d'" "dict_map d' = (dict_map d)(val := None)"
        using dict.del [OF dict(3) g] by simp_all
      then show ?thesis using t c dict g by (auto simp: Set_Remove_def set_holds_def)
    qed (use False in simp)
  qed
qed

lemma set_holds_new: "set_holds hf Set_new {}"
  by (simp add: set_holds_def Set_new_def)

section \<open>A set that has been emptied\<close>

lemma room_new: "intset_room IntSet_new v"
  by (simp add: intset_room_def IntSet_new_def ValueEncoding_def)

lemma Set_Add_first:
  assumes "ToCanonicalInt64 a = Some v"
  shows "\<exists>i. Set_Add hf Set_new a = Inr (True, Set_new\<lparr>set_intset := Some i\<rparr>) \<and> intset_ok i \<and> intset_set i = {v}"
proof -
  have v: "is_int64 v" using ToCanonicalInt64_Some [OF assms] by simp
  obtain i where i: "IntSet_Add IntSet_new v = Inr (True, i)" "intset_ok i" "intset_set i = {v}"
    using iset.add_elem [OF intset_ok_new(1) v room_new] intset_ok_new(2) by auto
  have "IntSet_Size i = 1" using iset.count_card [OF i(2)] i(3) by simp
  then show ?thesis using assms i
    by (simp add: Set_Add_def Set_new_def IntSetAddAndMaybeConvert_def MaybeConvertIntsetToDict_def kIntSetMaxEntries_def)
qed

lemma Set_Remove_last:
  assumes "ToCanonicalInt64 a = Some v" "intset_ok i" "intset_set i = {v}"
  shows "\<exists>j. Set_Remove hf (Set_new\<lparr>set_intset := Some i\<rparr>) a = Inr (True, Set_new\<lparr>set_intset := Some j\<rparr>) \<and>
    intset_ok j \<and> intset_set j = {}"
proof -
  have v: "is_int64 v" using ToCanonicalInt64_Some [OF assms(1)] by simp
  obtain j where "IntSet_Remove i v = Inr (True, j)" "intset_ok j" "intset_set j = {}"
    using iset.del_elem [OF assms(2) v] assms(3) by auto
  then show ?thesis using assms iset.count_card [OF assms(2)]
    by (simp add: Set_Remove_def Set_new_def Set_Size_def)
qed

lemma Set_Add_emptied:
  assumes "ToCanonicalInt64 b = None" "intset_ok j" "intset_set j = {}"
  shows "Set_Add hf (Set_new\<lparr>set_intset := Some j\<rparr>) b = Inl Out_of_range"
proof -
  have "IntSet_Max j = Inl Out_of_range"
    using IntSet_Min_Max_repr [OF assms(2) [unfolded intset_ok_def]] assms(3) by (simp add: intset_set_def)
  then show ?thesis using assms(1)
    by (simp add: Set_Add_def Set_new_def IntSetAddAndMaybeConvert_def MaybeConvertIntSetToListPack_def)
qed

section \<open>Properties\<close>

text \<open>
  C28: whatever its encoding, \<open>HasMember\<close> and \<open>Remove\<close> are membership and removal in the set of
  strings the object stands for, and the size is its cardinality.
\<close>

theorem Set_HasMember_Remove:
  assumes "set_holds hf s A"
  shows "(\<exists>s'. HasMember hf s val = Inr (val \<in> A, s') \<and> set_holds hf s' A) \<and>
    (\<exists>s'. Set_Remove hf s val = Inr (val \<in> A, s') \<and> set_holds hf s' (A - {val})) \<and>
    (\<exists>s'. Set_Size s = Inr (card A, s') \<and> set_holds hf s' A)"
  using HasMember_holds [OF assms] Set_Remove_holds [OF assms] Set_Size_holds [OF assms] by blast

theorem Set_HasMember_Remove_witness:
  "(\<exists>s'. HasMember length (Set_new\<lparr>set_encoding := kListPack, set_listpack := Some [0, 0, 0, 9, 0, 1, 5, 1, 255]\<rparr>) ''5''
      = Inr (True, s')) \<and>
   (\<exists>s'. Set_Remove length (Set_new\<lparr>set_encoding := kListPack, set_listpack := Some [0, 0, 0, 9, 0, 1, 5, 1, 255]\<rparr>) ''5''
      = Inr (True, s') \<and> set_holds length s' {})"
proof -
  let ?s = "Set_new\<lparr>set_encoding := kListPack, set_listpack := Some [0, 0, 0, 9, 0, 1, 5, 1, 255]\<rparr>"
  have five: "entry_str (LInt 5) = ''5''" by (simp add: dec_int_def dec.simps digit_char_def char_of_def bit_Suc_0_iff)
  have "set_holds length ?s {''5''}"
    unfolding set_holds_def listpack_holds_def using repr_five five by (auto intro!: exI [of _ "[LInt 5]"])
  from Set_HasMember_Remove [OF this, of "''5''"] show ?thesis by auto
qed

text \<open>
  C29: an integer set that has been emptied throws on the next member that is not an integer: the
  conversion to a listpack asks the empty \<open>IntSet\<close> for its maximum.
\<close>

theorem Set_Add_after_empty_throws:
  assumes "ToCanonicalInt64 a = Some v" "ToCanonicalInt64 b = None"
  shows "bindE (Set_Add hf Set_new a) (\<lambda>(_, s). bindE (Set_Remove hf s a) (\<lambda>(_, s). Set_Add hf s b))
    = Inl Out_of_range"
proof -
  obtain i where i: "Set_Add hf Set_new a = Inr (True, Set_new\<lparr>set_intset := Some i\<rparr>)" "intset_ok i"
    "intset_set i = {v}" using Set_Add_first [OF assms(1)] by blast
  obtain j where j: "Set_Remove hf (Set_new\<lparr>set_intset := Some i\<rparr>) a = Inr (True, Set_new\<lparr>set_intset := Some j\<rparr>)"
    "intset_ok j" "intset_set j = {}" using Set_Remove_last [OF assms(1) i(2,3)] by blast
  show ?thesis using i(1) j(1) Set_Add_emptied [OF assms(2) j(2,3)] by simp
qed

theorem Set_Add_after_empty_throws_witness:
  "bindE (Set_Add length Set_new ''1'') (\<lambda>(_, s). bindE (Set_Remove length s ''1'') (\<lambda>(_, s). Set_Add length s ''x''))
    = Inl Out_of_range"
proof (rule Set_Add_after_empty_throws)
  show "ToCanonicalInt64 ''1'' = Some 1"
    using ToCanonicalInt64_dec_int [of 1] by (simp add: dec_int_def dec.simps is_int64_def digit_char_def char_of_def bit_Suc_0_iff)
  show "ToCanonicalInt64 ''x'' = None"
    by (simp add: ToCanonicalInt64_def ToInt64_def ToInt64_loop.simps)
qed

end
