(* ===== verification/Set_Refinement.thy ===== *)
theory Set_Refinement
  imports Set_Type
begin

text \<open>
  Insertion into a set (\<open>src/data_types/set/set.cpp\<close>) with the conversions between the encodings:
  each conversion keeps the set of strings, and \<open>Add\<close> inserts the member.
\<close>

section \<open>The conversions\<close>

lemma IntSet_Get_repr: "intset_repr i xs \<Longrightarrow> k < length xs \<Longrightarrow> IntSet_Get i k = Inr (xs ! k)"
  by (simp add: IntSet_Get_def EncodedValue_repr)

lemma ConvertIntSetToDict_loop_holds:
  assumes "intset_repr i xs"
  shows "k + n = length xs \<Longrightarrow> dict_ok hf d \<Longrightarrow>
    \<exists>d'. ConvertIntSetToDict_loop hf i n k (Some d) = Inr (Some d') \<and> dict_ok hf d' \<and>
      dom (dict_map d') = dom (dict_map d) \<union> dec_int ` set (drop k xs)"
proof (induction n arbitrary: k d)
  case (Suc n)
  then have k: "k < length xs" by simp
  let ?d = "Dict_Set hf d (dec_int (xs ! k)) ()"
  obtain d' where d': "ConvertIntSetToDict_loop hf i n (k + 1) (Some ?d) = Inr (Some d')" "dict_ok hf d'"
    "dom (dict_map d') = dom (dict_map ?d) \<union> dec_int ` set (drop (k + 1) xs)"
    using Suc.IH [of "k + 1" ?d] Suc.prems dom_put(1) by fastforce
  have "drop k xs = xs ! k # drop (k + 1) xs" using k by (simp add: Cons_nth_drop_Suc)
  then show ?case using d' IntSet_Get_repr [OF assms k] dom_put(2) [OF Suc.prems(2)] by simp
qed simp

lemma ConvertIntSetToDict_holds:
  assumes "set_intset s = Some i" "intset_holds i A" "n \<le> 2 ^ 60"
  shows "\<exists>s'. ConvertIntSetToDict hf s n = Inr s' \<and> set_encoding s' = kDict \<and> set_holds hf s' A"
proof -
  obtain d :: "(string, unit) dict" where d: "Dict_Create n = Some d" using Dict_Create_small [OF assms(3)] by blast
  have r: "intset_repr i (intset_elems i)" "A = dec_int ` set (intset_elems i)"
    using assms(2) by (simp_all add: intset_holds_def intset_ok_def intset_set_def)
  then have len: "IntSet_Size i = length (intset_elems i)" by (simp add: IntSet_Size_def intset_repr_def)
  obtain d' where "ConvertIntSetToDict_loop hf i (IntSet_Size i) 0 (Some d) = Inr (Some d')" "dict_ok hf d'"
    "dom (dict_map d') = A"
    using ConvertIntSetToDict_loop_holds [OF r(1), of 0 "IntSet_Size i" hf d] Dict_Create_ok [OF d] len r(2) by auto
  then show ?thesis using assms(1) d by (simp add: ConvertIntSetToDict_def set_holds_def)
qed

lemma ConvertListPackToDict_loop_holds:
  assumes "ListPack_repr lp es"
  shows "k \<le> length es \<Longrightarrow> dict_ok hf d \<Longrightarrow>
    \<exists>d'. ConvertListPackToDict_loop hf lp (if k < length es then Some (lp_off es k) else None) (Some d)
        = Inr (Some d') \<and> dict_ok hf d' \<and>
      dom (dict_map d') = dom (dict_map d) \<union> entry_str ` set (drop k es)"
proof (induction "length es - k" arbitrary: k d)
  case 0
  then show ?case by (subst ConvertListPackToDict_loop.simps) simp
next
  case (Suc n)
  then have k: "k < length es" "n = length es - Suc k" by simp_all
  let ?d = "Dict_Set hf d (entry_str (es ! k)) ()"
  obtain d' where d': "ConvertListPackToDict_loop hf lp (if Suc k < length es then Some (lp_off es (Suc k)) else None)
        (Some ?d) = Inr (Some d')" "dict_ok hf d'"
    "dom (dict_map d') = dom (dict_map ?d) \<union> entry_str ` set (drop (Suc k) es)"
    using Suc.hyps(1) [OF k(2), of ?d] k(1) dom_put(1) [OF Suc.prems(2)] by auto
  have "drop k es = es ! k # drop (Suc k) es" using k(1) by (simp add: Cons_nth_drop_Suc)
  then show ?case using d' k(1) repr_Get [OF assms, of k] repr_Next [OF assms k(1)] dom_put(2) [OF Suc.prems(2)]
    by (subst ConvertListPackToDict_loop.simps) simp
qed

lemma ConvertListPackToDict_holds:
  assumes "set_listpack s = Some lp" "listpack_holds lp A" "n \<le> 2 ^ 60"
  shows "\<exists>s'. ConvertListPackToDict hf s n = Inr s' \<and> set_encoding s' = kDict \<and> set_holds hf s' A"
proof -
  obtain d :: "(string, unit) dict" where d: "Dict_Create n = Some d" using Dict_Create_small [OF assms(3)] by blast
  obtain es where es: "ListPack_repr lp es" "A = entry_str ` set es" using assms(2) by (auto simp: listpack_holds_def)
  obtain d' where "ConvertListPackToDict_loop hf lp (if es = [] then None else Some (lp_off es 0)) (Some d)
      = Inr (Some d')" "dict_ok hf d'" "dom (dict_map d') = A"
    using ConvertListPackToDict_loop_holds [OF es(1), of 0 hf d] Dict_Create_ok [OF d] es(2)
    by (cases es) auto
  then show ?thesis using assms(1) d repr_First [OF es(1)] by (simp add: ConvertListPackToDict_def set_holds_def)
qed

lemma length_enc_LInt: "length (enc (LInt v)) \<le> 19"
proof -
  have "enc_len (LInt v) \<le> 9" using int_len_le [of "entry_type (LInt v)"] by (simp add: encode_LInt)
  then show ?thesis by (simp add: length_enc BacklenBytes_def)
qed

lemma length_body_LInt: "length (lp_body (map LInt xs)) \<le> 19 * length xs"
proof (induction xs)
  case (Cons x xs)
  then show ?case using length_enc_LInt [of x] by simp
qed simp

lemma ConvertIntSetToListPack_loop_holds:
  assumes "intset_repr i xs" "\<forall>x\<in>set xs. is_int64 x" "length xs \<le> 1000"
  shows "k + n = length xs \<Longrightarrow> ListPack_repr lp (map LInt (take k xs)) \<Longrightarrow>
    \<exists>lp'. ConvertIntSetToListPack_loop i n k lp = Inr lp' \<and> ListPack_repr lp' (map LInt xs)"
proof (induction n arbitrary: k lp)
  case (Suc n)
  then have k: "k < length xs" by simp
  have tk: "map LInt (take k xs) @ [LInt (xs ! k)] = map LInt (take (k + 1) xs)"
    using k by (simp add: take_Suc_conv_app_nth)
  have "lp_fits (map LInt (take (k + 1) xs))"
    using length_body_LInt [of "take (k + 1) xs"] assms(3) by (simp add: lp_fits_def min_def split: if_splits)
  then obtain lp' where lp': "ListPack_Append_int lp (xs ! k) = Inr (True, lp')"
    "ListPack_repr lp' (map LInt (take (k + 1) xs))"
    using ListPack_Append_element [OF Suc.prems(2) element_int, of "xs ! k"] assms(2) k
    unfolding tk by (auto simp: ListPack_Append_int_def)
  then show ?case using Suc.IH [of "k + 1" lp'] Suc.prems(1) IntSet_Get_repr [OF assms(1) k] by simp
qed simp

text \<open>The integers of a set in the integer encoding, in the order of its array.\<close>

definition set_ints :: "set_obj \<Rightarrow> int list" where
  "set_ints s = (case set_intset s of None \<Rightarrow> [] | Some i \<Rightarrow> intset_elems i)"

lemma set_ints_holds:
  assumes "set_holds hf s A" "set_encoding s = kIntSet"
  shows "distinct (set_ints s)" "\<forall>x\<in>set (set_ints s). is_int64 x" "A = dec_int ` set (set_ints s)"
    "card A = length (set_ints s)"
proof -
  show 1: "distinct (set_ints s)" and 2: "\<forall>x\<in>set (set_ints s). is_int64 x" and 3: "A = dec_int ` set (set_ints s)"
    using assms by (auto simp: set_holds_def set_ints_def intset_holds_def intset_ok_def intset_set_def
        intset_repr_def strict_sorted_iff split: option.splits)
  show "card A = length (set_ints s)"
    unfolding 3 using card_image [OF inj_dec_int [OF 2]] distinct_card [OF 1] by simp
qed

lemma ConvertIntSetToListPack_holds:
  assumes s: "set_holds hf s A" "set_encoding s = kIntSet" "card A < 128"
    and val: "ToCanonicalInt64 val = None" "length val \<le> 64"
  shows "\<exists>s'. ConvertIntSetToListPack s val = Inr s' \<and> set_encoding s' = kListPack \<and> set_holds hf s' (insert val A)"
proof -
  let ?xs = "set_ints s"
  note x = set_ints_holds [OF s(1,2)]
  obtain lp0 where lp0: "ListPack_new = Inr lp0" "ListPack_repr lp0 []" using repr_new by blast
  obtain lp1 where lp1: "(case set_intset s of None \<Rightarrow> Inr lp0
      | Some i \<Rightarrow> ConvertIntSetToListPack_loop i (IntSet_Size i) 0 lp0) = Inr lp1" "ListPack_repr lp1 (map LInt ?xs)"
  proof (cases "set_intset s")
    case None
    then show ?thesis using that lp0 by (simp add: set_ints_def)
  next
    case (Some i)
    then have r: "intset_repr i ?xs" using s(1,2) by (simp add: set_holds_def set_ints_def intset_holds_def intset_ok_def)
    then have "IntSet_Size i = length ?xs" by (simp add: IntSet_Size_def intset_repr_def)
    then show ?thesis
      using ConvertIntSetToListPack_loop_holds [OF r x(2), of 0 "length ?xs" lp0] lp0(2) x(4) s(3) Some that by auto
  qed
  let ?es = "map LInt ?xs @ [entry_of val]"
  have "lp_fits ?es"
    using length_body_LInt [of ?xs] length_enc_entry_of [of val] val(2) x(4) s(3) by (simp add: lp_fits_def)
  then obtain lp2 where lp2: "ListPack_Append lp1 val = Inr (True, lp2)" "ListPack_repr lp2 ?es"
    using ListPack_Append_element [OF lp1(2) element_str, of val] val(2) by (auto simp: ListPack_Append_def)
  have new: "val \<notin> dec_int ` set ?xs" using canonical_member [OF x(2)] val(1) by simp
  have m: "map entry_str ?es = map dec_int ?xs @ [val]" by simp
  have "distinct (map entry_str ?es)" unfolding m using new x(1) inj_dec_int [OF x(2)] by (simp add: distinct_map)
  moreover have "entry_str ` set ?es = insert val A" unfolding x(3) set_map [symmetric] m by simp
  ultimately have "listpack_holds lp2 (insert val A)" using lp2(2) unfolding listpack_holds_def by metis
  moreover have "ConvertIntSetToListPack s val =
      Inr (s\<lparr>set_encoding := kListPack, set_listpack := Some lp2, set_intset := None\<rparr>)"
    unfolding ConvertIntSetToListPack_def lp0(1) bindE_Inr lp1(1) lp2(1) by simp
  ultimately show ?thesis by (simp add: set_holds_def)
qed

lemma MaybeConvertIntSetToListPack_holds:
  assumes s: "set_holds hf s A" "set_encoding s = kIntSet" "set_intset s = None \<or> A \<noteq> {}"
    and val: "ToCanonicalInt64 val = None"
  shows "\<exists>b s'. MaybeConvertIntSetToListPack s val = Inr (b, s') \<and>
    (if b then set_encoding s' = kListPack \<and> set_holds hf s' (insert val A) else s' = s)"
proof -
  note x = set_ints_holds [OF s(1,2)]
  let ?n = "case set_intset s of None \<Rightarrow> 0 | Some i \<Rightarrow> IntSet_Size i"
  have n: "?n = card A"
    using Set_Size_holds [OF s(1)] s(2) by (simp add: Set_Size_def)
  obtain l e where le: "(case set_intset s of
            None \<Rightarrow> Inr (0, 0)
          | Some i \<Rightarrow>
              bindE (IntSet_Max i) (\<lambda>max_integer. bindE (IntSet_Min i) (\<lambda>min_integer.
                let max_integer_digits = Digits10 (nat (max_integer mod 2 ^ 64));
                    min_integer_digits = Digits10 (nat (min_integer mod 2 ^ 64));
                    estimated_integer =
                      (if max_integer_digits > min_integer_digits then max_integer else min_integer)
                in Inr (max max_integer_digits min_integer_digits,
                        ListPack_EstimateBytes estimated_integer (IntSet_Size i))))) = Inr (l, e)"
  proof (cases "set_intset s")
    case None
    then show ?thesis using that by simp
  next
    case (Some i)
    then have "intset_repr i (intset_elems i)" "intset_elems i \<noteq> []"
      using s by (auto simp: set_holds_def intset_holds_def intset_ok_def intset_set_def)
    then show ?thesis using IntSet_Min_Max_repr Some that by (simp add: Let_def)
  qed
  let ?c = "card A < kListPackMaxEntries \<and> length val \<le> kListPackElementMaxLength \<and>
    l \<le> kListPackElementMaxLength \<and> e \<le> SIZE_MAX - ListPack_EstimateEntryBytes val"
  define safe where "safe = (?c \<and> e + ListPack_EstimateEntryBytes val \<le> 2 ^ 30)"
  have safe: "(if ?c then ListPack_SafeToAdd None (e + ListPack_EstimateEntryBytes val) else Inr False) = Inr safe"
    "safe \<longrightarrow> ?c" by (auto simp: safe_def ListPack_SafeToAdd_def)
  have eq: "MaybeConvertIntSetToListPack s val =
      (if safe then bindE (ConvertIntSetToListPack s val) (\<lambda>s. Inr (True, s)) else Inr (False, s))"
    unfolding MaybeConvertIntSetToListPack_def Let_def [of "length val"] Let_def [of "ListPack_EstimateEntryBytes val"] le
    using s(2) safe(1) by (simp add: n)
  show ?thesis
  proof (cases safe)
    case True
    then have c: "card A < 128" "length val \<le> 64"
      unfolding safe_def kListPackMaxEntries_def kListPackElementMaxLength_def by blast+
    obtain s' where "ConvertIntSetToListPack s val = Inr s'" "set_encoding s' = kListPack"
      "set_holds hf s' (insert val A)" using ConvertIntSetToListPack_holds [OF s(1,2) c(1) val c(2)] by blast
    moreover from this(1) have "MaybeConvertIntSetToListPack s val = Inr (True, s')"
      unfolding eq using True by simp
    ultimately show ?thesis by (intro exI [of _ True] exI [of _ s']) simp
  next
    case False
    then show ?thesis using eq by (intro exI [of _ False] exI [of _ s]) simp
  qed
qed

section \<open>Insertion\<close>

text \<open>
  When a set is ready for a member: a set of integers has at most \<open>kIntSetMaxEntries\<close> members, and
  is not emptied when the member is not an integer.
\<close>

definition add_ready :: "set_obj \<Rightarrow> string set \<Rightarrow> string \<Rightarrow> bool" where
  "add_ready s A val = (length val < 2 ^ 31 \<and>
     (if set_encoding s = kIntSet
      then card A \<le> 512 \<and> (ToCanonicalInt64 val = None \<longrightarrow> set_intset s = None \<or> A \<noteq> {}) else True))"

lemma dict_add_new_holds:
  assumes "set_encoding s = kDict" "set_holds hf s A"
  shows "\<exists>s'. dict_add_new hf s val = Inr (val \<notin> A, s') \<and> set_holds hf s' (insert val A)"
proof -
  obtain d where d: "set_dict s = Some d" "dict_ok hf d" "A = dom (dict_map d)"
    using assms by (auto simp: set_holds_def split: option.splits)
  obtain r d' where g: "Dict_Get hf d val = (r, d')" by fastforce
  have r: "r = dict_map d val" "dict_ok hf d'" "dict_map d' = dict_map d" using dict.get [OF d(2) g] by simp_all
  show ?thesis
  proof (cases r)
    case None
    then have "val \<notin> A" using r(1) d(3) by auto
    then show ?thesis using None assms(1) d(1,3) g r(3) dom_put [OF r(2), of val "()"]
      by (simp add: dict_add_new_def set_holds_def)
  next
    case (Some u)
    then have "val \<in> A" using r(1) d(3) by (auto simp: dom_def)
    then show ?thesis using Some assms(1) d(1,3) g r(2,3)
      by (simp add: dict_add_new_def set_holds_def insert_absorb)
  qed
qed

lemma IntSetAdd_int:
  assumes s: "set_holds hf s A" "set_encoding s = kIntSet" "card A \<le> 512" and v: "ToCanonicalInt64 val = Some v"
  shows "\<exists>s'. IntSetAddAndMaybeConvert hf s val = Inr (val \<notin> A, s') \<and> set_holds hf s' (insert val A)"
proof -
  define i where "i = (case set_intset s of None \<Rightarrow> IntSet_new | Some i \<Rightarrow> i)"
  have vv: "is_int64 v" "val = dec_int v" using ToCanonicalInt64_Some [OF v] by simp_all
  have i: "intset_ok i" "\<forall>x\<in>intset_set i. is_int64 x" "A = dec_int ` intset_set i"
    using s(1,2) intset_ok_new by (auto simp: i_def set_holds_def intset_holds_def split: option.splits)
  have mem: "val \<in> A \<longleftrightarrow> v \<in> intset_set i" using canonical_member [OF i(2), of val] i(3) v by auto
  have len: "is_length i \<le> 512"
    using iset.count_card [OF i(1)] card_image [OF inj_dec_int [OF i(2)]] i(3) s(3) by (simp add: IntSet_Size_def)
  have "encoding i \<le> 8" using i(1) by (auto simp: intset_ok_def intset_repr_def encoding_ok_def)
  then have "max (encoding i) (ValueEncoding v) \<le> 8" by (simp add: ValueEncoding_def)
  then have "(is_length i + 1) * max (encoding i) (ValueEncoding v) \<le> 513 * 8" using len by (intro mult_le_mono) simp_all
  then have room: "intset_room i v" by (simp add: intset_room_def)
  obtain j where j: "IntSet_Add i v = Inr (v \<notin> intset_set i, j)" "intset_ok j" "intset_set j = insert v (intset_set i)"
    using iset.add_elem [OF i(1) vv(1) room] by blast
  have jh: "intset_holds j (insert val A)" using j i(2,3) vv by (simp add: intset_holds_def)
  let ?s = "s\<lparr>set_intset := Some j\<rparr>"
  have hs: "set_holds hf ?s (insert val A)" using jh s(2) by (simp add: set_holds_def)
  have "\<exists>s'. MaybeConvertIntsetToDict hf ?s = Inr s' \<and> set_holds hf s' (insert val A)"
  proof (cases "IntSet_Size j > kIntSetMaxEntries")
    case True
    have "IntSet_Size j \<le> 513"
      using iset.count_card [OF j(2)] j(3) iset.count_card [OF i(1)] iset.elems_finite [OF i(1)] len
      by (simp add: IntSet_Size_def card_insert_if)
    then have "IntSet_Size j \<le> 2 ^ 60" by simp
    then show ?thesis using True ConvertIntSetToDict_holds [of ?s j "insert val A" "IntSet_Size j" hf] jh
      by (auto simp: MaybeConvertIntsetToDict_def)
  next
    case False
    then show ?thesis using hs by (simp add: MaybeConvertIntsetToDict_def)
  qed
  then show ?thesis using j(1) v hs mem
    by (auto simp: IntSetAddAndMaybeConvert_def i_def [symmetric] insert_absorb)
qed

lemma IntSetAdd_text:
  assumes s: "set_holds hf s A" "set_encoding s = kIntSet" "card A \<le> 512" "set_intset s = None \<or> A \<noteq> {}"
    and v: "ToCanonicalInt64 val = None"
  shows "\<exists>s'. IntSetAddAndMaybeConvert hf s val = Inr (val \<notin> A, s') \<and> set_holds hf s' (insert val A)"
proof -
  have new: "val \<notin> A" using canonical_member [OF set_ints_holds(2) [OF s(1,2)]] set_ints_holds(3) [OF s(1,2)] v by simp
  obtain b t where t: "MaybeConvertIntSetToListPack s val = Inr (b, t)"
    "if b then set_encoding t = kListPack \<and> set_holds hf t (insert val A) else t = s"
    using MaybeConvertIntSetToListPack_holds [OF s(1,2,4) v] by blast
  show ?thesis
  proof (cases b)
    case True
    then show ?thesis using t v new by (simp add: IntSetAddAndMaybeConvert_def)
  next
    case False
    let ?n = "case set_intset s of None \<Rightarrow> 1 | Some i \<Rightarrow> IntSet_Size i + 1"
    have n: "?n = card A + 1" using Set_Size_holds [OF s(1)] s(2) by (auto simp: Set_Size_def split: option.splits)
    then have n60: "?n \<le> 2 ^ 60" using s(3) by simp
    obtain u where u: "ConvertIntSetToDict hf s ?n = Inr u" "set_encoding u = kDict" "set_holds hf u A"
    proof (cases "set_intset s")
      case None
      obtain d :: "(string, unit) dict" where "Dict_Create 1 = Some d" using Dict_Create_small [of 1] by auto
      then show ?thesis using that None s(1,2) Dict_Create_ok(1) [of 1 d hf] Dict_Create_ok(2) [of 1 d]
        by (simp add: ConvertIntSetToDict_def set_holds_def)
    next
      case (Some i)
      then show ?thesis using that ConvertIntSetToDict_holds [OF Some _ n60, of A hf] s(1,2)
        by (auto simp: set_holds_def)
    qed
    obtain d where d: "set_dict u = Some d" "dict_ok hf d" "A = dom (dict_map d)"
      using u(2,3) by (auto simp: set_holds_def split: option.splits)
    have "set_holds hf (u\<lparr>set_dict := Some (Dict_Set hf d val ())\<rparr>) (insert val A)"
      using u(2) d dom_put [OF d(2), of val "()"] by (simp add: set_holds_def)
    then show ?thesis using False t v new u(1) d(1) by (simp add: IntSetAddAndMaybeConvert_def)
  qed
qed

lemma ListPackAdd_holds:
  assumes s: "set_holds hf s A" "set_encoding s = kListPack" and len: "length val < 2 ^ 31"
  shows "\<exists>s'. ListPackAddAndMaybeConvert hf s val = Inr (val \<notin> A, s') \<and> set_holds hf s' (insert val A)"
proof -
  obtain lp where lp: "set_listpack s = Some lp" "listpack_holds lp A"
    using s by (auto simp: set_holds_def split: option.splits)
  obtain es where es: "ListPack_repr lp es" "distinct (map entry_str es)" "A = entry_str ` set es"
    using lp(2) by (auto simp: listpack_holds_def)
  note f = ListPack_Find_holds [OF es(1), of val]
  show ?thesis
  proof (cases "find_skip val 0 0 es")
    case (Some k)
    then have "val \<in> A" using find_skip_None [of val es] es(3) by auto
    then show ?thesis using Some f lp(1) s(1) by (simp add: ListPackAddAndMaybeConvert_def insert_absorb)
  next
    case None
    then have new: "val \<notin> A" using find_skip_None es(3) by simp
    obtain lp1 where lp1: "ListPack_Size lp = Inr (length es, lp1)" "ListPack_repr lp1 es" by (rule repr_Size [OF es(1)])
    obtain lp2 where lp2: "ListPack_Size lp1 = Inr (length es, lp2)" "ListPack_repr lp2 es" by (rule repr_Size [OF lp1(2)])
    let ?m = "ListPack_EstimateEntryBytes val"
    let ?c = "length es < kListPackMaxEntries \<and> length val \<le> kListPackElementMaxLength"
    define safe where "safe = (?c \<and> length lp1 \<le> 2 ^ 30 \<and> ?m \<le> 2 ^ 30 - length lp1)"
    have safe: "(if ?c then ListPack_SafeToAdd (Some lp1) ?m else Inr False) = Inr safe"
      using repr_TotalBytes [OF lp1(2)] by (auto simp: ListPack_SafeToAdd_def safe_def)
    show ?thesis
    proof (cases safe)
      case True
      have "lp_fits (es @ [entry_of val])"
        using True repr_length [OF lp1(2)] length_enc_entry_of [of val]
        by (simp add: safe_def lp_fits_def kListPackElementMaxLength_def)
      then obtain lp3 where lp3: "ListPack_Append lp1 val = Inr (True, lp3)" "ListPack_repr lp3 (es @ [entry_of val])"
        using ListPack_Append_element [OF lp1(2) element_str [OF len]] by (auto simp: ListPack_Append_def)
      have "listpack_holds lp3 (insert val A)"
        unfolding listpack_holds_def using lp3(2) es(2,3) new by (intro exI [of _ "es @ [entry_of val]"]) auto
      then show ?thesis using None f lp(1) lp1(1) safe True lp3(1) new s(2)
        by (simp add: ListPackAddAndMaybeConvert_def set_holds_def)
    next
      case False
      let ?s = "s\<lparr>set_listpack := Some lp2\<rparr>"
      have h2: "listpack_holds lp2 A" using lp2(2) es(2,3) by (auto simp: listpack_holds_def)
      have "length es \<le> length (lp_body es)"
      proof (induction es)
        case (Cons e es)
        then show ?case using enc_nonempty [of e] by (simp del: length_greater_0_conv)
      qed simp
      then have "length es + 1 \<le> 2 ^ 60"
        using repr_length [OF es(1)] es(1) by (simp add: ListPack_repr_def)
      then obtain u where u: "ConvertListPackToDict hf ?s (length es + 1) = Inr u" "set_encoding u = kDict" "set_holds hf u A"
        using ConvertListPackToDict_holds [of ?s lp2 A "length es + 1" hf] h2 by auto
      have "ListPackAddAndMaybeConvert hf s val = dict_add_new hf u val"
        using None f lp(1) lp1(1) lp2(1) safe False u(1) by (simp add: ListPackAddAndMaybeConvert_def)
      then show ?thesis using dict_add_new_holds [OF u(2,3)] by simp
    qed
  qed
qed

lemma Set_Add_holds:
  assumes "set_holds hf s A" "add_ready s A val"
  shows "\<exists>s'. Set_Add hf s val = Inr (val \<notin> A, s') \<and> set_holds hf s' (insert val A)"
proof (cases "set_encoding s")
  case kIntSet
  then show ?thesis using assms IntSetAdd_int [OF assms(1) kIntSet] IntSetAdd_text [OF assms(1) kIntSet]
    by (cases "ToCanonicalInt64 val") (auto simp: Set_Add_def add_ready_def)
next
  case kListPack
  then show ?thesis using ListPackAdd_holds [OF assms(1) kListPack] assms(2) by (simp add: Set_Add_def add_ready_def)
next
  case kDict
  then show ?thesis using dict_add_new_holds [OF kDict assms(1)] assms(1)
    by (auto simp: Set_Add_def DictAdd_def set_holds_def split: option.splits)
qed

section \<open>Properties\<close>



end
