(* ===== verification/Set_Members.thy ===== *)
theory Set_Members
  imports Set_Refinement Dict_Iterator
begin

text \<open>
  Traversals of a set (\<open>ForEachMember\<close> in \<open>src/data_types/set/set.h\<close>, \<open>ListAllMembers\<close> in
  \<open>set.cpp\<close>), over the iterators of the integer set and the dict and the traversal of the listpack.
\<close>

section \<open>Definitions\<close>

definition ForEachMember :: "set_obj \<Rightarrow> (string \<Rightarrow> 's \<Rightarrow> bool \<times> 's) \<Rightarrow> 's \<Rightarrow> (bool \<times> 's \<times> set_obj) res" where
  "ForEachMember s visitor a = bindE (Set_Size s) (\<lambda>(n, s).
     if n = 0 then Inr (True, a, s)
     else case set_encoding s of
       kIntSet \<Rightarrow> bindE (deref (set_intset s)) (\<lambda>i.
         bindE (ForEach_intset i (\<lambda>v. visitor (dec_int v)) IntSet_SeekToFirst a) (\<lambda>(r, a). Inr (r, a, s)))
     | kListPack \<Rightarrow> bindE (deref (set_listpack s)) (\<lambda>lp.
         bindE (ListPack_ForEach lp 0 (n - 1) visitor a) (\<lambda>(r, a). Inr (r, a, s)))
     | kDict \<Rightarrow> bindE (deref (set_dict s)) (\<lambda>d.
         case ForEach_dict d (\<lambda>key _. visitor key) (Iterator_SeekToFirst d) a of (r, a) \<Rightarrow> Inr (r, a, s)))"

definition ListAllMembers :: "set_obj \<Rightarrow> (string list \<times> set_obj) res" where
  "ListAllMembers s = bindE (Set_Size s) (\<lambda>(_, s).
     bindE (ForEachMember s (\<lambda>member members. (True, members @ [member])) []) (\<lambda>(_, members, s).
       Inr (members, s)))"

section \<open>Lemmas\<close>

lemma visit_ints_visit: "visit_ints (\<lambda>v. f (dec_int v)) vs a = visit f (map dec_int vs) a"
  by (induction vs arbitrary: a) (auto split: prod.splits)

lemma visit_entries_visit: "visit_entries (\<lambda>key _. f key) es a = visit f (map de_key es) a"
  by (induction es arbitrary: a) (auto split: prod.splits)

lemma ForEachMember_holds:
  assumes "set_holds hf s A"
  shows "\<exists>ms s'. distinct ms \<and> set ms = A \<and> set_holds hf s' A \<and>
    (\<forall>f a. ForEachMember s f (a :: 's) = Inr (fst (visit f ms a), snd (visit f ms a), s'))"
proof -
  obtain s' where s': "Set_Size s = Inr (card A, s')" "set_holds hf s' A" using Set_Size_holds [OF assms] by blast
  show ?thesis
  proof (cases "A = {}")
    case True
    then have "ForEachMember s f (a :: 's) = Inr (fst (visit f [] a), snd (visit f [] a), s')" for f a
      using s'(1) by (simp add: ForEachMember_def)
    then show ?thesis using True s'(2) by (intro exI [of _ "[]"] exI [of _ s']) simp
  next
    case False
    then have c: "card A \<noteq> 0" using set_holds_finite [OF assms] by simp
    show ?thesis using s'(2)
    proof (cases rule: set_holds_cases)
      case no_intset
      then show ?thesis using False by simp
    next
      case (intset i)
      let ?ms = "map dec_int (intset_elems i)"
      have r: "intset_repr i (intset_elems i)" "\<forall>x\<in>set (intset_elems i). is_int64 x" "A = set ?ms"
        using intset(3) by (simp_all add: intset_holds_def intset_ok_def intset_set_def)
      then have "distinct ?ms" using inj_dec_int [OF r(2)]
        by (simp add: distinct_map intset_repr_def strict_sorted_iff)
      moreover have "ForEachMember s f (a :: 's) = Inr (fst (visit f ?ms a), snd (visit f ?ms a), s')" for f a
        using s'(1) c intset(1,2) ForEach_intset_repr [OF r(1), of "\<lambda>v. f (dec_int v)" 0 a]
        by (simp add: ForEachMember_def IntSet_SeekToFirst_def visit_ints_visit case_prod_beta)
      ultimately show ?thesis using r(3) s'(2) by blast
    next
      case (listpack lp)
      then obtain es where es: "ListPack_repr lp es" "distinct (map entry_str es)" "A = set (map entry_str es)"
        by (auto simp: listpack_holds_def)
      have "card A = length es" using es(2,3) distinct_card [of "map entry_str es"] by simp
      then have "entry_range es 0 (card A - 1) = map entry_str es" using c by (simp add: entry_range_def)
      then have "ForEachMember s f (a :: 's) =
          Inr (fst (visit f (map entry_str es) a), snd (visit f (map entry_str es) a), s')" for f a
        using s'(1) c listpack(1,2) repr_ForEach [OF es(1), of 0 "card A - 1" f a]
        by (simp add: ForEachMember_def case_prod_beta)
      then show ?thesis using es(2,3) s'(2) by blast
    next
      case (dict d)
      let ?ms = "map de_key (dict_entries d)"
      have "distinct ?ms" "set ?ms = A"
        using dict(3,4) by (auto simp: dict_ok_def dict_map_def entry_map_def dom_map_of_conv_image_fst image_image)
      moreover have "ForEachMember s f (a :: 's) = Inr (fst (visit f ?ms a), snd (visit f ?ms a), s')" for f a
        using s'(1) c dict(1,2) Iterator_all [OF dict(3), of "\<lambda>key _. f key" a]
        by (simp add: ForEachMember_def visit_entries_visit case_prod_beta)
      ultimately show ?thesis using s'(2) by blast
    qed
  qed
qed

lemma visit_collect: "visit (\<lambda>x acc. (True, acc @ [x])) xs acc = (True, acc @ xs)"
  by (induction xs arbitrary: acc) auto

lemma ListAllMembers_holds:
  assumes "set_holds hf s A"
  shows "\<exists>ms s'. ListAllMembers s = Inr (ms, s') \<and> distinct ms \<and> set ms = A \<and> set_holds hf s' A"
proof -
  obtain t where t: "Set_Size s = Inr (card A, t)" "set_holds hf t A" using Set_Size_holds [OF assms] by blast
  obtain ms s' where "distinct ms" "set ms = A" "set_holds hf s' A"
    "\<forall>f a. ForEachMember t f (a :: string list) = Inr (fst (visit f ms a), snd (visit f ms a), s')"
    using ForEachMember_holds [OF t(2)] by blast
  then show ?thesis using t(1) by (auto simp: ListAllMembers_def visit_collect)
qed

end
