(* ===== verification/Set_Commands.thy ===== *)
theory Set_Commands
  imports Command_Env Set_Members
begin

text \<open>
  The set commands \<open>sadd.cpp\<close>, \<open>srem.cpp\<close>, \<open>scard.cpp\<close>, \<open>sismember.cpp\<close> and \<open>smembers.cpp\<close> of
  \<open>src/server/commands/set\<close>, over the set type and the database.  Four of them catch the exceptions
  of the set and reply as if the key had the wrong type; \<open>catch_exception\<close> separates the exceptions from the
  faults that are undefined behaviour.
\<close>

section \<open>Definitions\<close>

definition is_exception :: "fault \<Rightarrow> bool" where
  "is_exception f = (f \<in> {Out_of_range, Length_error, Invalid_argument, Logic_error})"

definition catch_exception :: "'a res \<Rightarrow> 'a \<Rightarrow> 'a res" where
  "catch_exception r handler_value = (case r of
     Inl f \<Rightarrow> if is_exception f then Inr handler_value else Inl f
   | Inr v \<Rightarrow> Inr v)"

text \<open>\<open>FindSet\<close> is the lookup the five commands start with: \<open>None\<close> is the wrong type.\<close>

definition FindSet :: "server_env \<Rightarrow> (set_obj, 'l, 'z, 'h) redis_object redis_db \<Rightarrow> string
    \<Rightarrow> (set_obj option option \<times> (set_obj, 'l, 'z, 'h) redis_object redis_db) res" where
  "FindSet env db key = (case LookupKey (key_hash env) (clock env 0) db key of
     (None, db) \<Rightarrow> Inr (Some None, db)
   | (Some ob, db) \<Rightarrow>
       if RedisObject_Type ob \<noteq> kSet then Inr (None, db)
       else bindE (RedisObject_Set ob) (\<lambda>s. Inr (Some (Some s), db)))"

text \<open>
  The loop inside the \<open>try\<close> block: an exception ends it, and the members added before stay.  The
  exception \<open>Add\<close> can throw on a well-formed set comes from \<open>Max\<close>, before the set is changed.
\<close>

fun SAdd_loop :: "(string \<Rightarrow> nat) \<Rightarrow> string list \<Rightarrow> int \<Rightarrow> set_obj \<Rightarrow> (int option \<times> set_obj) res" where
  "SAdd_loop hf [] added s = Inr (Some added, s)"
| "SAdd_loop hf (val # vals) added s = (case Set_Add hf s val of
     Inl f \<Rightarrow> if is_exception f then Inr (None, s) else Inl f
   | Inr (b, s) \<Rightarrow> SAdd_loop hf vals (added + (if b then 1 else 0)) s)"

definition SAdd :: "server_env \<Rightarrow> (set_obj, 'l, 'z, 'h) redis_object redis_db \<Rightarrow> string list
    \<Rightarrow> (int option \<times> (set_obj, 'l, 'z, 'h) redis_object redis_db) res" where
  "SAdd env db args = bindE (FindSet env db (args ! 0)) (\<lambda>(found, db). case found of
     None \<Rightarrow> Inr (None, db)
   | Some found \<Rightarrow>
       (case (case found of
            Some s \<Rightarrow> (s, DbStatus.kOk, db)
          | None \<Rightarrow> (Set_new, SetKey (key_hash env) db (args ! 0) (Some (Set_value Set_new)) 0 False)) of
          (s, status, db) \<Rightarrow>
            if status = DbStatus.kError then Inr (None, db)
            else bindE (SAdd_loop (key_hash env) (drop 1 args) 0 s) (\<lambda>(added, s).
              Inr (added, StoreObject env db (args ! 0) (Set_value s)))))"

fun SRem_loop :: "(string \<Rightarrow> nat) \<Rightarrow> string list \<Rightarrow> int \<Rightarrow> set_obj \<Rightarrow> (int option \<times> set_obj) res" where
  "SRem_loop hf [] deleted s = Inr (Some deleted, s)"
| "SRem_loop hf (val # vals) deleted s = (case Set_Remove hf s val of
     Inl f \<Rightarrow> if is_exception f then Inr (None, s) else Inl f
   | Inr (b, s) \<Rightarrow> SRem_loop hf vals (deleted + (if b then 1 else 0)) s)"

definition SRem :: "server_env \<Rightarrow> (set_obj, 'l, 'z, 'h) redis_object redis_db \<Rightarrow> string list
    \<Rightarrow> (int option \<times> (set_obj, 'l, 'z, 'h) redis_object redis_db) res" where
  "SRem env db args = bindE (FindSet env db (args ! 0)) (\<lambda>(found, db). case found of
     None \<Rightarrow> Inr (None, db)
   | Some None \<Rightarrow> Inr (Some 0, db)
   | Some (Some s) \<Rightarrow> bindE (SRem_loop (key_hash env) (drop 1 args) 0 s) (\<lambda>(deleted, s).
       Inr (deleted, StoreObject env db (args ! 0) (Set_value s))))"

definition SCard :: "server_env \<Rightarrow> (set_obj, 'l, 'z, 'h) redis_object redis_db \<Rightarrow> string
    \<Rightarrow> (int option \<times> (set_obj, 'l, 'z, 'h) redis_object redis_db) res" where
  "SCard env db key = bindE (FindSet env db key) (\<lambda>(found, db). case found of
     None \<Rightarrow> Inr (None, db)
   | Some None \<Rightarrow> Inr (Some 0, db)
   | Some (Some s) \<Rightarrow> catch_exception (bindE (Set_Size s) (\<lambda>(n, s).
       Inr (ToReplyInteger n, StoreObject env db key (Set_value s)))) (None, db))"

definition SIsMember :: "server_env \<Rightarrow> (set_obj, 'l, 'z, 'h) redis_object redis_db \<Rightarrow> string \<times> string
    \<Rightarrow> (int option \<times> (set_obj, 'l, 'z, 'h) redis_object redis_db) res" where
  "SIsMember env db a = bindE (FindSet env db (fst a)) (\<lambda>(found, db). case found of
     None \<Rightarrow> Inr (None, db)
   | Some None \<Rightarrow> Inr (Some 0, db)
   | Some (Some s) \<Rightarrow> catch_exception (bindE (HasMember (key_hash env) s (snd a)) (\<lambda>(b, s).
       Inr (Some (if b then 1 else 0), StoreObject env db (fst a) (Set_value s)))) (None, db))"

definition SMembers :: "server_env \<Rightarrow> (set_obj, 'l, 'z, 'h) redis_object redis_db \<Rightarrow> string \<Rightarrow> ProtocolVersion
    \<Rightarrow> (string option \<times> (set_obj, 'l, 'z, 'h) redis_object redis_db) res" where
  "SMembers env db key p = bindE (FindSet env db key) (\<lambda>(found, db). case found of
     None \<Rightarrow> Inr (None, db)
   | Some None \<Rightarrow> Inr (Some (FromSetHeader 0 p), db)
   | Some (Some s) \<Rightarrow> bindE (Set_Size s) (\<lambda>(n, s).
       bindE (ForEachMember s (\<lambda>member encoded. (True, AppendBulkString member encoded)) (FromSetHeader n p))
         (\<lambda>(_, encoded, s). Inr (Some encoded, StoreObject env db key (Set_value s)))))"

definition HandleSAdd :: "server_env \<Rightarrow> ProtocolVersion \<Rightarrow> string list \<Rightarrow> (set_obj, 'l, 'z, 'h) redis_object redis_db option
    \<Rightarrow> (set_obj, 'l, 'z, 'h) redis_object handled" where
  "HandleSAdd env p args redis_db =
     (if length args < 2 then Inr (reply env WrongNumberOfArguments, redis_db)
      else with_db env redis_db (\<lambda>db. bindE (SAdd env db args) (\<lambda>(result, db).
        Inr ((case result of Some n \<Rightarrow> if n > 0 then [MarkModified] else [] | None \<Rightarrow> []) @ integer_reply env result, db))))"

definition HandleSRem :: "server_env \<Rightarrow> ProtocolVersion \<Rightarrow> string list \<Rightarrow> (set_obj, 'l, 'z, 'h) redis_object redis_db option
    \<Rightarrow> (set_obj, 'l, 'z, 'h) redis_object handled" where
  "HandleSRem env p args redis_db =
     (if length args < 2 then Inr (reply env WrongNumberOfArguments, redis_db)
      else with_db env redis_db (\<lambda>db. bindE (SRem env db args) (\<lambda>(result, db).
        Inr ((case result of Some n \<Rightarrow> if n > 0 then [MarkModified] else [] | None \<Rightarrow> []) @ integer_reply env result, db))))"

definition HandleSCard :: "server_env \<Rightarrow> ProtocolVersion \<Rightarrow> string list \<Rightarrow> (set_obj, 'l, 'z, 'h) redis_object redis_db option
    \<Rightarrow> (set_obj, 'l, 'z, 'h) redis_object handled" where
  "HandleSCard env p args redis_db = (case args of
     [key] \<Rightarrow> with_db env redis_db (\<lambda>db. bindE (SCard env db key) (\<lambda>(result, db). Inr (integer_reply env result, db)))
   | _ \<Rightarrow> Inr (reply env WrongNumberOfArguments, redis_db))"

definition HandleSIsMember :: "server_env \<Rightarrow> ProtocolVersion \<Rightarrow> string list \<Rightarrow> (set_obj, 'l, 'z, 'h) redis_object redis_db option
    \<Rightarrow> (set_obj, 'l, 'z, 'h) redis_object handled" where
  "HandleSIsMember env p args redis_db = (case args of
     [key, member] \<Rightarrow> with_db env redis_db (\<lambda>db. bindE (SIsMember env db (key, member)) (\<lambda>(result, db).
       Inr (integer_reply env result, db)))
   | _ \<Rightarrow> Inr (reply env WrongNumberOfArguments, redis_db))"

definition HandleSMembers :: "server_env \<Rightarrow> ProtocolVersion \<Rightarrow> string list \<Rightarrow> (set_obj, 'l, 'z, 'h) redis_object redis_db option
    \<Rightarrow> (set_obj, 'l, 'z, 'h) redis_object handled" where
  "HandleSMembers env p args redis_db = (case args of
     [key] \<Rightarrow> with_db env redis_db (\<lambda>db. bindE (SMembers env db key p) (\<lambda>(result, db).
       Inr (encoded_reply env result, db)))
   | _ \<Rightarrow> Inr (reply env WrongNumberOfArguments, redis_db))"

section \<open>Lemmas\<close>

text \<open>The key holds this set object, with the members of a set.\<close>

definition set_at :: "server_env \<Rightarrow> int \<Rightarrow> (set_obj, 'l, 'z, 'h) redis_object redis_db \<Rightarrow> string \<Rightarrow> set_obj \<Rightarrow> string set \<Rightarrow> bool" where
  "set_at env now db key s A \<longleftrightarrow> visible now db key = Some (Set_value s) \<and> set_holds (key_hash env) s A"

lemma FindSet_at:
  assumes ok: "Db_Refinement.db_ok (key_hash env) db" and at: "set_at env (clock env 0) db key s A"
  shows "\<exists>db'. FindSet env db key = Inr (Some (Some s), db') \<and> Db_Refinement.db_ok (key_hash env) db' \<and> objects db' key \<noteq> None"
  using ok
proof (cases rule: LookupKey_cases [where now = "clock env 0" and key = key])
  case (missing db')
  then show ?thesis using at by (simp add: set_at_def)
next
  case (found ob db')
  then have "ob = Set_value s" using at by (simp add: set_at_def)
  then show ?thesis using found(1,4,5,7) by (simp add: FindSet_def RedisObject_Type_def RedisObject_Set_def)
qed

lemma FindSet_none:
  assumes ok: "Db_Refinement.db_ok (key_hash env) db" and v: "visible (clock env 0) db key = None"
  shows "\<exists>db'. FindSet env db key = Inr (Some None, db') \<and> Db_Refinement.db_ok (key_hash env) db'"
  using ok
proof (cases rule: LookupKey_cases [where now = "clock env 0" and key = key])
  case (missing db')
  then show ?thesis by (simp add: FindSet_def)
next
  case (found ob db')
  then show ?thesis using v by simp
qed

lemma StoreObject_set:
  assumes "Db_Refinement.db_ok (key_hash env) db" "objects db key \<noteq> None" "set_holds (key_hash env) s A"
  shows "Db_Refinement.db_ok (key_hash env) (StoreObject env db key (Set_value s))"
    "\<not> expired now (StoreObject env db key (Set_value s)) key \<Longrightarrow> set_at env now (StoreObject env db key (Set_value s)) key s A"
  using StoreObject_ok [OF assms(1,2), of "Set_value s"] assms(3) by (simp_all add: db_to_def set_at_def visible_def)

text \<open>The set a command works on: the one under the key, or a new one.\<close>

definition current_set :: "server_env \<Rightarrow> (set_obj, 'l, 'z, 'h) redis_object redis_db \<Rightarrow> string \<Rightarrow> set_obj \<Rightarrow> string set \<Rightarrow> bool" where
  "current_set env db key s A \<longleftrightarrow> set_at env (clock env 0) db key s A \<or>
     (visible (clock env 0) db key = None \<and> s = Set_new \<and> A = {})"

lemma SAdd_ok:
  assumes ok: "Db_Refinement.db_ok (key_hash env) db" and cur: "current_set env db key s A" and ready: "add_ready s A val"
  shows "\<exists>s' db'. SAdd env db [key, val] = Inr (Some (if val \<in> A then 0 else 1), db') \<and>
    Db_Refinement.db_ok (key_hash env) db' \<and>
    (\<forall>now. \<not> expired now db' key \<longrightarrow> set_at env now db' key s' (insert val A))"
proof -
  have h: "set_holds (key_hash env) s A" using cur set_holds_new by (auto simp: current_set_def set_at_def)
  obtain s' where a: "Set_Add (key_hash env) s val = Inr (val \<notin> A, s')" "set_holds (key_hash env) s' (insert val A)"
    using Set_Add_holds [OF h ready] by blast
  obtain db1 where d: "Db_Refinement.db_ok (key_hash env) db1" "objects db1 key \<noteq> None"
    "SAdd env db [key, val] = Inr (Some (if val \<in> A then 0 else 1), StoreObject env db1 key (Set_value s'))"
  proof (cases "set_at env (clock env 0) db key s A")
    case True
    obtain db1 where f: "FindSet env db key = Inr (Some (Some s), db1)" "Db_Refinement.db_ok (key_hash env) db1"
      "objects db1 key \<noteq> None" using FindSet_at [OF ok True] by blast
    show thesis by (rule that [OF f(2,3)]) (use f(1) a(1) in \<open>simp add: SAdd_def\<close>)
  next
    case False
    then have n: "visible (clock env 0) db key = None" "s = Set_new" using cur by (auto simp: current_set_def)
    obtain db0 where f: "FindSet env db key = Inr (Some None, db0)" "Db_Refinement.db_ok (key_hash env) db0"
      using FindSet_none [OF ok n(1)] by blast
    obtain st db1 where k: "SetKey (key_hash env) db0 key (Some (Set_value Set_new)) 0 False = (st, db1)" by fastforce
    have t: "st = DbStatus.kOk" "Db_Refinement.db_ok (key_hash env) db1" "objects db1 key \<noteq> None"
      using SetKey_ok [OF f(2) k] by (simp_all add: db_to_def)
    show thesis by (rule that [OF t(2,3)]) (use f(1) k t(1) a(1) n(2) in \<open>simp add: SAdd_def\<close>)
  qed
  then show ?thesis using StoreObject_set [OF d(1,2) a(2)] by blast
qed

lemma SIsMember_ok:
  assumes ok: "Db_Refinement.db_ok (key_hash env) db" and at: "set_at env (clock env 0) db key s A"
  shows "\<exists>db'. SIsMember env db (key, u) = Inr (Some (if u \<in> A then 1 else 0), db')"
proof -
  obtain db' where f: "FindSet env db key = Inr (Some (Some s), db')" using FindSet_at [OF ok at] by blast
  obtain s' where "HasMember (key_hash env) s u = Inr (u \<in> A, s')" using HasMember_holds [of "key_hash env" s A u] at
    by (auto simp: set_at_def)
  then show ?thesis using f by (simp add: SIsMember_def catch_exception_def)
qed

text \<open>
  \<open>SREM\<close> leaves a set of integers that it has emptied under its key, and \<open>Add\<close> of a member that is
  not an integer then throws: \<open>SADD\<close> replies that the key holds the wrong type.
\<close>

lemma SAdd_emptied_replies_wrong_type:
  assumes ok: "Db_Refinement.db_ok (key_hash env) db"
    and at: "set_at env (clock env 0) db key (Set_new\<lparr>set_intset := Some j\<rparr>) {}"
    and j: "intset_ok j" "intset_set j = {}" and val: "ToCanonicalInt64 val = None"
  shows "\<exists>db'. HandleSAdd env p [key, val] (Some db) = Inr (reply env WrongTypeError, Some db')"
proof -
  obtain db' where f: "FindSet env db key = Inr (Some (Some (Set_new\<lparr>set_intset := Some j\<rparr>)), db')"
    using FindSet_at [OF ok at] by blast
  have "Set_Add (key_hash env) (Set_new\<lparr>set_intset := Some j\<rparr>) val = Inl Out_of_range"
    by (rule Set_Add_emptied [OF val j])
  then show ?thesis using f by (simp add: HandleSAdd_def SAdd_def is_exception_def integer_reply_def)
qed

section \<open>Properties\<close>



end
