(* ===== verification/Session_Commands.thy ===== *)
theory Session_Commands
  imports Command_Env
begin

text \<open>The session commands, \<open>src/server/commands/session.cpp\<close>: they do not touch the database.\<close>

section \<open>Definitions\<close>

definition protocol_number :: "ProtocolVersion \<Rightarrow> int" where
  "protocol_number p = (if p = kResp2 then 2 else 3)"

definition EncodeHello :: "ProtocolVersion \<Rightarrow> string res" where
  "EncodeHello p = bindE (FromMapHeader 7 p) (\<lambda>encoded.
     let encoded = AppendBulkString ''redis_simple'' (AppendBulkString ''server'' encoded);
         encoded = AppendBulkString ''0.1.0'' (AppendBulkString ''version'' encoded);
         encoded = AppendBulkString ''proto'' encoded @ FromInt64 (protocol_number p);
         encoded = AppendBulkString ''id'' encoded @ FromInt64 0;
         encoded = AppendBulkString ''standalone'' (AppendBulkString ''mode'' encoded);
         encoded = AppendBulkString ''master'' (AppendBulkString ''role'' encoded);
         encoded = AppendBulkString ''modules'' encoded @ FromArrayHeader 0 in
     Inr encoded)"

definition HandleHello :: "server_env \<Rightarrow> ProtocolVersion \<Rightarrow> string list \<Rightarrow> client_call list res" where
  "HandleHello env p args =
     (if length args > 1 then Inr (reply env WrongNumberOfArguments)
      else if args \<noteq> [] then
        (case ToInt64 (args ! 0) of
           None \<Rightarrow> Inr (reply env (FromError ''NOPROTO unsupported protocol version''))
         | Some version \<Rightarrow>
             if version \<noteq> 2 \<and> version \<noteq> 3 then Inr (reply env (FromError ''NOPROTO unsupported protocol version''))
             else let protocol = (if version = 2 then kResp2 else kResp3) in
               bindE (EncodeHello protocol) (\<lambda>s. Inr (SetProtocol protocol # reply env s)))
      else bindE (EncodeHello p) (\<lambda>s. Inr (reply env s)))"

definition HandlePing :: "server_env \<Rightarrow> ProtocolVersion \<Rightarrow> string list \<Rightarrow> client_call list res" where
  "HandlePing env p args =
     (if length args > 1 then Inr (reply env WrongNumberOfArguments)
      else Inr (reply env (if args = [] then FromString ''PONG'' else FromBulkString (args ! 0))))"

definition HandleEcho :: "server_env \<Rightarrow> ProtocolVersion \<Rightarrow> string list \<Rightarrow> client_call list res" where
  "HandleEcho env p args =
     (if length args \<noteq> 1 then Inr (reply env WrongNumberOfArguments)
      else Inr (reply env (FromBulkString (args ! 0))))"

definition HandleQuit :: "server_env \<Rightarrow> ProtocolVersion \<Rightarrow> string list \<Rightarrow> client_call list res" where
  "HandleQuit env p args =
     (if args \<noteq> [] then Inr (reply env WrongNumberOfArguments)
      else Inr (reply env (FromString ''OK'') @ [CloseAfterReply]))"

section \<open>Lemmas\<close>

text \<open>
  \<open>HELLO\<close> never throws: the header of the seven fields is in range.  It changes the protocol only
  to a version it knows, before the reply, which is in the new protocol.
\<close>

lemma EncodeHello_returns: "\<exists>s. EncodeHello p = Inr s"
  by (simp add: EncodeHello_def FromMapHeader_def)

lemma HandleHello_switches:
  assumes "ToInt64 v = Some n"
  shows "if n = 2 \<or> n = 3
    then \<exists>s. EncodeHello (if n = 2 then kResp2 else kResp3) = Inr s \<and>
      HandleHello env p [v] = Inr (SetProtocol (if n = 2 then kResp2 else kResp3) # reply env s)
    else HandleHello env p [v] = Inr (reply env (FromError ''NOPROTO unsupported protocol version''))"
proof -
  obtain s where "EncodeHello (if n = 2 then kResp2 else kResp3) = Inr s" using EncodeHello_returns by blast
  then show ?thesis using assms by (cases "n = 2") (simp_all add: HandleHello_def)
qed

end
