(* ===== verification/Server_Pipeline.thy ===== *)
theory Server_Pipeline
  imports String_Commands Key_Commands
begin

text \<open>
  The handlers put into the client: the surroundings whose handlers are those of the string and key
  commands, by the name the command table gives them, and any others for the rest of the table.  The
  state of the server is the number of commands run, which selects the parameters of the next one,
  and the database.
\<close>

section \<open>Definitions\<close>

definition dispatch :: "(nat \<Rightarrow> server_env)
    \<Rightarrow> (string \<Rightarrow> server_env \<Rightarrow> ProtocolVersion \<Rightarrow> string list \<Rightarrow> ('s, 'l, 'z, 'h) redis_object redis_db option
        \<Rightarrow> ('s, 'l, 'z, 'h) redis_object handled)
    \<Rightarrow> string \<Rightarrow> ProtocolVersion \<Rightarrow> string list \<Rightarrow> nat \<times> ('s, 'l, 'z, 'h) redis_object redis_db option
    \<Rightarrow> (client_call list \<times> nat \<times> ('s, 'l, 'z, 'h) redis_object redis_db option) res" where
  "dispatch envs other name p args = (\<lambda>(n, db).
     bindE ((if name = ''strings::HandleGet'' then HandleGet
        else if name = ''strings::HandleSet'' then HandleSet
        else if name = ''strings::HandleIncr'' then HandleIncr
        else if name = ''strings::HandleDecr'' then HandleDecr
        else if name = ''strings::HandleAppend'' then HandleAppend
        else if name = ''strings::HandleMGet'' then HandleMGet
        else if name = ''strings::HandleMSet'' then HandleMSet
        else if name = ''key::HandleDel'' then HandleDel
        else if name = ''key::HandleUnlink'' then HandleUnlink
        else if name = ''key::HandleExists'' then HandleExists
        else if name = ''key::HandleType'' then HandleType
        else if name = ''key::HandleExpire'' then HandleExpire
        else if name = ''key::HandlePExpire'' then HandlePExpire
        else if name = ''key::HandlePExpireAt'' then HandlePExpireAt
        else if name = ''key::HandleTtl'' then HandleTtl
        else if name = ''key::HandlePTtl'' then HandlePTtl
        else if name = ''key::HandlePersist'' then HandlePersist
        else if name = ''key::HandleRename'' then HandleRename
        else if name = ''key::HandleDbSize'' then HandleDbSize
        else if name = ''key::HandleFlushDb'' then HandleFlushDb
        else if name = ''key::HandleScan'' then HandleScan
        else other name) (envs n) p args db)
       (\<lambda>(calls, db). Inr (calls, Suc n, db)))"

section \<open>Lemmas\<close>

lemma Find_GET: "Find ''GET'' = Some (ReadCommand ''GET'' ''strings::HandleGet'' (FixedArity 1) OneKey)"
proof -
  have "ReadCommand ''GET'' ''strings::HandleGet'' (FixedArity 1) OneKey \<in> set kCommandTable"
    unfolding kCommandTable_def by (simp only: list.set insert_iff simp_thms)
  then show ?thesis unfolding Find_iff by (simp add: ReadCommand_def EqualsIgnoreCase_key)
qed

lemma Find_SET: "Find ''SET'' = Some (WriteCommand ''SET'' ''strings::HandleSet'' (VariableArity 2) OneKey)"
proof -
  have "WriteCommand ''SET'' ''strings::HandleSet'' (VariableArity 2) OneKey \<in> set kCommandTable"
    unfolding kCommandTable_def by (simp only: list.set insert_iff simp_thms)
  then show ?thesis unfolding Find_iff by (simp add: WriteCommand_def EqualsIgnoreCase_key)
qed

lemma known_SET_GET: "known_request (''SET'', [k, v])" "known_request (''GET'', [k])"
  by (simp_all add: known_request_def Find_GET Find_SET ReadCommand_def WriteCommand_def FixedArity_def
      VariableArity_def Accepts_def)

text \<open>One command of the client whose handler returns its calls.\<close>

lemma ProcessCommand_calls:
  assumes c: "client_ok c" and cmd: "cl_command c = Some cmd"
    and h: "handler sur (cmd_callback cmd) (protocol c) (cl_args c) w = Inr (calls, w')" "list_all call_ok calls"
    and aof: "aof_append sur = None"
  shows "\<exists>c'. ProcessCommand sur (w, c) = Inr (ClientStatus.kOk, w', c') \<and>
    replies (concat (map call_bytes calls)) (c\<lparr>modified := False\<rparr>) c'"
proof -
  have c0: "client_ok (c\<lparr>modified := False\<rparr>)" using c by (simp add: client_ok_def)
  obtain c' where "apply_calls calls (c\<lparr>modified := False\<rparr>) = Inr c'"
    "replies (concat (map call_bytes calls)) (c\<lparr>modified := False\<rparr>) c'" using apply_calls_ok [OF c0 h(2)] by blast
  then show ?thesis using cmd h(1) aof by (simp add: ProcessCommand_def run_callback_def)
qed

lemma execute_step:
  assumes c: "client_ok c" "\<not> close_after_reply c" and cmd: "Find name = Some cmd"
    and h: "handler sur (cmd_callback cmd) (protocol c) args w = Inr (calls, w')" and sur: "sur_ok sur" "aof_append sur = None"
  shows "\<exists>c'. execute sur ((name, args) # rs) w c = execute sur rs w' c' \<and> client_ok c' \<and>
    discard_replies c' = discard_replies c \<and>
    (\<not> discard_replies c \<and> \<not> close_after_reply c' \<longrightarrow>
      rb_content (reply_buf c') = rb_content (reply_buf c) @ concat (map call_bytes calls))"
proof -
  let ?d = "c\<lparr>cl_command := Find name, cl_args := args\<rparr>"
  have d: "client_ok ?d" using c(1) by (simp add: client_ok_def)
  have dc: "cl_command ?d = Some cmd" using cmd by simp
  have h': "handler sur (cmd_callback cmd) (protocol ?d) (cl_args ?d) w = Inr (calls, w')" using h by simp
  have ok: "list_all call_ok calls"
  proof -
    obtain calls' v where "handler sur (cmd_callback cmd) (protocol c) args w = Inr (calls', v)" "list_all call_ok calls'"
      using sur(1) unfolding sur_ok_def by blast
    then show ?thesis using h by simp
  qed
  obtain c' where p: "ProcessCommand sur (w, ?d) = Inr (ClientStatus.kOk, w', c')"
    "replies (concat (map call_bytes calls)) (?d\<lparr>modified := False\<rparr>) c'"
    using ProcessCommand_calls [OF d dc h' ok sur(2)] by blast
  have e: "execute sur ((name, args) # rs) w c = execute sur rs w' c'"
    using c(2) p(1) by simp
  have r: "client_ok c'" "discard_replies c' = discard_replies c"
    "\<not> discard_replies c \<and> \<not> close_after_reply c' \<longrightarrow>
      rb_content (reply_buf c') = rb_content (reply_buf c) @ concat (map call_bytes calls)"
    using p(2) by (auto simp: replies_def)
  show ?thesis by (intro exI [of _ c'] conjI e r)
qed

lemma execute_closed: "close_after_reply c \<Longrightarrow> execute sur rs w c = Inr (ClientStatus.kOk, w, c)"
  by (cases rs) simp_all

lemma execute_SET_GET:
  assumes c: "client_ok c" "\<not> discard_replies c" and sur: "sur_ok sur" "aof_append sur = None"
    "handler sur = dispatch envs other" and hf: "\<And>n. key_hash (envs n) = hf"
    and db: "Db_Refinement.db_ok hf db" and e: "execute sur [(''SET'', [k, v]), (''GET'', [k])] (n, Some db) c = Inr (st, w', c')"
    and open_: "\<not> close_after_reply c'"
  shows "st = ClientStatus.kOk \<and> rb_content (reply_buf c') = rb_content (reply_buf c) @ FromString ''OK'' @ FromBulkString v"
proof -
  have oc: "\<not> close_after_reply c" using execute_closed [of c sur "[(''SET'', [k, v]), (''GET'', [k])]" "(n, Some db)"] e open_ by auto
  have db0: "Db_Refinement.db_ok (key_hash (envs n)) db" using db hf by simp
  obtain db1 where s: "HandleSet (envs n) (protocol c) [k, v] (Some db) =
      Inr (MarkModified # reply (envs n) (FromString ''OK''), Some db1)"
    "db_to (key_hash (envs n)) db db1 ((objects db)(k \<mapsto> String_value v)) ((expiries db)(k := None))"
    using HandleSet_ok [OF db0 Set_ParseArgs_plain, of "protocol c" k v] by auto
  have h1: "handler sur (cmd_callback (WriteCommand ''SET'' ''strings::HandleSet'' (VariableArity 2) OneKey)) (protocol c) [k, v] (n, Some db) =
      Inr (MarkModified # reply (envs n) (FromString ''OK''), Suc n, Some db1)"
    using s(1) unfolding sur(3) by (simp add: dispatch_def WriteCommand_def)
  obtain c1 where c1: "execute sur [(''SET'', [k, v]), (''GET'', [k])] (n, Some db) c = execute sur [(''GET'', [k])] (Suc n, Some db1) c1"
    "client_ok c1" "discard_replies c1 = discard_replies c"
    "\<not> discard_replies c \<and> \<not> close_after_reply c1 \<longrightarrow> rb_content (reply_buf c1) =
      rb_content (reply_buf c) @ concat (map call_bytes (MarkModified # reply (envs n) (FromString ''OK'')))"
    using execute_step [OF c(1) oc Find_SET h1 sur(1,2), of "[(''GET'', [k])]"] by blast
  have oc1: "\<not> close_after_reply c1" using execute_closed [of c1 sur "[(''GET'', [k])]" "(Suc n, Some db1)"] e open_ c1(1) by auto
  have db1: "Db_Refinement.db_ok (key_hash (envs (Suc n))) db1" using s(2) hf by (simp add: db_to_def)
  have vis: "visible t db1 k = Some (String_value v)" for t unfolding visible_to [OF s(2)] by simp
  obtain db2 where g: "HandleGet (envs (Suc n)) (protocol c1) [k] (Some db1) =
      Inr (reply (envs (Suc n)) (FromBulkString v), Some db2)"
    using HandleGet_ok [OF db1, of "protocol c1" k] unfolding vis by (auto simp: get_reply_def)
  have h2: "handler sur (cmd_callback (ReadCommand ''GET'' ''strings::HandleGet'' (FixedArity 1) OneKey)) (protocol c1) [k] (Suc n, Some db1) =
      Inr (reply (envs (Suc n)) (FromBulkString v), Suc (Suc n), Some db2)"
    using g unfolding sur(3) by (simp add: dispatch_def ReadCommand_def)
  obtain c2 where c2: "execute sur [(''GET'', [k])] (Suc n, Some db1) c1 = execute sur [] (Suc (Suc n), Some db2) c2"
    "\<not> discard_replies c1 \<and> \<not> close_after_reply c2 \<longrightarrow> rb_content (reply_buf c2) =
      rb_content (reply_buf c1) @ concat (map call_bytes (reply (envs (Suc n)) (FromBulkString v)))"
    using execute_step [OF c1(2) oc1 Find_GET h2 sur(1,2), of "[]"] by blast
  have "st = ClientStatus.kOk" "c' = c2" using e c1(1) c2(1) by simp_all
  then show ?thesis using c1(3,4) c2(2) oc1 open_ c(2) by (simp add: reply_def)
qed

text \<open>The handlers return on every database, and the calls they make are well-formed.\<close>

definition env_fits :: "server_env \<Rightarrow> bool" where
  "env_fits env \<longleftrightarrow> (\<forall>s. length s \<le> capacity env s)"

definition returns :: "(client_call list \<times> 'b) res \<Rightarrow> bool" where
  "returns r \<longleftrightarrow> (\<exists>calls v. r = Inr (calls, v) \<and> list_all call_ok calls)"

lemma returns_Inr [simp]: "returns (Inr (calls, v)) = list_all call_ok calls"
  by (simp add: returns_def)

lemma reply_env_fits [simp]: "env_fits env \<Longrightarrow> list_all call_ok (reply env s)"
  by (simp add: reply_def env_fits_def)

lemma returns_with_db:
  assumes "env_fits env" "\<And>db. redis_db = Some db \<Longrightarrow> returns (f db)"
  shows "returns (with_db env redis_db f)"
proof (cases redis_db)
  case None
  then show ?thesis using assms(1) by simp
next
  case (Some db)
  obtain calls v where "f db = Inr (calls, v)" "list_all call_ok calls" using assms(2) [OF Some] by (auto simp: returns_def)
  then show ?thesis using Some by simp
qed

lemma String_Type: "RedisObject_Type ob = kString \<Longrightarrow> \<exists>s. RedisObject_String ob = Inr s"
  by (cases ob) (simp_all add: RedisObject_Type_def RedisObject_String_def)

lemma HandleGet_returns: "env_fits env \<Longrightarrow> returns (HandleGet env p args db)"
  by (auto simp: HandleGet_def Get_def intro!: returns_with_db dest!: String_Type split: option.splits prod.splits)

lemma HandleSet_returns: "env_fits env \<Longrightarrow> returns (HandleSet env p args db)"
  by (auto simp: HandleSet_def intro!: returns_with_db split: option.splits prod.splits)

lemma HandleIncrement_returns: "env_fits env \<Longrightarrow> returns (HandleIncrement inc env p args db)"
  by (auto simp: HandleIncrement_def intro!: returns_with_db dest!: String_Type split: option.splits prod.splits)

lemma HandleAppend_returns: "env_fits env \<Longrightarrow> returns (HandleAppend env p args db)"
  by (auto simp: HandleAppend_def Let_def intro!: returns_with_db dest!: String_Type split: option.splits prod.splits)

lemma LookupString_returns:
  "\<exists>val status db'. LookupString env now db key = Inr ((val, status), db') \<and> (status = kStringOk \<longrightarrow> (\<exists>v. val = Some v))"
  by (auto simp: LookupString_def dest!: String_Type split: option.splits prod.splits)

lemma HandleMGet_loop_returns: "\<exists>r. HandleMGet_loop env p i keys r0 db = Inr r"
proof (induction keys arbitrary: i r0 db)
  case (Cons k keys)
  obtain val status db' where l: "LookupString env (clock env i) db k = Inr ((val, status), db')"
    "status = kStringOk \<longrightarrow> (\<exists>v. val = Some v)" using LookupString_returns by blast
  then show ?case using Cons.IH by (cases val; cases "status = kStringOk") (simp_all add: deref_def)
qed simp

lemma HandleMGet_returns: "env_fits env \<Longrightarrow> returns (HandleMGet env p args db)"
proof -
  assume f: "env_fits env"
  show ?thesis unfolding HandleMGet_def
  proof (cases "args = []")
    case False
    have "returns (bindE (HandleMGet_loop env p 0 args (FromArrayHeader (length args)) d) (\<lambda>(encoded, db). Inr (reply env encoded, db)))"
      for d :: "('a, 'b, 'c, 'd) redis_object redis_db"
      using HandleMGet_loop_returns [of env p 0 args "FromArrayHeader (length args)" d] f by auto
    then show "returns (if args = [] then Inr (reply env WrongNumberOfArguments, db) else with_db env db (\<lambda>db.
        bindE (HandleMGet_loop env p 0 args (FromArrayHeader (length args)) db) (\<lambda>(encoded, db). Inr (reply env encoded, db))))"
      using False f by (simp add: returns_with_db)
  qed (use f in simp)
qed

lemma HandleMSet_loop_returns: "even (length args) \<Longrightarrow> \<exists>r. HandleMSet_loop env args db = Inr r"
  by (induction env args db rule: HandleMSet_loop.induct) simp_all

lemma HandleMSet_returns: "env_fits env \<Longrightarrow> returns (HandleMSet env p args db)"
proof -
  assume f: "env_fits env"
  have "returns (bindE (HandleMSet_loop env args d) (\<lambda>db. Inr (MarkModified # reply env (FromString ''OK''), db)))"
    if "length args mod 2 = 0" for d :: "('a, 'b, 'c, 'd) redis_object redis_db"
    using HandleMSet_loop_returns [of args env d] that f by (auto simp: even_iff_mod_2_eq_zero)
  then show ?thesis using f by (auto simp: HandleMSet_def intro!: returns_with_db)
qed

lemma key_handlers_return:
  assumes "env_fits env"
  shows "returns (HandleDel env p args db)" "returns (HandleUnlink env p args db)" "returns (HandleExists env p args db)"
    "returns (HandleExpire env p args db)" "returns (HandlePExpire env p args db)" "returns (HandlePExpireAt env p args db)"
    "returns (HandleTtl env p args db)" "returns (HandlePTtl env p args db)" "returns (HandlePersist env p args db)"
    "returns (HandleRename env p args db)" "returns (HandleDbSize env p args db)" "returns (HandleFlushDb env p args db)"
    "returns (HandleScan env p args db)"
proof -
  note defs = HandleDel_def HandleUnlink_def AddDeleteReply_def HandleExists_def HandleExpire_def HandlePExpire_def
    HandlePExpireAt_def AddExpireReply_def AddExpireAtReply_def status_reply_def HandleTtl_def HandlePTtl_def AddTtlReply_def
    HandlePersist_def HandleRename_def HandleDbSize_def HandleFlushDb_def
  show "returns (HandleDel env p args db)" "returns (HandleUnlink env p args db)" "returns (HandleExists env p args db)"
    "returns (HandleExpire env p args db)" "returns (HandlePExpire env p args db)" "returns (HandlePExpireAt env p args db)"
    "returns (HandleTtl env p args db)" "returns (HandlePTtl env p args db)" "returns (HandlePersist env p args db)"
    "returns (HandleRename env p args db)" "returns (HandleDbSize env p args db)" "returns (HandleFlushDb env p args db)"
    using assms by (auto simp: defs intro!: returns_with_db split: option.splits prod.splits)
  show "returns (HandleScan env p args db)"
    using assms by (auto simp: HandleScan_def AddParseError_def Let_def intro!: returns_with_db
        split: option.splits prod.splits ScanParseStatus.splits)
qed

lemma HandleType_returns: "env_fits env \<Longrightarrow> returns (HandleType env p args db)"
  by (auto simp: HandleType_def intro!: returns_with_db split: option.splits prod.splits)

lemma dispatch_returns:
  assumes "\<And>n. env_fits (envs n)" "\<And>name n p args db. returns (other name (envs n) p args db)"
  shows "returns (dispatch envs other name p args w)"
proof -
  obtain n db where w: "w = (n, db)" by fastforce
  have step: "returns (bindE r (\<lambda>(calls, db). Inr (calls, Suc n, db)))" if "returns r"
    for r :: "(client_call list \<times> ('a, 'b, 'c, 'd) redis_object redis_db option) res"
    using that by (auto simp: returns_def)
  note f = assms(1) [of n]
  show ?thesis unfolding dispatch_def w prod.case
    by (rule step) (simp add: HandleGet_returns [OF f] HandleSet_returns [OF f] HandleIncr_def HandleDecr_def
        HandleIncrement_returns [OF f] HandleAppend_returns [OF f] HandleMGet_returns [OF f] HandleMSet_returns [OF f]
        key_handlers_return [OF f] HandleType_returns [OF f] assms(2))
qed

lemma dispatch_sur_ok:
  assumes "\<forall>n. env_fits (envs n)" "\<forall>name n p args db. returns (other name (envs n) p args db)"
    and "\<forall>s. length s \<le> reply_capacity sur s" "handler sur = dispatch envs other"
  shows "sur_ok sur"
  using dispatch_returns [of envs other] assms unfolding sur_ok_def returns_def by simp

section \<open>Properties\<close>



end
