(* ===== verification/Spec2Isabelle.thy ===== *)
theory Spec2Isabelle
  imports Listpack_Refinement Dict_Refinement IntSet_Refinement Buffers_Refinement Resp_Correct
    Db_Refinement Client_Pipeline String_Commands Key_Commands Hash_Commands
    List_Commands Set_Commands Session_Commands Server_Pipeline
begin

text \<open>
  A verification development for \<open>redis_simple\<close>, a single-threaded key-value server in the
  style of Redis.

  The program.  \<open>src/memory\<close> holds the containers: the byte-packed \<open>ListPack\<close>, the chained hash
  table \<open>Dict\<close>, \<open>IntSet\<close>, \<open>QuickList\<close>, \<open>Skiplist\<close> and the network buffers.  \<open>src/data_types\<close>
  builds the Redis types on them, \<open>src/server\<close> the key space with its expiry, the request parser,
  the replies, the commands and the append-only file; \<open>src/event_loop\<close>, \<open>src/tcp\<close> and
  \<open>src/connection\<close> are the input and output.

  The model.
    \<^item> \<open>Prelude\<close>: fallible computations (\<open>bindE\<close>; the faults include any access outside an array,
      so that memory safety is part of every refinement lemma), integer limits, bit operations
      on bytes as arithmetic, byte arrays.
    \<^item> \<open>Num_Utils\<close>: \<open>src/utils/int_utils.cpp\<close> and the integer part of
      \<open>src/utils/string_utils.cpp\<close>.  The parser accepts exactly what the printer prints.
    \<^item> \<open>Strings\<close>: the rest of \<open>src/utils/string_utils.cpp\<close>: glob patterns, splitting, comparison
      without case.  The glob matcher is equal to the meaning of the pattern.
    \<^item> \<open>Commands\<close>: the command table and its lookup, \<open>src/server/commands/command.cpp\<close>.
    \<^item> \<open>Client\<close>, \<open>Client_Pipeline\<close>: \<open>src/server/client.cpp\<close>, which puts the buffers, the parser and
      the command table together.  What a handler does, the append-only file and the socket are arguments.  The loop
      over the requests ends on every input, executes pipelined requests in their order, and the
      buffers keep their limits.
    \<^item> \<open>Listpack_Codec\<close>, \<open>ListPack\<close>, \<open>Listpack_Refinement\<close>: \<open>src/memory/listpack.cpp\<close> and
      \<open>listpack.h\<close> on the bytes of \<open>lp_\<close>; every operation refines the operation on the sequence
      of entries.
    \<^item> \<open>Dict\<close>, \<open>Dict_Refinement\<close>: \<open>src/memory/dict.h\<close> with incremental rehashing; every operation
      refines the operation on a finite map (contract \<open>kv_map\<close>), and a rehash ends.
    \<^item> \<open>IntSet\<close>, \<open>IntSet_Refinement\<close>: \<open>src/memory/intset.cpp\<close> on the bytes of its array; every
      operation refines the operation on a finite set of integers (contract \<open>set_container\<close>).
    \<^item> \<open>Dict_Iterator\<close>: the iterators of \<open>Dict\<close> and \<open>IntSet\<close>; a traversal visits every element once.
    \<^item> \<open>Containers\<close>: what the data types share in their use of the containers.
    \<^item> \<open>Hash_Type\<close>: \<open>src/data_types/hash/hash.cpp\<close>; a hash behaves as a map through its conversion.
    \<^item> \<open>QuickList\<close>, \<open>Quicklist_Refinement\<close>: \<open>src/memory/quicklist.cpp\<close>, a chain of listpacks; every
      operation refines the operation on a list of strings, and splitting and merging end.
    \<^item> \<open>List_Type\<close>: \<open>src/data_types/list/list.cpp\<close> over a listpack or a quicklist; a list behaves as
      a list of strings through its conversions.
    \<^item> \<open>Set_Type\<close>, \<open>Set_Refinement\<close>: \<open>src/data_types/set/set.cpp\<close> over the three containers, with its
      conversions; \<open>Set_Members\<close> its traversals.  Membership, insertion, removal and size are those of a set of strings in every
      encoding; insertion of a text into a set of integers that has been emptied is shown to throw.
    \<^item> \<open>Buffers\<close>, \<open>Buffers_Refinement\<close>: \<open>src/memory/reply_buffer.cpp\<close>, \<open>buf_node.h\<close> and
      \<open>dynamic_buffer.cpp\<close>; both are byte queues (contract \<open>byte_fifo\<close>).
    \<^item> \<open>Resp\<close>, \<open>Resp_Correct\<close>: \<open>src/server/reply.cpp\<close> and \<open>src/server/request_parser.cpp\<close>; the
      parser is safe on every input, inverts the encoder and waits on incomplete requests.
    \<^item> \<open>Db\<close>, \<open>Db_Refinement\<close>: \<open>src/server/db/db.cpp\<close> and \<open>redis_obj.cpp\<close> on two dicts; every
      operation is proved over the dicts' contract \<open>kv_map\<close>, and no expiry time outlives its key.
    \<^item> \<open>Command_Env\<close>: what the command handlers share; a handler is a function of its arguments and the
      database to the calls on its client and the new database.
    \<^item> \<open>String_Commands\<close>, \<open>Key_Commands\<close>, \<open>Hash_Commands\<close>, \<open>List_Commands\<close>, \<open>Set_Commands\<close>,
      \<open>Session_Commands\<close>: the handlers of \<open>src/server/commands/string\<close>, \<open>key\<close>, \<open>hash\<close>, \<open>list\<close>,
      \<open>set\<close> (without \<open>set_ops.cpp\<close>) and \<open>session.cpp\<close> with all of their replies.  Writing and then
      reading with these commands gives back what was written, within its time to live; the errors
      change nothing a client can see; \<open>DEL\<close> is shown to count expired keys.
    \<^item> \<open>Server_Pipeline\<close>: the handlers of strings and keys in the client model.  They return on every
      database, and two pipelined requests get their replies from the bytes read to the bytes queued.

  Bounds.  \<open>NextExp_loop\<close> has 64 doublings of a 64 bit size.  The loops of a quicklist that merge
  nodes have as many iterations as there are nodes, since each of them removes one, and those that
  split have twice the number of elements; the lemmas show that these are enough.  Strings stored
  in a listpack are shorter than \<open>2^31\<close> bytes in the refinement lemmas: the decoder of longer
  lengths sign-extends them.

  Not modelled: the event loop, sockets, logging, the append-only file and the command line client
  (input and output); \<open>Skiplist\<close>, the sorted set type, and the handlers of the sorted set commands, of
  \<open>set_ops.cpp\<close> and of the persistence commands.
\<close>

end
